(* ===== verification/Go_Prelude.thy ===== *)
theory Go_Prelude
  imports Main "HOL-Library.Word" "HOL-Library.AList" "HOL-Library.Multiset" "HOL-Library.Code_Target_Nat"
begin

text \<open>
  The vocabulary every component shares: Go's fixed-width integers as words, byte slices
  as lists, instants and durations as integers in nanoseconds, the big-endian integer codec
  of \<open>encoding/binary\<close>, and Go maps as association lists with distinct keys (the list
  order is one iteration order of the map, so a loop \<open>for k, v := range m\<close> is a recursion over
  the list).  The collections \<open>gosimps\<close>, \<open>gomaps\<close> and \<open>bytesimps\<close> hold the facts the
  component theories rewrite with.
\<close>

unbundle bit_operations_syntax

named_theorems gosimps \<open>rewriting of slices, results and maps\<close>
named_theorems gomaps \<open>lookup, update and deletion in Go maps\<close>
named_theorems bytesimps \<open>lengths and round trips of the integer codec\<close>

type_synonym byte = "8 word"
type_synonym bytes = "byte list"
type_synonym u16 = "16 word"
type_synonym u32 = "32 word"
type_synonym u64 = "64 word"

text \<open>\<open>time.Time\<close> is read as nanoseconds of the monotonic clock; the zero \<open>time.Time{}\<close>,
  which the code tests with \<open>IsZero\<close>, is \<open>None\<close> of an optional instant.\<close>

type_synonym instant = int
type_synonym duration = int

abbreviation millisecond :: duration where
  "millisecond \<equiv> 1000000"

abbreviation second :: duration where
  "second \<equiv> 1000000000"

section \<open>Slices\<close>

text \<open>\<open>s[a:b]\<close> of a slice.\<close>

text \<open>Go's integer division truncates towards zero.\<close>

definition go_quot :: "int \<Rightarrow> int \<Rightarrow> int" where
  "go_quot a b = sgn a * sgn b * (\<bar>a\<bar> div \<bar>b\<bar>)"

lemma go_quot_nonneg [simp]: "0 \<le> a \<Longrightarrow> 0 < b \<Longrightarrow> go_quot a b = a div b"
  by (cases "a = 0") (simp_all add: go_quot_def)

definition subslice :: "nat \<Rightarrow> nat \<Rightarrow> 'a list \<Rightarrow> 'a list" where
  "subslice a b xs = take (b - a) (drop a xs)"

lemma length_slice [simp]: "length (subslice a b xs) = min (b - a) (length xs - a)"
  by (simp add: subslice_def min.commute)

lemma slice_append_left [gosimps]: "b \<le> length xs \<Longrightarrow> subslice a b (xs @ ys) = subslice a b xs"
  by (cases "a \<le> b") (auto simp: subslice_def)

lemma slice_append_right [gosimps]:
  "length xs \<le> a \<Longrightarrow> subslice a b (xs @ ys) = subslice (a - length xs) (b - length xs) ys"
  by (auto simp: subslice_def)

lemma slice_all [gosimps]: "length xs = b \<Longrightarrow> subslice 0 b xs = xs"
  by (simp add: subslice_def)

section \<open>Big-endian integers\<close>

text \<open>\<open>be_bytes n x\<close> is what \<open>PutUint16\<close>, \<open>PutUint32\<close> and \<open>PutUint64\<close> write for
  \<open>n = 2, 4, 8\<close>; \<open>be_nat\<close> is the value \<open>Uint16\<close>, \<open>Uint32\<close> and \<open>Uint64\<close> read.\<close>

fun be_bytes :: "nat \<Rightarrow> nat \<Rightarrow> bytes" where
  "be_bytes 0 x = []"
| "be_bytes (Suc n) x = be_bytes n (x div 256) @ [of_nat x]"

definition be_nat :: "bytes \<Rightarrow> nat" where
  "be_nat bs = foldl (\<lambda>a b. a * 256 + unat b) 0 bs"

lemma length_be_bytes [simp, bytesimps]: "length (be_bytes n x) = n"
  by (induction n arbitrary: x) auto

lemma be_nat_snoc [simp]: "be_nat (bs @ [b]) = be_nat bs * 256 + unat b"
  by (simp add: be_nat_def)

lemma be_nat_Nil [simp]: "be_nat [] = 0"
  by (simp add: be_nat_def)

lemma word_bounds:
  "unat (a :: byte) < 256" "unat (b :: u16) < 65536" "unat (c :: u32) < 4294967296"
  "unat (d :: u64) < 18446744073709551616"
  using unsigned_less [of a] unsigned_less [of b] unsigned_less [of c] unsigned_less [of d]
  by simp_all

lemma unat_of_nat_byte: "unat (of_nat x :: byte) = x mod 256"
  by (simp add: unat_of_nat)

lemma be_nat_be_bytes: "be_nat (be_bytes n x) = x mod 256 ^ n"
proof (induction n arbitrary: x)
  case 0
  then show ?case by simp
next
  case (Suc n)
  have "x mod 256 ^ Suc n = 256 * (x div 256 mod 256 ^ n) + x mod 256"
    by (simp add: mod_mult2_eq)
  with Suc show ?case by (simp add: unat_of_nat_byte)
qed

lemma be_nat_bound: "be_nat bs < 256 ^ length bs"
proof (induction bs rule: rev_induct)
  case Nil
  then show ?case by simp
next
  case (snoc b bs)
  have "unat b < 256" by (rule word_bounds)
  with snoc have "be_nat bs * 256 + unat b < (be_nat bs + 1) * 256" by simp
  also have "\<dots> \<le> 256 ^ length bs * 256" using snoc by (intro mult_le_mono1) simp
  finally show ?case by (simp add: mult.commute)
qed

definition put16 :: "u16 \<Rightarrow> bytes" where
  "put16 w = be_bytes 2 (unat w)"

definition put32 :: "u32 \<Rightarrow> bytes" where
  "put32 w = be_bytes 4 (unat w)"

definition put64 :: "u64 \<Rightarrow> bytes" where
  "put64 w = be_bytes 8 (unat w)"

definition get16 :: "bytes \<Rightarrow> u16" where
  "get16 bs = of_nat (be_nat bs)"

definition get32 :: "bytes \<Rightarrow> u32" where
  "get32 bs = of_nat (be_nat bs)"

definition get64 :: "bytes \<Rightarrow> u64" where
  "get64 bs = of_nat (be_nat bs)"

lemma length_put [simp, bytesimps]:
  "length (put16 a) = 2" "length (put32 b) = 4" "length (put64 c) = 8"
  by (simp_all add: put16_def put32_def put64_def)

lemma get_put [simp, bytesimps]:
  "get16 (put16 a) = a" "get32 (put32 b) = b" "get64 (put64 c) = c"
proof -
  have "unat a mod 256 ^ 2 = unat a" using word_bounds by simp
  then show "get16 (put16 a) = a" by (simp add: get16_def put16_def be_nat_be_bytes)
  have "unat b mod 256 ^ 4 = unat b" using word_bounds by simp
  then show "get32 (put32 b) = b" by (simp add: get32_def put32_def be_nat_be_bytes)
  have "unat c mod 256 ^ 8 = unat c" using word_bounds by simp
  then show "get64 (put64 c) = c" by (simp add: get64_def put64_def be_nat_be_bytes)
qed

text \<open>The little-endian 32-bit read that recognises WireGuard message types.\<close>

definition le_get32 :: "bytes \<Rightarrow> u32" where
  "le_get32 bs = get32 (rev bs)"

lemma be_bytes_be_nat: "be_bytes (length bs) (be_nat bs) = bs"
proof (induction bs rule: rev_induct)
  case Nil
  then show ?case by simp
next
  case (snoc b bs)
  have "unat b < 256" by (rule word_bounds)
  then have "(be_nat bs * 256 + unat b) div 256 = be_nat bs" by simp
  moreover have "(of_nat (be_nat bs * 256 + unat b) :: byte) = b"
  proof -
    have "unat (of_nat (be_nat bs * 256 + unat b) :: byte) = unat b"
      using \<open>unat b < 256\<close> by (simp only: unat_of_nat_byte) simp
    then show ?thesis by (simp only: word_unat_eq_iff)
  qed
  ultimately show ?case using snoc by simp
qed

lemma put_get [simp, bytesimps]:
  "length bs = 2 \<Longrightarrow> put16 (get16 bs) = bs"
  "length bs = 4 \<Longrightarrow> put32 (get32 bs) = bs"
  "length bs = 8 \<Longrightarrow> put64 (get64 bs) = bs"
  using be_nat_bound [of bs] be_bytes_be_nat [of bs]
  by (simp_all add: put16_def put32_def put64_def get16_def get32_def get64_def unat_of_nat)

section \<open>Go maps\<close>

text \<open>\<open>m[k]\<close> is \<open>map_of m k\<close>, \<open>m[k] = v\<close> is \<open>AList.update k v m\<close>, \<open>delete(m, k)\<close> is
  \<open>AList.delete k m\<close> and \<open>len(m)\<close> is the length of the list.\<close>

abbreviation keys :: "('k \<times> 'v) list \<Rightarrow> 'k list" where
  "keys m \<equiv> map fst m"

definition gomap_ok :: "('k \<times> 'v) list \<Rightarrow> bool" where
  "gomap_ok m \<longleftrightarrow> distinct (keys m)"

lemma gomap_ok_Nil [simp]: "gomap_ok []"
  by (simp add: gomap_ok_def)

lemma gomap_ok_update [simp]: "gomap_ok m \<Longrightarrow> gomap_ok (AList.update k v m)"
  by (simp add: gomap_ok_def distinct_update)

lemma gomap_ok_delete [simp]: "gomap_ok m \<Longrightarrow> gomap_ok (AList.delete k m)"
  by (simp add: gomap_ok_def distinct_delete)

lemma gomap_ok_filter [simp]: "gomap_ok m \<Longrightarrow> gomap_ok (filter P m)"
  by (simp add: gomap_ok_def distinct_map_filter)

lemma gomap_lookup_update [gomaps]: "map_of (AList.update k v m) k' = (if k' = k then Some v else map_of m k')"
  by (simp add: update_conv')

lemma gomap_lookup_delete [gomaps]: "map_of (AList.delete k m) k' = (if k' = k then None else map_of m k')"
  by (simp add: delete_conv')

lemma keys_update [gomaps]: "set (keys (AList.update k v m)) = insert k (set (keys m))"
  by (simp add: dom_update)

lemma keys_delete [gomaps]: "set (keys (AList.delete k m)) = set (keys m) - {k}"
  by (simp add: delete_keys)

lemma in_keys_iff: "k \<in> set (keys m) \<longleftrightarrow> (\<exists>v. map_of m k = Some v)"
  by (metis map_of_eq_None_iff not_None_eq set_map)

lemma length_update_new [gomaps]: "map_of m k = None \<Longrightarrow> length (AList.update k v m) = Suc (length m)"
  by (induction m) auto

lemma length_update_old [gomaps]: "map_of m k = Some w \<Longrightarrow> length (AList.update k v m) = length m"
  by (induction m) (auto split: if_splits)

lemma length_delete_le_map: "length (AList.delete k m) \<le> length m"
  by (rule length_delete_le)

lemma length_delete_in [gomaps]:
  "gomap_ok m \<Longrightarrow> map_of m k = Some v \<Longrightarrow> Suc (length (AList.delete k m)) = length m"
proof (induction m)
  case Nil
  then show ?case by simp
next
  case (Cons p m)
  then show ?case
    by (cases "fst p = k") (auto simp: gomap_ok_def)
qed

lemma map_of_in_set: "gomap_ok m \<Longrightarrow> (k, v) \<in> set m \<longleftrightarrow> map_of m k = Some v"
  by (simp add: gomap_ok_def)

lemma in_set_update [gomaps]:
  "gomap_ok m \<Longrightarrow> (k', v') \<in> set (AList.update k v m) \<longleftrightarrow>
     (if k' = k then v' = v else (k', v') \<in> set m)"
  by (auto simp: map_of_in_set gomap_lookup_update)

lemma in_set_delete [gomaps]:
  "gomap_ok m \<Longrightarrow> (k', v') \<in> set (AList.delete k m) \<longleftrightarrow> k' \<noteq> k \<and> (k', v') \<in> set m"
  by (auto simp: map_of_in_set gomap_lookup_delete)

section \<open>Results\<close>

text \<open>A Go function returning \<open>(T, error)\<close> is a value of the sum type, the error on the left.\<close>

lemma sum_bind_cases [gosimps]:
  "(case r of Inl e \<Rightarrow> Inl e | Inr x \<Rightarrow> f x) = Inr y \<longleftrightarrow> (\<exists>x. r = Inr x \<and> f x = Inr y)"
  by (cases r) auto

end
