(* ===== verification/Expiry_Heap.thy ===== *)
theory Expiry_Heap
  imports Go_Prelude
begin

text \<open>
  The indexed binary heap of Go's \<open>container/heap\<close> as the two expiry queues of the program
  use it (\<open>receiveGroupExpiry\<close> of the FEC decoder, \<open>reassemblyExpiry\<close> of the reassembler):
  every element knows its position, so an element in the middle of the heap is removed in
  logarithmic time.  \<open>pq_index\<close> is the field \<open>expiryIndex\<close> (resp. \<open>index\<close>) the \<open>Swap\<close> and \<open>Push\<close>
  methods write.  The locale \<open>expiry_queue\<close> states what the clients rely on; the heap is shown
  to provide it for every strict weak order.
\<close>

section \<open>The data structure\<close>

record 'a pq =
  pq_items :: "'a list"
  pq_index :: "'a \<Rightarrow> nat"

definition pq_empty :: "'a pq" where
  "pq_empty = \<lparr>pq_items = [], pq_index = (\<lambda>_. 0)\<rparr>"

text \<open>The \<open>Swap\<close> method: exchange two slots and record the new positions.\<close>

definition pq_swap :: "nat \<Rightarrow> nat \<Rightarrow> 'a pq \<Rightarrow> 'a pq" where
  "pq_swap i j q =
     (let xs = pq_items q; ys = xs[i := xs ! j, j := xs ! i]
      in \<lparr>pq_items = ys, pq_index = (pq_index q)(ys ! i := i, ys ! j := j)\<rparr>)"

text \<open>\<open>heap.up\<close>.\<close>

function heap_up :: "('a \<Rightarrow> 'a \<Rightarrow> bool) \<Rightarrow> nat \<Rightarrow> 'a pq \<Rightarrow> 'a pq" where
  "heap_up lt j q =
     (let i = (j - 1) div 2
      in if i = j \<or> \<not> lt (pq_items q ! j) (pq_items q ! i) then q
         else heap_up lt i (pq_swap i j q))"
  by pat_completeness auto
termination
  by (relation "measure (\<lambda>(lt, j, q). j)") auto

text \<open>The child \<open>heap.down\<close> compares with: the right one when it exists and is smaller.\<close>

definition smaller_child :: "('a \<Rightarrow> 'a \<Rightarrow> bool) \<Rightarrow> nat \<Rightarrow> nat \<Rightarrow> 'a list \<Rightarrow> nat" where
  "smaller_child lt i n xs =
     (if 2 * i + 2 < n \<and> lt (xs ! (2 * i + 2)) (xs ! (2 * i + 1)) then 2 * i + 2 else 2 * i + 1)"

lemma smaller_child_bounds:
  "i < smaller_child lt i n xs" "2 * i + 1 < n \<Longrightarrow> smaller_child lt i n xs < n"
  by (auto simp: smaller_child_def)

text \<open>\<open>heap.down\<close>; beside the heap it returns the slot where the element came to rest, so the
  Boolean the Go function returns is whether that slot lies below the first one.\<close>

function heap_down :: "('a \<Rightarrow> 'a \<Rightarrow> bool) \<Rightarrow> nat \<Rightarrow> nat \<Rightarrow> 'a pq \<Rightarrow> 'a pq \<times> nat" where
  "heap_down lt i n q =
     (let j = smaller_child lt i n (pq_items q)
      in if n \<le> 2 * i + 1 \<or> \<not> lt (pq_items q ! j) (pq_items q ! i) then (q, i)
         else heap_down lt j n (pq_swap i j q))"
  by pat_completeness auto
termination
proof (relation "measure (\<lambda>(lt, i, n, q). n - i)", goal_cases)
  case (2 lt i n q j)
  then show ?case using smaller_child_bounds(1) [of i lt n "pq_items q"] by auto
qed simp

declare heap_up.simps [simp del] heap_down.simps [simp del]

text \<open>\<open>heap.Push\<close> with the \<open>Push\<close> method of the queue.\<close>

definition pq_push :: "('a \<Rightarrow> 'a \<Rightarrow> bool) \<Rightarrow> 'a \<Rightarrow> 'a pq \<Rightarrow> 'a pq" where
  "pq_push lt x q =
     (let n = length (pq_items q)
      in heap_up lt n \<lparr>pq_items = pq_items q @ [x], pq_index = (pq_index q)(x := n)\<rparr>)"

text \<open>\<open>heap.Remove(h, i)\<close> with the \<open>Pop\<close> method of the queue.\<close>

definition heap_remove :: "('a \<Rightarrow> 'a \<Rightarrow> bool) \<Rightarrow> nat \<Rightarrow> 'a pq \<Rightarrow> 'a pq" where
  "heap_remove lt i q =
     (let n = length (pq_items q) - 1;
          q1 = (if n = i then q
                else (case heap_down lt i n (pq_swap i n q) of
                        (q2, i') \<Rightarrow> if i < i' then q2 else heap_up lt i q2))
      in q1\<lparr>pq_items := butlast (pq_items q1)\<rparr>)"

text \<open>What \<open>removeGroup\<close> and \<open>removeLocked\<close> do to the queue: remove the element at its
  recorded position.\<close>

definition pq_remove :: "('a \<Rightarrow> 'a \<Rightarrow> bool) \<Rightarrow> 'a \<Rightarrow> 'a pq \<Rightarrow> 'a pq" where
  "pq_remove lt x q = heap_remove lt (pq_index q x) q"

definition pq_peek :: "'a pq \<Rightarrow> 'a" where
  "pq_peek q = pq_items q ! 0"

definition pq_elems :: "'a pq \<Rightarrow> 'a set" where
  "pq_elems q = set (pq_items q)"

section \<open>The interface of an expiry queue\<close>

locale weak_order =
  fixes lt :: "'a \<Rightarrow> 'a \<Rightarrow> bool"
  assumes lt_asym: "lt a b \<Longrightarrow> \<not> lt b a"
    and lt_negtrans: "\<not> lt a b \<Longrightarrow> \<not> lt b c \<Longrightarrow> \<not> lt a c"

locale expiry_queue = weak_order lt
  for lt :: "'a \<Rightarrow> 'a \<Rightarrow> bool" +
  fixes empty :: "'q"
    and push :: "'a \<Rightarrow> 'q \<Rightarrow> 'q"
    and remove :: "'a \<Rightarrow> 'q \<Rightarrow> 'q"
    and peek :: "'q \<Rightarrow> 'a"
    and elems :: "'q \<Rightarrow> 'a set"
    and invar :: "'q \<Rightarrow> bool"
  assumes invar_empty: "invar empty"
    and elems_empty: "elems empty = {}"
    and invar_push: "invar q \<Longrightarrow> x \<notin> elems q \<Longrightarrow> invar (push x q)"
    and elems_push: "invar q \<Longrightarrow> x \<notin> elems q \<Longrightarrow> elems (push x q) = insert x (elems q)"
    and invar_remove: "invar q \<Longrightarrow> x \<in> elems q \<Longrightarrow> invar (remove x q)"
    and elems_remove: "invar q \<Longrightarrow> x \<in> elems q \<Longrightarrow> elems (remove x q) = elems q - {x}"
    and peek_elem: "invar q \<Longrightarrow> elems q \<noteq> {} \<Longrightarrow> peek q \<in> elems q"
    and peek_min: "invar q \<Longrightarrow> x \<in> elems q \<Longrightarrow> \<not> lt x (peek q)"
begin

text \<open>Both expiry loops stop at the first element that is not due.  When being due is
  closed downwards in the order of the queue, no element that is due is left then.\<close>

lemma none_due_when_root_is_not:
  assumes "invar q" and "\<And>a b. \<not> lt b a \<Longrightarrow> due b \<Longrightarrow> due a"
    and "elems q = {} \<or> \<not> due (peek q)" and "x \<in> elems q"
  shows "\<not> due x"
  using assms peek_min [OF assms(1,4)] by blast

lemmas queue_laws = invar_empty elems_empty invar_push elems_push invar_remove elems_remove

end

section \<open>Swapping keeps the elements and their recorded positions\<close>

definition pq_coherent :: "'a pq \<Rightarrow> bool" where
  "pq_coherent q \<longleftrightarrow> distinct (pq_items q)
     \<and> (\<forall>i < length (pq_items q). pq_index q (pq_items q ! i) = i)"

lemma pq_swap_length [simp]: "length (pq_items (pq_swap i j q)) = length (pq_items q)"
  by (simp add: pq_swap_def Let_def)

lemma pq_swap_nth:
  "i < length (pq_items q) \<Longrightarrow> j < length (pq_items q) \<Longrightarrow>
   pq_items (pq_swap i j q) ! c =
     (if c = j then pq_items q ! i else if c = i then pq_items q ! j else pq_items q ! c)"
  by (auto simp: pq_swap_def Let_def nth_list_update)

lemma pq_swap_mset [simp]:
  "i < length (pq_items q) \<Longrightarrow> j < length (pq_items q) \<Longrightarrow>
   mset (pq_items (pq_swap i j q)) = mset (pq_items q)"
  by (simp add: pq_swap_def Let_def mset_swap)

lemma pq_swap_coherent:
  assumes "i < length (pq_items q)" "j < length (pq_items q)" "pq_coherent q"
  shows "pq_coherent (pq_swap i j q)"
proof -
  let ?xs = "pq_items q" and ?ys = "pq_items (pq_swap i j q)"
  have d: "distinct ?ys"
    using assms by (metis pq_coherent_def pq_swap_mset mset_eq_imp_distinct_iff)
  have "pq_index (pq_swap i j q) (?ys ! c) = c" if "c < length ?ys" for c
  proof -
    have "pq_index (pq_swap i j q) = (pq_index q)(?ys ! i := i, ?ys ! j := j)"
      by (simp add: pq_swap_def Let_def)
    moreover have "?ys ! c = ?ys ! i \<longleftrightarrow> c = i" "?ys ! c = ?ys ! j \<longleftrightarrow> c = j"
      using d that assms(1,2) by (auto simp: nth_eq_iff_index_eq)
    moreover have "c \<noteq> i \<Longrightarrow> c \<noteq> j \<Longrightarrow> ?ys ! c = ?xs ! c"
      using assms(1,2) by (simp add: pq_swap_nth)
    ultimately show ?thesis using assms(3) that by (simp add: pq_coherent_def)
  qed
  with d show ?thesis by (simp add: pq_coherent_def)
qed

lemma parent_iff: "0 < c \<Longrightarrow> (c - 1) div 2 = i \<longleftrightarrow> c = 2 * i + 1 \<or> c = 2 * (i::nat) + 2"
  by presburger

text \<open>Sifting in either direction is a sequence of swaps: it permutes the items and keeps
  the positions coherent.\<close>

lemma heap_up_perm:
  "j < length (pq_items q) \<Longrightarrow>
   mset (pq_items (heap_up lt j q)) = mset (pq_items q) \<and> (pq_coherent q \<longrightarrow> pq_coherent (heap_up lt j q))"
proof (induction lt j q rule: heap_up.induct)
  case (1 lt j q)
  let ?i = "(j - 1) div 2"
  have i: "?i < length (pq_items q)" using 1(2) by linarith
  show ?case
  proof (cases "?i = j \<or> \<not> lt (pq_items q ! j) (pq_items q ! ?i)")
    case True
    then show ?thesis by (simp add: heap_up.simps [of lt j q] Let_def)
  next
    case False
    with 1 i show ?thesis
      by (simp add: heap_up.simps [of lt j q] Let_def pq_swap_coherent)
  qed
qed

lemma heap_down_perm:
  "n \<le> length (pq_items q) \<Longrightarrow> i < n \<Longrightarrow>
   mset (pq_items (fst (heap_down lt i n q))) = mset (pq_items q)
   \<and> (pq_coherent q \<longrightarrow> pq_coherent (fst (heap_down lt i n q)))
   \<and> (\<forall>c. n \<le> c \<longrightarrow> pq_items (fst (heap_down lt i n q)) ! c = pq_items q ! c)"
proof (induction lt i n q rule: heap_down.induct)
  case (1 lt i n q)
  let ?j = "smaller_child lt i n (pq_items q)"
  show ?case
  proof (cases "n \<le> 2 * i + 1 \<or> \<not> lt (pq_items q ! ?j) (pq_items q ! i)")
    case True
    then show ?thesis by (auto simp: heap_down.simps [of lt i n q] Let_def)
  next
    case False
    then have j: "?j < n" "i < ?j" using smaller_child_bounds by (metis not_le)+
    have "heap_down lt i n q = heap_down lt ?j n (pq_swap i ?j q)"
      using False by (simp add: heap_down.simps [of lt i n q] Let_def)
    with 1(1) [OF refl False] j 1(2,3) show ?thesis
      by (auto simp: pq_swap_nth pq_swap_coherent)
  qed
qed

lemma heap_up_above: "j < length (pq_items q) \<Longrightarrow> j < c \<Longrightarrow> pq_items (heap_up lt j q) ! c = pq_items q ! c"
proof (induction lt j q rule: heap_up.induct)
  case (1 lt j q)
  let ?i = "(j - 1) div 2"
  have i: "?i < length (pq_items q)" "?i \<le> j" using 1(2) by linarith+
  show ?case
  proof (cases "?i = j \<or> \<not> lt (pq_items q ! j) (pq_items q ! ?i)")
    case True
    then show ?thesis by (simp add: heap_up.simps [of lt j q] Let_def)
  next
    case False
    with 1(1) [OF refl False] 1(2,3) i show ?thesis
      by (simp add: heap_up.simps [of lt j q] Let_def pq_swap_nth)
  qed
qed

section \<open>Heap order\<close>

definition heap_on :: "('a \<Rightarrow> 'a \<Rightarrow> bool) \<Rightarrow> 'a list \<Rightarrow> nat \<Rightarrow> bool" where
  "heap_on lt xs n \<longleftrightarrow> (\<forall>c < n. 0 < c \<longrightarrow> \<not> lt (xs ! c) (xs ! ((c - 1) div 2)))"

text \<open>Order everywhere but at slot \<open>i\<close>, whose children are at least its parent.\<close>

definition hole :: "('a \<Rightarrow> 'a \<Rightarrow> bool) \<Rightarrow> 'a list \<Rightarrow> nat \<Rightarrow> nat \<Rightarrow> bool" where
  "hole lt xs n i \<longleftrightarrow>
     (\<forall>c < n. 0 < c \<longrightarrow> c \<noteq> i \<longrightarrow> (c - 1) div 2 \<noteq> i \<longrightarrow> \<not> lt (xs ! c) (xs ! ((c - 1) div 2)))
   \<and> (0 < i \<longrightarrow> (\<forall>c < n. c = 2 * i + 1 \<or> c = 2 * i + 2 \<longrightarrow> \<not> lt (xs ! c) (xs ! ((i - 1) div 2))))"

definition kids_ok :: "('a \<Rightarrow> 'a \<Rightarrow> bool) \<Rightarrow> 'a list \<Rightarrow> nat \<Rightarrow> nat \<Rightarrow> bool" where
  "kids_ok lt xs n i \<longleftrightarrow> (\<forall>c < n. c = 2 * i + 1 \<or> c = 2 * i + 2 \<longrightarrow> \<not> lt (xs ! c) (xs ! i))"

definition self_ok :: "('a \<Rightarrow> 'a \<Rightarrow> bool) \<Rightarrow> 'a list \<Rightarrow> nat \<Rightarrow> bool" where
  "self_ok lt xs i \<longleftrightarrow> (0 < i \<longrightarrow> \<not> lt (xs ! i) (xs ! ((i - 1) div 2)))"

lemma heap_onI: "hole lt xs n i \<Longrightarrow> kids_ok lt xs n i \<Longrightarrow> self_ok lt xs i \<Longrightarrow> heap_on lt xs n"
  unfolding heap_on_def hole_def kids_ok_def self_ok_def by (metis parent_iff)

definition pq_invar :: "('a \<Rightarrow> 'a \<Rightarrow> bool) \<Rightarrow> 'a pq \<Rightarrow> bool" where
  "pq_invar lt q \<longleftrightarrow> pq_coherent q \<and> heap_on lt (pq_items q) (length (pq_items q))"

lemma heap_down_slot: "i \<le> snd (heap_down lt i n q)"
proof (induction lt i n q rule: heap_down.induct)
  case (1 lt i n q)
  then show ?case
    using smaller_child_bounds(1) [of i lt n "pq_items q"]
    by (auto simp: heap_down.simps [of lt i n q] Let_def)
qed

lemma pop_last:
  assumes "length (pq_items q) = Suc n" "pq_coherent q" "heap_on lt (pq_items q) n"
  shows "pq_invar lt (q\<lparr>pq_items := butlast (pq_items q)\<rparr>)
       \<and> mset (butlast (pq_items q)) = mset (pq_items q) - {#pq_items q ! n#}"
proof -
  have "pq_items q = butlast (pq_items q) @ [pq_items q ! n]"
    using assms(1) by (metis append_butlast_last_id diff_Suc_1 last_conv_nth list.size(3) nat.distinct(1))
  then have "mset (pq_items q) = mset (butlast (pq_items q)) + {#pq_items q ! n#}"
    by (metis mset.simps(1) mset.simps(2) mset_append)
  moreover have "pq_invar lt (q\<lparr>pq_items := butlast (pq_items q)\<rparr>)"
    using assms by (auto simp: pq_invar_def pq_coherent_def heap_on_def nth_butlast distinct_butlast)
  ultimately show ?thesis by simp
qed

context weak_order begin

lemma lt_irrefl: "\<not> lt a a"
  using lt_asym by blast

lemma root_minimal:
  assumes "heap_on lt xs n" "c < n"
  shows "\<not> lt (xs ! c) (xs ! 0)"
  using assms(2)
proof (induction c rule: less_induct)
  case (less c)
  show ?case
  proof (cases "c = 0")
    case True
    then show ?thesis by (simp add: lt_irrefl)
  next
    case False
    then have "(c - 1) div 2 < c" by linarith
    with less have "\<not> lt (xs ! ((c - 1) div 2)) (xs ! 0)" by simp
    moreover have "\<not> lt (xs ! c) (xs ! ((c - 1) div 2))"
      using assms(1) less.prems False by (simp add: heap_on_def)
    ultimately show ?thesis using lt_negtrans by blast
  qed
qed

lemma up_step:
  fixes q :: "'a pq" and j n :: nat
  defines "i \<equiv> (j - 1) div 2"
  assumes "n \<le> length (pq_items q)" "j < n" "0 < j" "lt (pq_items q ! j) (pq_items q ! i)"
    and h: "hole lt (pq_items q) n j" and k: "kids_ok lt (pq_items q) n j"
  shows "hole lt (pq_items (pq_swap i j q)) n i \<and> kids_ok lt (pq_items (pq_swap i j q)) n i"
proof -
  let ?x = "\<lambda>c. pq_items q ! c"
  have ij: "i < j" "j = 2 * i + 1 \<or> j = 2 * i + 2" using assms(1,4) by auto
  have swap: "pq_items (pq_swap i j q) ! c = (if c = j then ?x i else if c = i then ?x j else ?x c)" for c
    using assms(2,3) ij by (intro pq_swap_nth) auto
  have par: "\<not> lt (?x i) (?x ((i - 1) div 2))" if "0 < i"
    using h that ij assms(3) by (auto simp: hole_def)
  have sib: "\<not> lt (?x c) (?x i)" if "c < n" "c = 2 * i + 1 \<or> c = 2 * i + 2" "c \<noteq> j" for c
  proof -
    have "(c - 1) div 2 = i" "0 < c" using that(2) by auto
    with h that ij show ?thesis by (auto simp: hole_def)
  qed
  have kid: "\<not> lt (?x c) (?x i)" if "c < n" "c = 2 * j + 1 \<or> c = 2 * j + 2" for c
    using h that assms(4) by (auto simp: hole_def i_def)
  have up: "\<not> lt (?x i) (?x j)" using assms(5) lt_asym by blast
  have below: "\<not> lt (pq_items (pq_swap i j q) ! c) (?x i)" if "c < n" "c = 2 * i + 1 \<or> c = 2 * i + 2" for c
    using that sib [OF that] by (auto simp: swap lt_irrefl)
  have "kids_ok lt (pq_items (pq_swap i j q)) n i"
    using below up ij lt_negtrans unfolding kids_ok_def swap [of i] by auto
  moreover have "hole lt (pq_items (pq_swap i j q)) n i"
    unfolding hole_def
  proof (intro conjI allI impI)
    fix c assume c: "c < n" "0 < c" "c \<noteq> i" "(c - 1) div 2 \<noteq> i"
    then have "c \<noteq> j" by (auto simp: i_def)
    show "\<not> lt (pq_items (pq_swap i j q) ! c) (pq_items (pq_swap i j q) ! ((c - 1) div 2))"
    proof (cases "(c - 1) div 2 = j")
      case True
      with c parent_iff have "c = 2 * j + 1 \<or> c = 2 * j + 2" by blast
      with kid c \<open>c \<noteq> j\<close> True show ?thesis by (simp add: swap)
    next
      case False
      with h c \<open>c \<noteq> j\<close> show ?thesis by (simp add: swap hole_def)
    qed
  next
    fix c assume c: "0 < i" "c < n" "c = 2 * i + 1 \<or> c = 2 * i + 2"
    then have "(i - 1) div 2 < i" by linarith
    with ij have "pq_items (pq_swap i j q) ! ((i - 1) div 2) = ?x ((i - 1) div 2)" by (simp add: swap)
    with below [OF c(2,3)] par [OF c(1)]
    show "\<not> lt (pq_items (pq_swap i j q) ! c) (pq_items (pq_swap i j q) ! ((i - 1) div 2))"
      using lt_negtrans by metis
  qed
  ultimately show ?thesis by blast
qed

lemma heap_up_order:
  "n \<le> length (pq_items q) \<Longrightarrow> j < n \<Longrightarrow> hole lt (pq_items q) n j \<Longrightarrow> kids_ok lt (pq_items q) n j \<Longrightarrow>
   heap_on lt (pq_items (heap_up lt j q)) n"
proof (induction j arbitrary: q rule: less_induct)
  case (less j)
  let ?i = "(j - 1) div 2"
  show ?case
  proof (cases "?i = j \<or> \<not> lt (pq_items q ! j) (pq_items q ! ?i)")
    case True
    then have "self_ok lt (pq_items q) j" by (auto simp: self_ok_def)
    with True less.prems show ?thesis
      by (simp add: heap_up.simps [of lt j q] Let_def heap_onI)
  next
    case False
    then have j: "0 < j" "?i < j" by auto
    then show ?thesis
      using False less.prems up_step [of n q j] less.IH [of ?i "pq_swap ?i j q"]
      by (simp add: heap_up.simps [of lt j q] Let_def)
  qed
qed

lemma down_step:
  fixes q :: "'a pq" and i n :: nat
  defines "j \<equiv> smaller_child lt i n (pq_items q)"
  assumes "n \<le> length (pq_items q)" "2 * i + 1 < n" "lt (pq_items q ! j) (pq_items q ! i)"
    and h: "hole lt (pq_items q) n i"
  shows "hole lt (pq_items (pq_swap i j q)) n j \<and> self_ok lt (pq_items (pq_swap i j q)) j"
proof -
  let ?x = "\<lambda>c. pq_items q ! c"
  have ij: "i < j" "j < n" using assms(1,3) smaller_child_bounds by metis+
  have jc: "j = 2 * i + 1 \<or> j = 2 * i + 2" by (auto simp: j_def smaller_child_def)
  have swap: "pq_items (pq_swap i j q) ! c = (if c = j then ?x i else if c = i then ?x j else ?x c)" for c
    using assms(2) ij by (intro pq_swap_nth) auto
  have parj: "(j - 1) div 2 = i" using jc by auto
  have up: "\<not> lt (?x i) (?x j)" using assms(4) lt_asym by blast
  have least: "\<not> lt (?x c) (?x j)" if "c < n" "c = 2 * i + 1 \<or> c = 2 * i + 2" for c
    using that lt_asym lt_irrefl by (auto simp: j_def smaller_child_def)
  have kidj: "\<not> lt (?x c) (?x j)" if "c < n" "c = 2 * j + 1 \<or> c = 2 * j + 2" for c
  proof -
    have "(c - 1) div 2 = j" "0 < c" "c \<noteq> i" "j \<noteq> i" using that ij by auto
    with h that show ?thesis by (auto simp: hole_def)
  qed
  have "hole lt (pq_items (pq_swap i j q)) n j"
    unfolding hole_def
  proof (intro conjI allI impI)
    fix c assume c: "c < n" "0 < c" "c \<noteq> j" "(c - 1) div 2 \<noteq> j"
    show "\<not> lt (pq_items (pq_swap i j q) ! c) (pq_items (pq_swap i j q) ! ((c - 1) div 2))"
    proof (cases "(c - 1) div 2 = i")
      case True
      with c parent_iff have "c = 2 * i + 1 \<or> c = 2 * i + 2" by blast
      with least c True show ?thesis by (auto simp: swap)
    next
      case False
      have "\<not> lt (?x j) (?x ((i - 1) div 2))" if "0 < i"
        using h that ij jc by (auto simp: hole_def)
      with h c False show ?thesis by (auto simp: swap hole_def)
    qed
  next
    fix c assume c: "0 < j" "c < n" "c = 2 * j + 1 \<or> c = 2 * j + 2"
    then have "c \<noteq> i" "c \<noteq> j" using ij by auto
    with kidj [OF c(2,3)] ij show "\<not> lt (pq_items (pq_swap i j q) ! c) (pq_items (pq_swap i j q) ! ((j - 1) div 2))"
      unfolding parj by (simp add: swap)
  qed
  moreover have "self_ok lt (pq_items (pq_swap i j q)) j"
    using up ij unfolding self_ok_def parj by (simp add: swap)
  ultimately show ?thesis by blast
qed

lemma kids_ok_if_smaller_child:
  "n \<le> 2 * i + 1 \<or> \<not> lt (xs ! smaller_child lt i n xs) (xs ! i) \<Longrightarrow> kids_ok lt xs n i"
  unfolding kids_ok_def smaller_child_def
  by (smt (verit) Suc_eq_plus1 add_2_eq_Suc' lt_asym lt_negtrans not_less_eq_eq nat_less_le not_le)

lemma hole_after_swap:
  assumes "pq_invar lt q" "i < length (pq_items q) - 1"
  shows "hole lt (pq_items (pq_swap i (length (pq_items q) - 1) q)) (length (pq_items q) - 1) i"
proof -
  let ?n = "length (pq_items q) - 1" and ?x = "\<lambda>c. pq_items q ! c"
  have x: "pq_items (pq_swap i ?n q) ! c = ?x c" if "c < ?n" "c \<noteq> i" for c
    using that assms(2) by (subst pq_swap_nth) auto
  have ok: "\<not> lt (?x c) (?x ((c - 1) div 2))" if "c < ?n" "0 < c" for c
    using assms(1) that by (simp add: pq_invar_def heap_on_def)
  show ?thesis
    unfolding hole_def
  proof (intro conjI allI impI)
    fix c assume c: "c < ?n" "0 < c" "c \<noteq> i" "(c - 1) div 2 \<noteq> i"
    then have "(c - 1) div 2 < ?n" by linarith
    with c x [of c] x [of "(c - 1) div 2"] ok
    show "\<not> lt (pq_items (pq_swap i ?n q) ! c) (pq_items (pq_swap i ?n q) ! ((c - 1) div 2))" by simp
  next
    fix c assume c: "0 < i" "c < ?n" "c = 2 * i + 1 \<or> c = 2 * i + 2"
    then have "(c - 1) div 2 = i" by auto
    with ok [of c] ok [of i] c assms(2) lt_negtrans have "\<not> lt (?x c) (?x ((i - 1) div 2))" by auto
    moreover have "(i - 1) div 2 < ?n" "(i - 1) div 2 \<noteq> i" "c \<noteq> i" using c assms(2) by auto
    ultimately show "\<not> lt (pq_items (pq_swap i ?n q) ! c) (pq_items (pq_swap i ?n q) ! ((i - 1) div 2))"
      using x c(2) by simp
  qed
qed

lemma heap_down_order:
  "n \<le> length (pq_items q) \<Longrightarrow> i < n \<Longrightarrow> hole lt (pq_items q) n i \<Longrightarrow> self_ok lt (pq_items q) i \<Longrightarrow>
   heap_on lt (pq_items (fst (heap_down lt i n q))) n"
proof (induction "n - i" arbitrary: i q rule: less_induct)
  case less
  let ?j = "smaller_child lt i n (pq_items q)"
  show ?case
  proof (cases "n \<le> 2 * i + 1 \<or> \<not> lt (pq_items q ! ?j) (pq_items q ! i)")
    case True
    with less.prems kids_ok_if_smaller_child show ?thesis
      by (simp add: heap_down.simps [of lt i n q] Let_def heap_onI)
  next
    case False
    then have "?j < n" "i < ?j" using smaller_child_bounds by (metis not_le)+
    with False less.prems down_step [of n q i] less.hyps [of ?j "pq_swap i ?j q"] show ?thesis
      by (simp add: heap_down.simps [of lt i n q] Let_def)
  qed
qed

lemma heap_down_first:
  assumes "n \<le> length (pq_items q)" "i < n" "hole lt (pq_items q) n i"
    and d: "heap_down lt i n q = (q', i')"
  shows "(i' = i \<and> q' = q \<and> kids_ok lt (pq_items q) n i) \<or> (i < i' \<and> heap_on lt (pq_items q') n)"
proof (cases "n \<le> 2 * i + 1 \<or> \<not> lt (pq_items q ! smaller_child lt i n (pq_items q)) (pq_items q ! i)")
  case True
  with d kids_ok_if_smaller_child show ?thesis
    by (auto simp: heap_down.simps [of lt i n q] Let_def)
next
  case False
  let ?j = "smaller_child lt i n (pq_items q)"
  from False have j: "?j < n" "i < ?j" using smaller_child_bounds by (metis not_le)+
  from False d have d': "heap_down lt ?j n (pq_swap i ?j q) = (q', i')"
    by (simp add: heap_down.simps [of lt i n q] Let_def)
  with j False assms down_step [of n q i] heap_down_order [of n "pq_swap i ?j q" ?j]
  have "heap_on lt (pq_items q') n" by simp
  moreover have "?j \<le> i'" using heap_down_slot [of ?j lt n "pq_swap i ?j q"] d' by simp
  ultimately show ?thesis using j by simp
qed

text \<open>Removing the element at slot \<open>i\<close>: the last element takes its place and is sifted down, or,
  when it did not move, up.\<close>

lemma heap_remove_invar:
  assumes q: "pq_invar lt q" and i: "i < length (pq_items q)"
  shows "pq_invar lt (heap_remove lt i q)
       \<and> mset (pq_items (heap_remove lt i q)) = mset (pq_items q) - {#pq_items q ! i#}"
proof -
  let ?n = "length (pq_items q) - 1"
  define q1 where "q1 = (if ?n = i then q
     else case heap_down lt i ?n (pq_swap i ?n q) of (q2, i') \<Rightarrow> if i < i' then q2 else heap_up lt i q2)"
  have r: "heap_remove lt i q = q1\<lparr>pq_items := butlast (pq_items q1)\<rparr>"
    by (simp add: heap_remove_def q1_def Let_def)
  have main: "mset (pq_items q1) = mset (pq_items q) \<and> pq_coherent q1 \<and> heap_on lt (pq_items q1) ?n
      \<and> pq_items q1 ! ?n = pq_items q ! i"
  proof (cases "?n = i")
    case True
    with q i show ?thesis by (auto simp: q1_def pq_invar_def heap_on_def)
  next
    case False
    with i have n: "i < ?n" "?n < length (pq_items q)" by auto
    let ?s = "pq_swap i ?n q"
    obtain q2 i' where d: "heap_down lt i ?n ?s = (q2, i')" by fastforce
    have s: "pq_coherent ?s" "mset (pq_items ?s) = mset (pq_items q)" "pq_items ?s ! ?n = pq_items q ! i"
      using q n by (auto simp: pq_invar_def pq_swap_coherent pq_swap_nth)
    have h: "hole lt (pq_items ?s) ?n i" using hole_after_swap q n by simp
    have p: "mset (pq_items q2) = mset (pq_items q)" "pq_coherent q2" "pq_items q2 ! ?n = pq_items q ! i"
      using heap_down_perm [of ?n ?s i lt] n s d by auto
    then have l: "length (pq_items q2) = length (pq_items q)" by (metis size_mset)
    from heap_down_first [OF _ _ h d] n
    consider "i' = i" "q2 = ?s" "kids_ok lt (pq_items ?s) ?n i" | "i < i'" "heap_on lt (pq_items q2) ?n" by auto
    then show ?thesis
    proof cases
      case 1
      then have "q1 = heap_up lt i q2" using False d by (simp add: q1_def)
      with 1 h l n p heap_up_order [of ?n q2 i] heap_up_perm [of i q2 lt] heap_up_above [of i q2 ?n lt]
      show ?thesis by simp
    next
      case 2
      then have "q1 = q2" using False d by (simp add: q1_def)
      with 2 p show ?thesis by simp
    qed
  qed
  then have l: "length (pq_items q1) = Suc ?n" using i by (metis Suc_pred' gr_implies_not0 neq0_conv size_mset)
  show ?thesis
    unfolding r using main l pop_last [of q1 ?n lt] by simp
qed

lemma pq_push_invar:
  assumes q: "pq_invar lt q" and x: "x \<notin> pq_elems q"
  shows "pq_invar lt (pq_push lt x q) \<and> mset (pq_items (pq_push lt x q)) = add_mset x (mset (pq_items q))"
proof -
  let ?n = "length (pq_items q)"
  let ?q = "\<lparr>pq_items = pq_items q @ [x], pq_index = (pq_index q)(x := ?n)\<rparr>"
  have c: "pq_coherent ?q"
    using q x by (auto simp: pq_invar_def pq_coherent_def pq_elems_def nth_append less_Suc_eq nth_mem)
  have "hole lt (pq_items ?q) (Suc ?n) ?n"
    using q by (auto simp: hole_def pq_invar_def heap_on_def nth_append)
  moreover have "kids_ok lt (pq_items ?q) (Suc ?n) ?n" by (auto simp: kids_ok_def)
  ultimately have "heap_on lt (pq_items (heap_up lt ?n ?q)) (Suc ?n)" by (intro heap_up_order) auto
  moreover have p: "mset (pq_items (heap_up lt ?n ?q)) = mset (pq_items ?q)" "pq_coherent (heap_up lt ?n ?q)"
    using heap_up_perm [of ?n ?q lt] c by auto
  moreover have "length (pq_items (heap_up lt ?n ?q)) = Suc ?n"
    using p(1) by (metis length_append_singleton pq.select_convs(1) size_mset)
  ultimately show ?thesis by (simp add: pq_push_def Let_def pq_invar_def)
qed

lemma pq_remove_invar:
  assumes q: "pq_invar lt q" and x: "x \<in> pq_elems q"
  shows "pq_invar lt (pq_remove lt x q) \<and> pq_elems (pq_remove lt x q) = pq_elems q - {x}"
proof -
  obtain i where i: "i < length (pq_items q)" "pq_items q ! i = x"
    using x by (auto simp: pq_elems_def in_set_conv_nth)
  with q have "pq_index q x = i" by (auto simp: pq_invar_def pq_coherent_def)
  moreover have "distinct (pq_items q)" using q by (simp add: pq_invar_def pq_coherent_def)
  then have "set_mset (mset (pq_items q) - {#x#}) = set (pq_items q) - {x}"
    by (metis mset_remove1 set_mset_mset set_remove1_eq)
  ultimately show ?thesis
    using heap_remove_invar [OF q i(1)] i(2) by (metis pq_elems_def pq_remove_def set_mset_mset)
qed

end

text \<open>The heap implements the interface, for every strict weak order.\<close>

sublocale weak_order \<subseteq> heap: expiry_queue lt pq_empty "pq_push lt" "pq_remove lt" pq_peek pq_elems "pq_invar lt"
proof (unfold_locales, goal_cases)
  case 1
  show ?case by (simp add: pq_invar_def pq_empty_def pq_coherent_def heap_on_def)
next
  case 2
  show ?case by (simp add: pq_elems_def pq_empty_def)
next
  case (3 q x)
  then show ?case by (simp add: pq_push_invar)
next
  case (4 q x)
  then show ?case using pq_push_invar [of q x] by (metis pq_elems_def set_mset_add_mset_insert set_mset_mset)
next
  case (5 q x)
  then show ?case by (simp add: pq_remove_invar)
next
  case (6 q x)
  then show ?case by (simp add: pq_remove_invar)
next
  case (7 q)
  then show ?case by (simp add: pq_elems_def pq_peek_def)
next
  case (8 q x)
  then show ?case
    by (metis in_set_conv_nth pq_elems_def pq_invar_def pq_peek_def root_minimal)
qed

section \<open>Sizes\<close>

lemma heap_up_length [simp]: "length (pq_items (heap_up lt j q)) = length (pq_items q)"
proof (induction lt j q rule: heap_up.induct)
  case (1 lt j q)
  then show ?case by (simp add: heap_up.simps [of lt j q] Let_def)
qed

lemma heap_down_length: "heap_down lt i n q = (q', i') \<Longrightarrow> length (pq_items q') = length (pq_items q)"
proof (induction lt i n q arbitrary: q' i' rule: heap_down.induct)
  case (1 lt i n q)
  then show ?case by (fastforce simp: heap_down.simps [of lt i n q] Let_def split: if_splits)
qed

text \<open>Removal shortens the queue by one whatever the state, so the expiry loops end.\<close>

lemma pq_remove_length [simp]: "length (pq_items (pq_remove lt x q)) = length (pq_items q) - 1"
  by (auto simp: pq_remove_def heap_remove_def Let_def split: prod.splits dest: heap_down_length)

lemma pq_coherent_length: "pq_invar lt q \<Longrightarrow> card (pq_elems q) = length (pq_items q)"
  by (simp add: pq_invar_def pq_coherent_def pq_elems_def distinct_card)

lemma pq_elems_empty_iff: "pq_elems q = {} \<longleftrightarrow> pq_items q = []"
  by (simp add: pq_elems_def)

end
