(* ===== verification/Framing.thy ===== *)
theory Framing
  imports Expiry_Heap
begin

text \<open>
  The framing layer of \<open>internal/bind/framing.go\<close>: a WireGuard datagram is cut into WGQ1 frames,
  each frame carries a 21-byte header, and the receiver reassembles datagrams per session and packet
  identifier under a bound on the number of incomplete datagrams and on their age.
  \<open>reassembler\<close> is the Go struct (its mutex apart: every method holds it for its whole
  body, so the methods are the atomic steps).  Pooled receive buffers are values here, so
  \<open>acquireReassemblyBuffer\<close> is the identity and the \<open>owned\<close> flag of \<open>add\<close>, which only
  decides whether the bytes are copied, is left out.
\<close>

section \<open>Frames\<close>

definition frameHeaderSize :: nat where
  "frameHeaderSize = 21"

definition maxFragmentData :: nat where
  "maxFragmentData = 4075"

definition maxFragments :: nat where
  "maxFragments = 128"

definition maxDatagramSize :: nat where
  "maxDatagramSize = 65535"

definition reassemblyTTL :: duration where
  "reassemblyTTL = 3 * second"

definition maxReassemblies :: nat where
  "maxReassemblies = 2048"

lemmas frame_consts = frameHeaderSize_def maxFragmentData_def maxFragments_def maxDatagramSize_def
  maxReassemblies_def

definition frameMagic :: bytes where
  "frameMagic = [0x57, 0x47, 0x51, 0x31]"

record fragment =
  packetID :: u64
  fragIndex :: u16
  fragCount :: u16
  fragTotal :: u32
  fragData :: bytes

datatype frame_error =
    InvalidDatagramSize nat
  | InvalidFragmentSize int
  | TooManyFragments nat
  | InvalidPreparedSize int
  | FrameTooShort
  | BadMagicOrVersion
  | BadIndexOrCount
  | BadTotal
  | FragmentTooLarge

definition writeFragmentHeader :: "bytes \<Rightarrow> u64 \<Rightarrow> u16 \<Rightarrow> u16 \<Rightarrow> u32 \<Rightarrow> bytes" where
  "writeFragmentHeader frame packet_id idx cnt tot =
     frameMagic @ [1] @ put64 packet_id @ put16 idx @ put16 cnt @ put32 tot
     @ drop frameHeaderSize frame"

text \<open>The loop of \<open>fragmentPacketSized\<close>, from fragment \<open>i\<close> at offset \<open>off\<close>.  The function is
  entered with a positive fragment size only; the first test makes it total.\<close>

function fragment_loop :: "bytes \<Rightarrow> u64 \<Rightarrow> nat \<Rightarrow> nat \<Rightarrow> nat \<Rightarrow> nat \<Rightarrow> bytes list" where
  "fragment_loop packet packet_id fragmentData cnt i off =
     (if fragmentData = 0 \<or> length packet \<le> off then []
      else let stop = min (off + fragmentData) (length packet);
               frame = replicate (frameHeaderSize + stop - off) 0;
               frame = writeFragmentHeader frame packet_id (of_nat i) (of_nat cnt) (of_nat (length packet));
               frame = take frameHeaderSize frame @ subslice off stop packet
           in frame # fragment_loop packet packet_id fragmentData cnt (Suc i) (off + fragmentData))"
  by pat_completeness auto
termination
  by (relation "measure (\<lambda>(packet, packet_id, fragmentData, cnt, i, off). length packet - off)") auto

declare fragment_loop.simps [simp del]

definition fragmentPacketSized :: "bytes \<Rightarrow> u64 \<Rightarrow> int \<Rightarrow> frame_error + bytes list" where
  "fragmentPacketSized packet packet_id fragmentData =
     (if packet = [] \<or> length packet > maxDatagramSize then Inl (InvalidDatagramSize (length packet))
      else if fragmentData \<le> 0 \<or> fragmentData > int maxFragmentData
      then Inl (InvalidFragmentSize fragmentData)
      else let fd = nat fragmentData; cnt = (length packet + fd - 1) div fd
           in if cnt > maxFragments then Inl (TooManyFragments cnt)
              else Inr (fragment_loop packet packet_id fd cnt 0 0))"

definition fragmentPacket :: "bytes \<Rightarrow> u64 \<Rightarrow> frame_error + bytes list" where
  "fragmentPacket packet packet_id = fragmentPacketSized packet packet_id (int maxFragmentData)"

definition framePreparedPacket :: "bytes \<Rightarrow> u64 \<Rightarrow> frame_error + bytes" where
  "framePreparedPacket frame packet_id =
     (let payloadLen = int (length frame) - int frameHeaderSize
      in if payloadLen \<le> 0 \<or> payloadLen > int maxDatagramSize then Inl (InvalidPreparedSize payloadLen)
         else Inr (writeFragmentHeader frame packet_id 0 1 (of_int payloadLen)))"

definition priorityWireGuardDatagram :: "bytes \<Rightarrow> bool" where
  "priorityWireGuardDatagram packet =
     (if length packet < 4 then False
      else if le_get32 (take 4 packet) \<noteq> 4 then False
      else length packet = 32)"

definition controlWireGuardDatagram :: "bytes \<Rightarrow> bool" where
  "controlWireGuardDatagram packet =
     (if length packet < 4 then False
      else let t = le_get32 (take 4 packet)
           in if t = 1 then length packet = 148
              else if t = 2 then length packet = 92
              else if t = 3 then length packet = 64
              else priorityWireGuardDatagram packet)"

definition parseFragment :: "bytes \<Rightarrow> frame_error + fragment" where
  "parseFragment frame =
     (if length frame \<le> frameHeaderSize then Inl FrameTooShort
      else if subslice 0 4 frame \<noteq> frameMagic \<or> frame ! 4 \<noteq> 1 then Inl BadMagicOrVersion
      else let f = \<lparr>packetID = get64 (subslice 5 13 frame), fragIndex = get16 (subslice 13 15 frame),
                    fragCount = get16 (subslice 15 17 frame), fragTotal = get32 (subslice 17 21 frame),
                    fragData = drop frameHeaderSize frame\<rparr>
           in if fragCount f = 0 \<or> unat (fragCount f) > maxFragments \<or> fragIndex f \<ge> fragCount f
              then Inl BadIndexOrCount
              else if fragTotal f = 0 \<or> unat (fragTotal f) > maxDatagramSize then Inl BadTotal
              else if length (fragData f) > maxFragmentData then Inl FragmentTooLarge
              else Inr f)"

section \<open>Reassembly\<close>

type_synonym reassemblyKey = "u64 \<times> u64"

record reassembly =
  rCreated :: instant
  rTotal :: u32
  rCount :: u16
  rSeen :: nat
  rBytes :: nat
  rShards :: "bytes option list"

record reassembler =
  rGroups :: "(reassemblyKey \<times> reassembly) list"
  rExpiry :: "(instant \<times> reassemblyKey) pq"

datatype reasm_error =
    SingleFragmentLengthMismatch
  | TooManyIncompleteDatagrams
  | InconsistentMetadata
  | PayloadExceedsTotal
  | ReassembledLengthMismatch
  | IndexOutOfRange

definition newReassembler :: reassembler where
  "newReassembler = \<lparr>rGroups = [], rExpiry = pq_empty\<rparr>"

text \<open>The \<open>Less\<close> method of \<open>reassemblyExpiry\<close>; the element of the queue is the pair of the two
  fields of a group that never change, its creation time and its key.\<close>

definition reassembly_less :: "instant \<times> reassemblyKey \<Rightarrow> instant \<times> reassemblyKey \<Rightarrow> bool" where
  "reassembly_less a b \<longleftrightarrow> fst a < fst b"

definition removeLocked :: "instant \<times> reassemblyKey \<Rightarrow> reassembler \<Rightarrow> reassembler" where
  "removeLocked e r =
     \<lparr>rGroups = AList.delete (snd e) (rGroups r), rExpiry = pq_remove reassembly_less e (rExpiry r)\<rparr>"

function expireLocked :: "instant \<Rightarrow> reassembler \<Rightarrow> reassembler" where
  "expireLocked now r =
     (if pq_items (rExpiry r) \<noteq> [] \<and> now - fst (pq_peek (rExpiry r)) > reassemblyTTL
      then expireLocked now (removeLocked (pq_peek (rExpiry r)) r)
      else r)"
  by pat_completeness auto
termination
  by (relation "measure (\<lambda>(now, r). length (pq_items (rExpiry r)))")
    (auto simp: removeLocked_def)

declare expireLocked.simps [simp del]

text \<open>Storing \<open>append([]byte(nil), data...)\<close> leaves the slot nil when the data is empty.\<close>

definition store_shard :: "bytes \<Rightarrow> bytes option" where
  "store_shard data = (if data = [] then None else Some data)"

text \<open>The part of \<open>add\<close> after the group was looked up or created.\<close>

definition add_to_group ::
  "reassemblyKey \<Rightarrow> fragment \<Rightarrow> reassembly \<Rightarrow> reassembler \<Rightarrow> reassembler \<times> (reasm_error + bytes option)" where
  "add_to_group key f g r =
     (if rTotal g \<noteq> fragTotal f \<or> rCount g \<noteq> fragCount f
      then (removeLocked (rCreated g, key) r, Inl InconsistentMetadata)
      else if length (rShards g) \<le> unat (fragIndex f) then (r, Inl IndexOutOfRange)
      else if rShards g ! unat (fragIndex f) = None
           \<and> int (rBytes g) + int (length (fragData f)) + int (unat (rCount g)) - int (rSeen g) - 1
             > int (unat (rTotal g))
      then (removeLocked (rCreated g, key) r, Inl PayloadExceedsTotal)
      else let g' = (if rShards g ! unat (fragIndex f) = None
                     then g\<lparr>rShards := (rShards g)[unat (fragIndex f) := store_shard (fragData f)],
                            rSeen := rSeen g + 1, rBytes := rBytes g + length (fragData f)\<rparr>
                     else g)
           in if rSeen g' \<noteq> unat (rCount g')
              then (r\<lparr>rGroups := AList.update key g' (rGroups r)\<rparr>, Inr None)
              else let r' = removeLocked (rCreated g', key) r
                   in if rBytes g' \<noteq> unat (rTotal g') then (r', Inl ReassembledLengthMismatch)
                      else (r', Inr (Some (concat (map (\<lambda>s. case s of None \<Rightarrow> [] | Some d \<Rightarrow> d) (rShards g'))))))"

definition reassembler_add ::
  "instant \<Rightarrow> u64 \<Rightarrow> fragment \<Rightarrow> reassembler \<Rightarrow> reassembler \<times> (reasm_error + bytes option)" where
  "reassembler_add now sessionID f r =
     (if fragCount f = 1
      then (if length (fragData f) \<noteq> unat (fragTotal f) then (r, Inl SingleFragmentLengthMismatch)
            else (r, Inr (Some (fragData f))))
      else let r = expireLocked now r; key = (sessionID, packetID f)
           in case map_of (rGroups r) key of
                Some g \<Rightarrow> add_to_group key f g r
              | None \<Rightarrow>
                  if length (rGroups r) \<ge> maxReassemblies then (r, Inl TooManyIncompleteDatagrams)
                  else let g = \<lparr>rCreated = now, rTotal = fragTotal f, rCount = fragCount f, rSeen = 0,
                                rBytes = 0, rShards = replicate (unat (fragCount f)) None\<rparr>
                       in add_to_group key f g
                            \<lparr>rGroups = AList.update key g (rGroups r),
                             rExpiry = pq_push reassembly_less (now, key) (rExpiry r)\<rparr>)"

definition reassembler_expire :: "instant \<Rightarrow> reassembler \<Rightarrow> reassembler" where
  "reassembler_expire now r = expireLocked now r"

text \<open>\<open>discardSession\<close> ranges over the map it deletes from, which Go allows: every entry present at
  the start is visited once.\<close>

definition discardSession :: "u64 \<Rightarrow> reassembler \<Rightarrow> reassembler" where
  "discardSession sessionID r =
     foldl (\<lambda>r' (key, g). if fst key = sessionID then removeLocked (rCreated g, key) r' else r')
       r (rGroups r)"

text \<open>What \<open>session.deliverFrame\<close> hands on: the datagram a frame completes, if it does.\<close>

definition deliverFrame :: "instant \<Rightarrow> u64 \<Rightarrow> bytes \<Rightarrow> reassembler \<Rightarrow> reassembler \<times> bytes option" where
  "deliverFrame now sid frame r =
     (case parseFragment frame of
        Inl _ \<Rightarrow> (r, None)
      | Inr frag \<Rightarrow> (case reassembler_add now sid frag r of
                      (r', Inl _) \<Rightarrow> (r', None)
                    | (r', Inr packet) \<Rightarrow> (r', packet)))"

fun deliverFrames :: "(instant \<times> u64 \<times> bytes) list \<Rightarrow> reassembler \<Rightarrow> reassembler \<times> bytes option list" where
  "deliverFrames [] r = (r, [])"
| "deliverFrames ((now, sid, frame) # es) r =
     (let (r', out) = deliverFrame now sid frame r; (r'', outs) = deliverFrames es r'
      in (r'', out # outs))"

section \<open>Frames are parsed back\<close>

text \<open>What \<open>parseFragment\<close> guarantees of the fragments it returns.\<close>

definition frag_ok :: "fragment \<Rightarrow> bool" where
  "frag_ok f \<longleftrightarrow> 0 < unat (fragCount f) \<and> unat (fragCount f) \<le> maxFragments \<and> fragIndex f < fragCount f
     \<and> 0 < unat (fragTotal f) \<and> unat (fragTotal f) \<le> maxDatagramSize
     \<and> 0 < length (fragData f) \<and> length (fragData f) \<le> maxFragmentData"

definition encodeFragment :: "fragment \<Rightarrow> bytes" where
  "encodeFragment f =
     frameMagic @ [1] @ put64 (packetID f) @ put16 (fragIndex f) @ put16 (fragCount f)
     @ put32 (fragTotal f) @ fragData f"

lemma length_frameMagic [simp]: "length frameMagic = 4"
  by (simp add: frameMagic_def)

lemma length_writeFragmentHeader [simp]:
  "length (writeFragmentHeader fr a b c d) = frameHeaderSize + (length fr - frameHeaderSize)"
  by (simp add: writeFragmentHeader_def frameHeaderSize_def)

lemma written_header:
  "take frameHeaderSize (writeFragmentHeader fr a b c d) @ data =
     encodeFragment \<lparr>packetID = a, fragIndex = b, fragCount = c, fragTotal = d, fragData = data\<rparr>"
  by (simp add: writeFragmentHeader_def encodeFragment_def frameHeaderSize_def)

lemma encode_slices:
  "subslice 0 4 (encodeFragment f) = frameMagic" "encodeFragment f ! 4 = 1"
  "subslice 5 13 (encodeFragment f) = put64 (packetID f)"
  "subslice 13 15 (encodeFragment f) = put16 (fragIndex f)"
  "subslice 15 17 (encodeFragment f) = put16 (fragCount f)"
  "subslice 17 21 (encodeFragment f) = put32 (fragTotal f)"
  "drop frameHeaderSize (encodeFragment f) = fragData f"
  "length (encodeFragment f) = frameHeaderSize + length (fragData f)"
  by (simp_all add: encodeFragment_def subslice_def nth_append frameHeaderSize_def)

lemma parse_encodeFragment: "frag_ok f \<Longrightarrow> parseFragment (encodeFragment f) = Inr f"
  by (auto simp: parseFragment_def encode_slices Let_def frag_ok_def unat_gt_0 not_less)

lemma parse_frag_ok: "parseFragment frame = Inr f \<Longrightarrow> frag_ok f"
  by (auto simp: parseFragment_def Let_def frag_ok_def frameHeaderSize_def not_le unat_gt_0
      split: if_splits)

lemma slice_join: "a \<le> b \<Longrightarrow> b \<le> c \<Longrightarrow> subslice a b xs @ subslice b c xs = subslice a c xs"
proof -
  assume "a \<le> b" "b \<le> c"
  then have "take (c - a) (drop a xs) = take (b - a) (drop a xs) @ take (c - b) (drop (b - a) (drop a xs))"
    by (metis Nat.add_diff_assoc2 add.commute le_add_diff_inverse take_add)
  with \<open>a \<le> b\<close> show ?thesis by (simp add: subslice_def)
qed

lemma parse_only_encodings: "parseFragment frame = Inr f \<Longrightarrow> frame = encodeFragment f"
proof -
  assume p: "parseFragment frame = Inr f"
  then have l: "frameHeaderSize < length frame" and m: "subslice 0 4 frame = frameMagic" "frame ! 4 = 1"
    and f: "f = \<lparr>packetID = get64 (subslice 5 13 frame), fragIndex = get16 (subslice 13 15 frame),
       fragCount = get16 (subslice 15 17 frame), fragTotal = get32 (subslice 17 21 frame),
       fragData = drop frameHeaderSize frame\<rparr>"
    by (auto simp: parseFragment_def Let_def split: if_splits)
  have s: "subslice 4 5 frame = [1]" using l m(2)
    by (simp add: subslice_def frameHeaderSize_def take_Suc_conv_app_nth [of 0] hd_drop_conv_nth take_Suc)
  have "encodeFragment f = subslice 0 4 frame @ subslice 4 5 frame @ subslice 5 13 frame @ subslice 13 15 frame
      @ subslice 15 17 frame @ subslice 17 21 frame @ drop 21 frame"
    using l by (simp add: encodeFragment_def f m s frameHeaderSize_def)
  also have "\<dots> = subslice 0 21 frame @ drop 21 frame"
    using slice_join [of 0 4 5 frame] slice_join [of 0 5 13 frame] slice_join [of 0 13 15 frame]
      slice_join [of 0 15 17 frame] slice_join [of 0 17 21 frame]
    by (simp add: append_assoc [symmetric] del: append_assoc)
  also have "\<dots> = frame" by (simp add: subslice_def)
  finally show ?thesis by simp
qed

section \<open>Fragmentation cuts the datagram into consecutive chunks\<close>

function chunks :: "nat \<Rightarrow> 'a list \<Rightarrow> 'a list list" where
  "chunks n xs = (if n = 0 \<or> xs = [] then [] else take n xs # chunks n (drop n xs))"
  by pat_completeness auto
termination
  by (relation "measure (\<lambda>(n, xs). length xs)") auto

declare chunks.simps [simp del]

lemma chunks_Nil [simp]: "chunks n [] = []"
  by (simp add: chunks.simps)

lemma concat_chunks: "0 < n \<Longrightarrow> concat (chunks n xs) = xs"
proof (induction n xs rule: chunks.induct)
  case (1 n xs)
  then show ?case by (auto simp: chunks.simps [of n xs])
qed

lemma length_chunks: "0 < n \<Longrightarrow> length (chunks n xs) = (length xs + n - 1) div n"
proof (induction n xs rule: chunks.induct)
  case (1 n xs)
  show ?case
  proof (cases "xs = []")
    case True
    with 1(2) show ?thesis by simp
  next
    case False
    then have "length (chunks n xs) = Suc ((length xs - n + n - 1) div n)"
      using 1 by (simp add: chunks.simps [of n xs])
    also have "\<dots> = Suc ((length xs - 1) div n)"
      using False 1(2) by (cases "length xs \<le> n") auto
    also have "\<dots> = (length xs - 1 + n) div n" using 1(2) by (simp add: div_add_self2)
    also have "length xs - 1 + n = length xs + n - 1" using False by (cases xs) auto
    finally show ?thesis .
  qed
qed

lemma chunk_sizes: "0 < n \<Longrightarrow> c \<in> set (chunks n xs) \<Longrightarrow> 0 < length c \<and> length c \<le> n"
proof (induction n xs rule: chunks.induct)
  case (1 n xs)
  then show ?case by (auto simp: chunks.simps [of n xs] split: if_splits)
qed

text \<open>The fragments of a datagram, from their chunks.\<close>

definition fragments_from :: "u64 \<Rightarrow> nat \<Rightarrow> nat \<Rightarrow> nat \<Rightarrow> bytes list \<Rightarrow> fragment list" where
  "fragments_from packet_id cnt tot i cs =
     map (\<lambda>(j, c). \<lparr>packetID = packet_id, fragIndex = of_nat j, fragCount = of_nat cnt,
                    fragTotal = of_nat tot, fragData = c\<rparr>) (enumerate i cs)"

lemma fragment_loop_chunks:
  "0 < fd \<Longrightarrow> fragment_loop packet packet_id fd cnt i off =
     map encodeFragment (fragments_from packet_id cnt (length packet) i (chunks fd (drop off packet)))"
proof (induction packet packet_id fd cnt i off rule: fragment_loop.induct)
  case (1 packet packet_id fd cnt i off)
  show ?case
  proof (cases "length packet \<le> off")
    case True
    then show ?thesis by (simp add: fragment_loop.simps fragments_from_def)
  next
    case False
    have s: "subslice off (min (off + fd) (length packet)) packet = take fd (drop off packet)"
      by (simp add: subslice_def min_def)
    have c: "chunks fd (drop off packet) = take fd (drop off packet) # chunks fd (drop (off + fd) packet)"
      using False 1(2) by (simp add: chunks.simps [of fd "drop off packet"] add.commute)
    show ?thesis
      using False 1 by (simp add: fragment_loop.simps [of packet packet_id fd cnt i off] Let_def
          written_header s c fragments_from_def)
  qed
qed

lemma fragmentPacketSized_Inr:
  assumes "fragmentPacketSized packet packet_id n = Inr frames"
  shows "0 < n" "n \<le> 4075" "packet \<noteq> []" "length packet \<le> 65535"
    and "length (chunks (nat n) packet) \<le> 128"
    and "frames = map encodeFragment (fragments_from packet_id (length (chunks (nat n) packet))
           (length packet) 0 (chunks (nat n) packet))"
  using assms
  by (auto simp: fragmentPacketSized_def Let_def frame_consts length_chunks fragment_loop_chunks
      split: if_splits)

lemma fragments_from_ok:
  assumes "0 < n" "n \<le> 4075" "packet \<noteq> []" "length packet \<le> 65535" "length (chunks n packet) \<le> 128"
    and "f \<in> set (fragments_from packet_id (length (chunks n packet)) (length packet) 0 (chunks n packet))"
  shows "frag_ok f"
proof -
  from assms(6) obtain j c where j: "(j, c) \<in> set (enumerate 0 (chunks n packet))"
    and f: "f = \<lparr>packetID = packet_id, fragIndex = of_nat j, fragCount = of_nat (length (chunks n packet)),
       fragTotal = of_nat (length packet), fragData = c\<rparr>"
    by (auto simp: fragments_from_def)
  from j have jn: "j < length (chunks n packet)" and c: "c \<in> set (chunks n packet)"
    by (auto simp: enumerate_eq_zip set_zip in_set_conv_nth)
  moreover have "unat (of_nat j :: u16) = j" "unat (of_nat (length (chunks n packet)) :: u16) = length (chunks n packet)"
    "unat (of_nat (length packet) :: u32) = length packet"
    using jn assms by (simp_all add: unat_of_nat)
  moreover have "0 < length c \<and> length c \<le> n" using chunk_sizes c assms(1) by blast
  ultimately show ?thesis using assms by (auto simp: frag_ok_def f frame_consts word_less_nat_alt)
qed

section \<open>The reassembler's invariant\<close>

interpretation rq: weak_order reassembly_less
  by unfold_locales (auto simp: reassembly_less_def)

definition shard_bytes :: "bytes option list \<Rightarrow> nat" where
  "shard_bytes ss = sum_list (map (\<lambda>s. case s of None \<Rightarrow> 0 | Some d \<Rightarrow> length d) ss)"

definition shards_present :: "bytes option list \<Rightarrow> nat" where
  "shards_present ss = length (filter (\<lambda>s. s \<noteq> None) ss)"

definition group_ok :: "reassembly \<Rightarrow> bool" where
  "group_ok g \<longleftrightarrow> length (rShards g) = unat (rCount g) \<and> unat (rCount g) \<le> maxFragments
     \<and> rSeen g = shards_present (rShards g) \<and> rSeen g < unat (rCount g)
     \<and> rBytes g = shard_bytes (rShards g) \<and> Some [] \<notin> set (rShards g)
     \<and> unat (rTotal g) \<le> maxDatagramSize
     \<and> (0 < rSeen g \<longrightarrow> rBytes g + unat (rCount g) - rSeen g \<le> unat (rTotal g))"

definition queue_of :: "(reassemblyKey \<times> reassembly) list \<Rightarrow> (instant \<times> reassemblyKey) set" where
  "queue_of gs = {(c, k). \<exists>g. map_of gs k = Some g \<and> rCreated g = c}"

definition reasm_ok :: "reassembler \<Rightarrow> bool" where
  "reasm_ok r \<longleftrightarrow> gomap_ok (rGroups r) \<and> pq_invar reassembly_less (rExpiry r)
     \<and> pq_elems (rExpiry r) = queue_of (rGroups r)
     \<and> length (rGroups r) \<le> maxReassemblies \<and> (\<forall>k g. map_of (rGroups r) k = Some g \<longrightarrow> group_ok g)"

lemma reasm_okD:
  assumes "reasm_ok r"
  shows "gomap_ok (rGroups r)" "pq_invar reassembly_less (rExpiry r)"
    "pq_elems (rExpiry r) = queue_of (rGroups r)" "length (rGroups r) \<le> maxReassemblies"
    "map_of (rGroups r) k = Some g \<Longrightarrow> group_ok g"
  using assms unfolding reasm_ok_def by blast+

lemma queue_of_delete:
  "gomap_ok gs \<Longrightarrow> map_of gs k = Some g \<Longrightarrow> queue_of (AList.delete k gs) = queue_of gs - {(rCreated g, k)}"
  by (auto simp: queue_of_def gomap_lookup_delete split: if_splits)

lemma queue_of_update_new:
  "gomap_ok gs \<Longrightarrow> map_of gs k = None \<Longrightarrow>
   queue_of (AList.update k g gs) = insert (rCreated g, k) (queue_of gs) \<and> (c, k) \<notin> queue_of gs"
  by (auto simp: queue_of_def gomap_lookup_update split: if_splits)

lemma queue_of_update_old:
  "gomap_ok gs \<Longrightarrow> map_of gs k = Some g \<Longrightarrow> rCreated g' = rCreated g \<Longrightarrow>
   queue_of (AList.update k g' gs) = queue_of gs"
  by (auto simp: queue_of_def gomap_lookup_update split: if_splits)

lemma removeLocked_ok:
  assumes r: "reasm_ok r" and k: "map_of (rGroups r) k = Some g"
  shows "reasm_ok (removeLocked (rCreated g, k) r)"
proof -
  have e: "(rCreated g, k) \<in> pq_elems (rExpiry r)"
    using reasm_okD [OF r] k by (auto simp: queue_of_def)
  have q: "pq_elems (pq_remove reassembly_less (rCreated g, k) (rExpiry r)) = queue_of (AList.delete k (rGroups r))"
    using rq.heap.elems_remove [OF _ e] reasm_okD [OF r] queue_of_delete [OF _ k] by simp
  with rq.heap.invar_remove [OF _ e] reasm_okD [OF r] show ?thesis
    by (auto simp: reasm_ok_def removeLocked_def gomap_lookup_delete
        intro: order_trans [OF length_delete_le_map] split: if_splits)
qed

lemma pq_peek_group:
  assumes r: "reasm_ok r" and ne: "pq_items (rExpiry r) \<noteq> []"
  obtains k g where "pq_peek (rExpiry r) = (rCreated g, k)" "map_of (rGroups r) k = Some g"
proof -
  have "pq_peek (rExpiry r) \<in> queue_of (rGroups r)"
    using rq.heap.peek_elem [of "rExpiry r"] reasm_okD(2,3) [OF r] ne by (metis pq_elems_empty_iff)
  with that show ?thesis by (auto simp: queue_of_def)
qed

text \<open>Expiry keeps exactly the groups younger than the limit, in the map as in the queue.\<close>

definition fresh_at :: "instant \<Rightarrow> reassembly \<Rightarrow> bool" where
  "fresh_at now g \<longleftrightarrow> now - rCreated g \<le> reassemblyTTL"

lemma filter_delete_stale:
  "gomap_ok m \<Longrightarrow> map_of m k = Some v \<Longrightarrow> \<not> P (k, v) \<Longrightarrow> filter P (AList.delete k m) = filter P m"
  by (induction m) (auto simp: gomap_ok_def)

lemma expireLocked_spec:
  "reasm_ok r \<Longrightarrow> reasm_ok (expireLocked now r)
     \<and> rGroups (expireLocked now r) = filter (\<lambda>(k, g). fresh_at now g) (rGroups r)"
proof (induction now r rule: expireLocked.induct)
  case (1 now r)
  show ?case
  proof (cases "pq_items (rExpiry r) \<noteq> [] \<and> now - fst (pq_peek (rExpiry r)) > reassemblyTTL")
    case True
    then obtain k g where kg: "pq_peek (rExpiry r) = (rCreated g, k)" "map_of (rGroups r) k = Some g"
      using pq_peek_group [OF 1(2)] by blast
    then have "filter (\<lambda>(k, g). fresh_at now g) (AList.delete k (rGroups r))
        = filter (\<lambda>(k, g). fresh_at now g) (rGroups r)"
      using True reasm_okD(1) [OF 1(2)] by (intro filter_delete_stale) (auto simp: fresh_at_def)
    with 1(1) [OF True] removeLocked_ok [OF 1(2) kg(2)] kg True show ?thesis
      by (simp add: expireLocked.simps [of now r] removeLocked_def)
  next
    case False
    have "\<not> now - fst e > reassemblyTTL" if "e \<in> pq_elems (rExpiry r)" for e
      using rq.heap.none_due_when_root_is_not [of "rExpiry r" "\<lambda>e. now - fst e > reassemblyTTL" e]
        that False reasm_okD(2) [OF 1(2)] by (auto simp: reassembly_less_def pq_elems_empty_iff)
    then have "\<forall>(k, g) \<in> set (rGroups r). fresh_at now g"
      using reasm_okD(1,3) [OF 1(2)] by (fastforce simp: queue_of_def fresh_at_def map_of_in_set)
    then have "filter (\<lambda>(k, g). fresh_at now g) (rGroups r) = rGroups r" by (simp add: filter_id_conv)
    moreover have "expireLocked now r = r" using False by (subst expireLocked.simps) auto
    ultimately show ?thesis using 1(2) by simp
  qed
qed

section \<open>Every operation keeps the invariant\<close>

lemma shards_present_update:
  "i < length ss \<Longrightarrow> ss ! i = None \<Longrightarrow> shards_present (ss[i := Some d]) = Suc (shards_present ss)"
  unfolding shards_present_def
  by (induction ss arbitrary: i) (auto simp: nth_Cons split: nat.splits)

lemma shard_bytes_update:
  "i < length ss \<Longrightarrow> ss ! i = None \<Longrightarrow> shard_bytes (ss[i := Some d]) = shard_bytes ss + length d"
  unfolding shard_bytes_def
  by (induction ss arbitrary: i) (auto simp: nth_Cons split: nat.splits)

lemma shards_present_le: "shards_present ss \<le> length ss"
  by (simp add: shards_present_def)

lemma shards_present_replicate [simp]: "shards_present (replicate n None) = 0"
  by (simp add: shards_present_def)

lemma shard_bytes_replicate [simp]: "shard_bytes (replicate n None) = 0"
  by (induction n) (simp_all add: shard_bytes_def)

definition joined :: "bytes option list \<Rightarrow> bytes" where
  "joined ss = concat (map (\<lambda>s. case s of None \<Rightarrow> [] | Some d \<Rightarrow> d) ss)"

lemma length_joined: "length (joined ss) = shard_bytes ss"
  unfolding joined_def shard_bytes_def by (induction ss) (auto split: option.splits)

text \<open>The group after a fragment that fills an empty slot.\<close>

definition filled :: "fragment \<Rightarrow> reassembly \<Rightarrow> reassembly" where
  "filled f g = g\<lparr>rShards := (rShards g)[unat (fragIndex f) := Some (fragData f)],
                  rSeen := rSeen g + 1, rBytes := rBytes g + length (fragData f)\<rparr>"

lemma filled_sel [simp]:
  "rCreated (filled f g) = rCreated g" "rTotal (filled f g) = rTotal g" "rCount (filled f g) = rCount g"
  "rSeen (filled f g) = Suc (rSeen g)" "rBytes (filled f g) = rBytes g + length (fragData f)"
  "rShards (filled f g) = (rShards g)[unat (fragIndex f) := Some (fragData f)]"
  by (simp_all add: filled_def)

lemma filled_ok:
  assumes "group_ok g" "frag_ok f" "rCount g = fragCount f" "rShards g ! unat (fragIndex f) = None"
    and "rBytes g + length (fragData f) + unat (rCount g) - rSeen g - 1 \<le> unat (rTotal g)"
    and "Suc (rSeen g) \<noteq> unat (rCount g)"
  shows "group_ok (filled f g)"
proof -
  have i: "unat (fragIndex f) < length (rShards g)" and d: "fragData f \<noteq> []"
    using assms by (auto simp: frag_ok_def group_ok_def word_less_nat_alt)
  have "Some [] \<notin> set ((rShards g)[unat (fragIndex f) := Some (fragData f)])"
    using d assms(1) set_update_subset_insert by (fastforce simp: group_ok_def)
  with i assms show ?thesis
    by (auto simp: group_ok_def shards_present_update shard_bytes_update)
qed

text \<open>The four ways a fragment with the group's metadata can end.\<close>

lemma add_to_group_cases:
  assumes "reasm_ok r" "map_of (rGroups r) key = Some g" "frag_ok f"
    and meta: "rTotal g = fragTotal f" "rCount g = fragCount f"
  shows "rShards g ! unat (fragIndex f) \<noteq> None \<Longrightarrow>
           add_to_group key f g r = (r\<lparr>rGroups := AList.update key g (rGroups r)\<rparr>, Inr None)"
    and "rShards g ! unat (fragIndex f) = None \<Longrightarrow>
         rBytes g + length (fragData f) + unat (rCount g) - rSeen g - 1 > unat (rTotal g) \<Longrightarrow>
           add_to_group key f g r = (removeLocked (rCreated g, key) r, Inl PayloadExceedsTotal)"
    and "rShards g ! unat (fragIndex f) = None \<Longrightarrow>
         rBytes g + length (fragData f) + unat (rCount g) - rSeen g - 1 \<le> unat (rTotal g) \<Longrightarrow>
         Suc (rSeen g) \<noteq> unat (rCount g) \<Longrightarrow>
           add_to_group key f g r = (r\<lparr>rGroups := AList.update key (filled f g) (rGroups r)\<rparr>, Inr None)"
    and "rShards g ! unat (fragIndex f) = None \<Longrightarrow>
         rBytes g + length (fragData f) + unat (rCount g) - rSeen g - 1 \<le> unat (rTotal g) \<Longrightarrow>
         Suc (rSeen g) = unat (rCount g) \<Longrightarrow>
           add_to_group key f g r = (removeLocked (rCreated g, key) r,
             if rBytes (filled f g) \<noteq> unat (rTotal g) then Inl ReassembledLengthMismatch
             else Inr (Some (joined (rShards (filled f g)))))"
proof -
  have g: "group_ok g" using assms reasm_okD(5) by blast
  have i: "unat (fragIndex f) < length (rShards g)" and d: "store_shard (fragData f) = Some (fragData f)"
    using assms(3) meta g by (auto simp: frag_ok_def group_ok_def word_less_nat_alt store_shard_def)
  have s: "rSeen g < unat (rCount g)" using g by (simp add: group_ok_def)
  then have int_nat: "int (rBytes g) + int (length (fragData f)) + int (unat (rCount g)) - int (rSeen g) - 1
      > int (unat (rTotal g)) \<longleftrightarrow>
      rBytes g + length (fragData f) + unat (rCount g) - rSeen g - 1 > unat (rTotal g)" by linarith
  show "add_to_group key f g r = (r\<lparr>rGroups := AList.update key g (rGroups r)\<rparr>, Inr None)"
    if "rShards g ! unat (fragIndex f) \<noteq> None"
    using that i s meta unfolding add_to_group_def int_nat d by (auto simp: Let_def)
  show "add_to_group key f g r = (removeLocked (rCreated g, key) r, Inl PayloadExceedsTotal)"
    if "rShards g ! unat (fragIndex f) = None"
      "rBytes g + length (fragData f) + unat (rCount g) - rSeen g - 1 > unat (rTotal g)"
    using that i meta unfolding add_to_group_def int_nat d by (auto simp: Let_def)
  show "add_to_group key f g r = (r\<lparr>rGroups := AList.update key (filled f g) (rGroups r)\<rparr>, Inr None)"
    if "rShards g ! unat (fragIndex f) = None"
      "rBytes g + length (fragData f) + unat (rCount g) - rSeen g - 1 \<le> unat (rTotal g)"
      "Suc (rSeen g) \<noteq> unat (rCount g)"
    using that i meta unfolding add_to_group_def int_nat d by (auto simp: Let_def filled_def joined_def)
  show "add_to_group key f g r = (removeLocked (rCreated g, key) r,
      if rBytes (filled f g) \<noteq> unat (rTotal g) then Inl ReassembledLengthMismatch
      else Inr (Some (joined (rShards (filled f g)))))"
    if "rShards g ! unat (fragIndex f) = None"
      "rBytes g + length (fragData f) + unat (rCount g) - rSeen g - 1 \<le> unat (rTotal g)"
      "Suc (rSeen g) = unat (rCount g)"
    using that i meta unfolding add_to_group_def int_nat d by (auto simp: Let_def filled_def joined_def)
qed

lemma reasm_ok_update:
  assumes r: "reasm_ok r" and k: "map_of (rGroups r) key = Some g"
    and "group_ok g'" "rCreated g' = rCreated g"
  shows "reasm_ok (r\<lparr>rGroups := AList.update key g' (rGroups r)\<rparr>)"
proof -
  have "queue_of (AList.update key g' (rGroups r)) = queue_of (rGroups r)"
    using queue_of_update_old [OF reasm_okD(1) [OF r] k] assms(4) by simp
  with reasm_okD [OF r] assms(3) k show ?thesis
    by (auto simp: reasm_ok_def gomap_lookup_update length_update_old split: if_splits)
qed

lemma add_to_group_ok:
  assumes r: "reasm_ok r" and k: "map_of (rGroups r) key = Some g" and f: "frag_ok f"
  shows "reasm_ok (fst (add_to_group key f g r)) \<and> snd (add_to_group key f g r) \<noteq> Inl IndexOutOfRange
     \<and> (\<forall>p. snd (add_to_group key f g r) = Inr (Some p) \<longrightarrow> length p = unat (fragTotal f))"
proof (cases "rTotal g = fragTotal f \<and> rCount g = fragCount f")
  case False
  with removeLocked_ok [OF r k] show ?thesis by (auto simp: add_to_group_def)
next
  case True
  then have meta: "rTotal g = fragTotal f" "rCount g = fragCount f" by auto
  note cases = add_to_group_cases [OF r k f meta]
  have g: "group_ok g" using r k reasm_okD(5) by blast
  have i: "unat (fragIndex f) < length (rShards g)"
    using f meta g by (auto simp: frag_ok_def group_ok_def word_less_nat_alt)
  consider (dup) "rShards g ! unat (fragIndex f) \<noteq> None"
    | (over) "rShards g ! unat (fragIndex f) = None"
        "rBytes g + length (fragData f) + unat (rCount g) - rSeen g - 1 > unat (rTotal g)"
    | (more) "rShards g ! unat (fragIndex f) = None"
        "rBytes g + length (fragData f) + unat (rCount g) - rSeen g - 1 \<le> unat (rTotal g)"
        "Suc (rSeen g) \<noteq> unat (rCount g)"
    | (last) "rShards g ! unat (fragIndex f) = None"
        "rBytes g + length (fragData f) + unat (rCount g) - rSeen g - 1 \<le> unat (rTotal g)"
        "Suc (rSeen g) = unat (rCount g)"
    by linarith
  then show ?thesis
  proof cases
    case dup
    with cases(1) reasm_ok_update [OF r k g] show ?thesis by simp
  next
    case over
    with cases(2) removeLocked_ok [OF r k] show ?thesis by simp
  next
    case more
    with cases(3) reasm_ok_update [OF r k filled_ok [OF g f]] meta show ?thesis by simp
  next
    case last
    have "length (joined (rShards (filled f g))) = rBytes (filled f g)"
      using last i g by (simp add: length_joined shard_bytes_update group_ok_def)
    with last cases(4) removeLocked_ok [OF r k] meta show ?thesis by simp
  qed
qed

text \<open>The state in which a fragment meets the group it opens.\<close>

definition opened :: "instant \<Rightarrow> reassemblyKey \<Rightarrow> fragment \<Rightarrow> reassembler \<Rightarrow> reassembler" where
  "opened now key f r =
     \<lparr>rGroups = AList.update key \<lparr>rCreated = now, rTotal = fragTotal f, rCount = fragCount f, rSeen = 0,
        rBytes = 0, rShards = replicate (unat (fragCount f)) None\<rparr> (rGroups r),
      rExpiry = pq_push reassembly_less (now, key) (rExpiry r)\<rparr>"

lemma opened_ok:
  assumes r: "reasm_ok r" and k: "map_of (rGroups r) key = None" and f: "frag_ok f"
    and room: "length (rGroups r) < maxReassemblies"
  shows "reasm_ok (opened now key f r)"
proof -
  let ?g = "\<lparr>rCreated = now, rTotal = fragTotal f, rCount = fragCount f, rSeen = 0,
        rBytes = 0, rShards = replicate (unat (fragCount f)) None\<rparr>"
  have g: "group_ok ?g" using f by (simp add: group_ok_def frag_ok_def)
  have q: "queue_of (AList.update key ?g (rGroups r)) = insert (now, key) (queue_of (rGroups r))"
    "(now, key) \<notin> pq_elems (rExpiry r)"
    using queue_of_update_new [OF reasm_okD(1) [OF r] k, of ?g now] reasm_okD(3) [OF r] by auto
  then show ?thesis
    using reasm_okD [OF r] g k room rq.heap.invar_push [OF _ q(2)] rq.heap.elems_push [OF _ q(2)]
    by (auto simp: reasm_ok_def opened_def gomap_lookup_update length_update_new split: if_splits)
qed

lemma reassembler_add_unfold:
  "fragCount f \<noteq> 1 \<Longrightarrow> reassembler_add now sid f r =
     (let r' = expireLocked now r; key = (sid, packetID f)
      in case map_of (rGroups r') key of
           Some g \<Rightarrow> add_to_group key f g r'
         | None \<Rightarrow> if length (rGroups r') \<ge> maxReassemblies then (r', Inl TooManyIncompleteDatagrams)
                   else add_to_group key f (the (map_of (rGroups (opened now key f r')) key)) (opened now key f r'))"
  by (simp add: reassembler_add_def opened_def Let_def gomap_lookup_update cong: option.case_cong)

lemma reassembler_add_ok:
  assumes r: "reasm_ok r" and f: "frag_ok f"
  shows "reasm_ok (fst (reassembler_add now sid f r))
     \<and> snd (reassembler_add now sid f r) \<noteq> Inl IndexOutOfRange
     \<and> (\<forall>p. snd (reassembler_add now sid f r) = Inr (Some p) \<longrightarrow> length p = unat (fragTotal f))"
proof (cases "fragCount f = 1")
  case True
  with r show ?thesis by (simp add: reassembler_add_def)
next
  case False
  let ?r = "expireLocked now r" and ?k = "(sid, packetID f)"
  have r': "reasm_ok ?r" using r expireLocked_spec by blast
  show ?thesis
  proof (cases "map_of (rGroups ?r) ?k")
    case (Some g)
    with False add_to_group_ok [OF r' Some f] show ?thesis
      by (simp add: reassembler_add_unfold Let_def)
  next
    case None
    show ?thesis
    proof (cases "length (rGroups ?r) \<ge> maxReassemblies")
      case True
      with False None r' show ?thesis by (simp add: reassembler_add_unfold Let_def)
    next
      case room: False
      then have o: "reasm_ok (opened now ?k f ?r)" using opened_ok r' None f by simp
      obtain g where g: "map_of (rGroups (opened now ?k f ?r)) ?k = Some g"
        by (simp add: opened_def gomap_lookup_update)
      with False None room add_to_group_ok [OF o g f] show ?thesis
        by (simp add: reassembler_add_unfold Let_def)
    qed
  qed
qed

lemma discard_loop:
  "reasm_ok r \<Longrightarrow> gomap_ok gs \<Longrightarrow> \<forall>(k, g) \<in> set gs. map_of (rGroups r) k = Some g \<Longrightarrow>
   reasm_ok (foldl (\<lambda>r' (key, g). if fst key = sid then removeLocked (rCreated g, key) r' else r') r gs)
   \<and> rGroups (foldl (\<lambda>r' (key, g). if fst key = sid then removeLocked (rCreated g, key) r' else r') r gs)
       = filter (\<lambda>(k, g). \<not> (fst k = sid \<and> k \<in> fst ` set gs)) (rGroups r)"
proof (induction gs arbitrary: r)
  case Nil
  then show ?case by (simp add: case_prod_unfold)
next
  case (Cons p gs)
  obtain k g where p: "p = (k, g)" by fastforce
  show ?case
  proof (cases "fst k = sid")
    case True
    let ?r = "removeLocked (rCreated g, k) r"
    have "reasm_ok ?r" using Cons.prems p by (simp add: removeLocked_ok)
    moreover have "\<forall>(k', g') \<in> set gs. map_of (rGroups ?r) k' = Some g'"
      using Cons.prems(2,3) p by (force simp: removeLocked_def gomap_lookup_delete gomap_ok_def)
    moreover have "filter (\<lambda>(k', g'). \<not> (fst k' = sid \<and> k' \<in> fst ` set gs)) (AList.delete k (rGroups r))
        = filter (\<lambda>(k', g'). \<not> (fst k' = sid \<and> k' \<in> fst ` set (p # gs))) (rGroups r)"
      using True p by (auto simp: AList.delete_eq intro!: filter_cong)
    ultimately show ?thesis
      using Cons True p by (simp add: gomap_ok_def removeLocked_def)
  next
    case False
    with p have "filter (\<lambda>(k', g'). \<not> (fst k' = sid \<and> k' \<in> fst ` set (p # gs))) (rGroups r)
       = filter (\<lambda>(k', g'). \<not> (fst k' = sid \<and> k' \<in> fst ` set gs)) (rGroups r)"
      by (auto intro!: filter_cong)
    with Cons False p show ?thesis by (simp add: gomap_ok_def)
  qed
qed

lemma discardSession_spec:
  assumes "reasm_ok r"
  shows "reasm_ok (discardSession sid r) \<and> rGroups (discardSession sid r) = filter (\<lambda>(k, g). fst k \<noteq> sid) (rGroups r)"
proof -
  have "filter (\<lambda>(k, g). \<not> (fst k = sid \<and> k \<in> fst ` set (rGroups r))) (rGroups r)
      = filter (\<lambda>(k, g). fst k \<noteq> sid) (rGroups r)"
    by (force intro!: filter_cong)
  moreover have "\<forall>(k, g) \<in> set (rGroups r). map_of (rGroups r) k = Some g"
    using reasm_okD(1) [OF assms] by (auto simp: map_of_in_set)
  ultimately show ?thesis
    using discard_loop [OF assms reasm_okD(1) [OF assms], of sid] by (simp add: discardSession_def)
qed

section \<open>Reachable reassemblers\<close>

inductive reasm_reach :: "reassembler \<Rightarrow> bool" where
  reasm_init: "reasm_reach newReassembler"
| reasm_frame: "reasm_reach r \<Longrightarrow> parseFragment frame = Inr f \<Longrightarrow>
     reasm_reach (fst (reassembler_add now sid f r))"
| reasm_tick: "reasm_reach r \<Longrightarrow> reasm_reach (reassembler_expire now r)"
| reasm_discard: "reasm_reach r \<Longrightarrow> reasm_reach (discardSession sid r)"
| reasm_permute: "reasm_reach r \<Longrightarrow> mset gs = mset (rGroups r) \<Longrightarrow> reasm_reach (r\<lparr>rGroups := gs\<rparr>)"

lemma gomap_permute:
  "gomap_ok m \<Longrightarrow> mset m' = mset m \<Longrightarrow> gomap_ok m' \<and> map_of m' = map_of m"
proof
  assume m: "gomap_ok m" "mset m' = mset m"
  then have "mset (map fst m') = mset (map fst m)" by simp
  then show "gomap_ok m'" using m(1) by (metis gomap_ok_def mset_eq_imp_distinct_iff)
  with m show "map_of m' = map_of m"
    by (metis gomap_ok_def map_of_inject_set mset_eq_setD)
qed

lemma newReassembler_ok: "reasm_ok newReassembler"
  using rq.heap.invar_empty rq.heap.elems_empty
  by (simp add: reasm_ok_def newReassembler_def queue_of_def)

lemma reasm_reach_ok: "reasm_reach r \<Longrightarrow> reasm_ok r"
proof (induction rule: reasm_reach.induct)
  case reasm_init
  show ?case by (rule newReassembler_ok)
next
  case (reasm_frame r frame f now sid)
  with reassembler_add_ok parse_frag_ok show ?case by blast
next
  case (reasm_tick r now)
  with expireLocked_spec show ?case by (simp add: reassembler_expire_def)
next
  case (reasm_discard r sid)
  with discardSession_spec show ?case by blast
next
  case (reasm_permute r gs)
  then have "map_of gs = map_of (rGroups r)" "gomap_ok gs" "length gs = length (rGroups r)"
    using gomap_permute reasm_okD(1) mset_eq_length by blast+
  with reasm_permute.IH show ?case by (simp add: reasm_ok_def queue_of_def)
qed

definition buffered :: "reassembler \<Rightarrow> nat" where
  "buffered r = sum_list (map (rBytes \<circ> snd) (rGroups r))"

lemma sum_list_bound: "(\<And>x. x \<in> set xs \<Longrightarrow> f x \<le> b) \<Longrightarrow> sum_list (map f xs) \<le> length xs * (b::nat)"
  by (induction xs) (auto intro: add_mono)

lemma shard_bytes_empty: "shards_present ss = 0 \<Longrightarrow> shard_bytes ss = 0"
  unfolding shards_present_def shard_bytes_def by (induction ss) (auto split: if_splits)

lemma group_bytes_bound: "group_ok g \<Longrightarrow> rBytes g \<le> maxDatagramSize"
  using shard_bytes_empty by (cases "rSeen g = 0") (auto simp: group_ok_def)

lemma buffered_bound:
  assumes "reasm_ok r"
  shows "buffered r \<le> maxReassemblies * maxDatagramSize"
proof -
  have "buffered r \<le> length (rGroups r) * maxDatagramSize"
    unfolding buffered_def
    using reasm_okD(1,5) [OF assms] by (intro sum_list_bound) (auto simp: map_of_in_set group_bytes_bound)
  also have "\<dots> \<le> maxReassemblies * maxDatagramSize"
    using reasm_okD(4) [OF assms] by simp
  finally show ?thesis .
qed

section \<open>Fragments in any order give the datagram back\<close>

definition slots :: "bytes list \<Rightarrow> nat set \<Rightarrow> bytes option list" where
  "slots cs S = map (\<lambda>i. if i \<in> S then Some (cs ! i) else None) [0..<length cs]"

lemma length_slots [simp]: "length (slots cs S) = length cs"
  by (simp add: slots_def)

lemma slots_nth: "i < length cs \<Longrightarrow> slots cs S ! i = (if i \<in> S then Some (cs ! i) else None)"
  by (simp add: slots_def)

lemma slots_update: "i < length cs \<Longrightarrow> (slots cs S)[i := Some (cs ! i)] = slots cs (insert i S)"
  by (rule nth_equalityI) (auto simp: slots_nth nth_list_update)

lemma slots_empty: "slots cs {} = replicate (length cs) None"
  by (rule nth_equalityI) (auto simp: slots_nth)

lemma slots_all: "{0..<length cs} \<subseteq> S \<Longrightarrow> slots cs S = map Some cs"
  by (rule nth_equalityI) (auto simp: slots_nth)

lemma slots_budget:
  assumes "[] \<notin> set cs"
  shows "shard_bytes (slots cs S) + (length cs - shards_present (slots cs S)) \<le> length (concat cs)"
proof -
  have "shard_bytes ss + (length ss - shards_present ss) \<le> length (concat cs)"
    if "list_all2 (\<lambda>s c. s = None \<or> s = Some c) ss cs" for ss
    using that assms
  proof (induction rule: list_all2_induct)
    case Nil
    then show ?case by (simp add: shard_bytes_def)
  next
    case (Cons s ss c cs)
    obtain m where "length c = Suc m" using Cons.prems by (cases c) auto
    moreover have "shards_present (s # ss) = (if s = None then 0 else 1) + shards_present ss"
      "shard_bytes (s # ss) = (case s of None \<Rightarrow> 0 | Some d \<Rightarrow> length d) + shard_bytes ss"
      by (simp_all add: shards_present_def shard_bytes_def)
    moreover have "shard_bytes ss + (length ss - shards_present ss) \<le> length (concat cs)"
      using Cons by simp
    ultimately show ?case
      using Cons(1) shards_present_le [of ss] by (elim disjE) simp_all
  qed
  moreover have "list_all2 (\<lambda>s c. s = None \<or> s = Some c) (slots cs S) cs"
    by (auto simp: list_all2_conv_all_nth slots_nth)
  ultimately show ?thesis by fastforce
qed

lemma joined_all: "joined (map Some cs) = concat cs"
  by (simp add: joined_def comp_def)

lemma shards_present_all_iff: "shards_present ss = length ss \<longleftrightarrow> None \<notin> set ss"
  unfolding shards_present_def by (metis (mono_tags, lifting) filter_True length_filter_less nat_less_le)

text \<open>The group of a datagram of which the fragments \<open>S\<close> have arrived.\<close>

definition chunks_ok :: "bytes list \<Rightarrow> bool" where
  "chunks_ok cs \<longleftrightarrow> 2 \<le> length cs \<and> length cs \<le> 128 \<and> length (concat cs) \<le> 65535
     \<and> (\<forall>c \<in> set cs. 0 < length c \<and> length c \<le> 4075)"

definition frag_of :: "u64 \<Rightarrow> bytes list \<Rightarrow> nat \<Rightarrow> fragment" where
  "frag_of pid cs i = \<lparr>packetID = pid, fragIndex = of_nat i, fragCount = of_nat (length cs),
     fragTotal = of_nat (length (concat cs)), fragData = cs ! i\<rparr>"

definition group_of :: "instant \<Rightarrow> bytes list \<Rightarrow> nat set \<Rightarrow> reassembly" where
  "group_of t cs S = \<lparr>rCreated = t, rTotal = of_nat (length (concat cs)), rCount = of_nat (length cs),
     rSeen = shards_present (slots cs S), rBytes = shard_bytes (slots cs S), rShards = slots cs S\<rparr>"

lemma frag_of_unat:
  assumes "chunks_ok cs" "i < length cs"
  shows "unat (fragIndex (frag_of pid cs i)) = i" "unat (fragCount (frag_of pid cs i)) = length cs"
    "unat (fragTotal (frag_of pid cs i)) = length (concat cs)" "fragCount (frag_of pid cs i) \<noteq> 1"
proof -
  show *: "unat (fragIndex (frag_of pid cs i)) = i" "unat (fragCount (frag_of pid cs i)) = length cs"
    "unat (fragTotal (frag_of pid cs i)) = length (concat cs)"
    using assms by (simp_all add: frag_of_def chunks_ok_def unat_of_nat)
  show "fragCount (frag_of pid cs i) \<noteq> 1" using *(2) assms(1) by (auto simp: chunks_ok_def)
qed

lemma frag_of_ok: "chunks_ok cs \<Longrightarrow> i < length cs \<Longrightarrow> frag_ok (frag_of pid cs i)"
proof -
  assume a: "chunks_ok cs" "i < length cs"
  then have "cs ! i \<in> set cs" by simp
  moreover from this have "length (cs ! i) \<le> length (concat cs)"
    by (simp add: length_concat member_le_sum_list)
  ultimately show ?thesis
    using frag_of_unat [OF a, of pid] a
    by (auto simp: frag_ok_def frame_consts word_less_nat_alt chunks_ok_def frag_of_def [of pid cs i])
qed

lemma group_of_insert:
  assumes "chunks_ok cs" "i < length cs" "i \<notin> S"
  shows "filled (frag_of pid cs i) (group_of t cs S) = group_of t cs (insert i S)"
    and "Suc (shards_present (slots cs S)) = shards_present (slots cs (insert i S))"
    and "shard_bytes (slots cs S) + length (cs ! i) = shard_bytes (slots cs (insert i S))"
proof -
  have s: "slots cs S ! i = None" using assms by (simp add: slots_nth)
  show *: "Suc (shards_present (slots cs S)) = shards_present (slots cs (insert i S))"
    "shard_bytes (slots cs S) + length (cs ! i) = shard_bytes (slots cs (insert i S))"
    using shards_present_update [of i "slots cs S" "cs ! i"] shard_bytes_update [of i "slots cs S" "cs ! i"] s
      assms(2) by (simp_all add: slots_update)
  have "fragData (frag_of pid cs i) = cs ! i" by (simp add: frag_of_def)
  with * frag_of_unat(1) [OF assms(1,2), of pid] assms(2) show
    "filled (frag_of pid cs i) (group_of t cs S) = group_of t cs (insert i S)"
    by (simp add: filled_def group_of_def slots_update)
qed

lemma slots_complete:
  "shards_present (slots cs S) = length cs \<longleftrightarrow> {0..<length cs} \<subseteq> S"
  using shards_present_all_iff [of "slots cs S"]
  by (auto simp: slots_def split: if_splits)

lemma group_of_meta: "rTotal (group_of t cs S) = fragTotal (frag_of pid cs i)"
  "rCount (group_of t cs S) = fragCount (frag_of pid cs i)" "rCreated (group_of t cs S) = t"
  by (simp_all add: group_of_def frag_of_def)

text \<open>One fragment of the datagram meets its group.\<close>

lemma add_own_fragment:
  assumes r: "reasm_ok r" and k: "map_of (rGroups r) key = Some (group_of t cs S)"
    and cs: "chunks_ok cs" and i: "i < length cs"
  shows "if {0..<length cs} \<subseteq> insert i S
     then i \<notin> S \<longrightarrow> add_to_group key (frag_of pid cs i) (group_of t cs S) r
            = (removeLocked (t, key) r, Inr (Some (concat cs)))
     else add_to_group key (frag_of pid cs i) (group_of t cs S) r
            = (r\<lparr>rGroups := AList.update key (group_of t cs (insert i S)) (rGroups r)\<rparr>, Inr None)"
proof (cases "i \<in> S")
  case True
  have "rShards (group_of t cs S) ! unat (fragIndex (frag_of pid cs i)) \<noteq> None"
    using True i frag_of_unat(1) [OF cs i, of pid] by (simp add: group_of_def slots_nth)
  with add_to_group_cases(1) [OF r k frag_of_ok [OF cs i, of pid] group_of_meta(1,2)] True
  show ?thesis by (simp add: insert_absorb)
next
  case False
  note cases = add_to_group_cases(3,4) [OF r k frag_of_ok [OF cs i, of pid] group_of_meta(1,2)]
  note ins = group_of_insert [OF cs i False]
  have n: "rShards (group_of t cs S) ! unat (fragIndex (frag_of pid cs i)) = None"
    using False i frag_of_unat(1) [OF cs i, of pid] by (simp add: group_of_def slots_nth)
  have u: "unat (rCount (group_of t cs S)) = length cs" "unat (rTotal (group_of t cs S)) = length (concat cs)"
    using frag_of_unat [OF cs i, of pid] by (simp_all add: group_of_def frag_of_def)
  have "[] \<notin> set cs" using cs by (auto simp: chunks_ok_def)
  then have b: "rBytes (group_of t cs S) + length (fragData (frag_of pid cs i)) + unat (rCount (group_of t cs S))
      - rSeen (group_of t cs S) - 1 \<le> unat (rTotal (group_of t cs S))"
    using slots_budget [of cs "insert i S"] ins(2,3) shards_present_le [of "slots cs (insert i S)"]
    unfolding u by (simp add: group_of_def frag_of_def)
  have s: "Suc (rSeen (group_of t cs S)) = unat (rCount (group_of t cs S)) \<longleftrightarrow> {0..<length cs} \<subseteq> insert i S"
    unfolding u slots_complete [symmetric] using ins(2) by (simp add: group_of_def)
  show ?thesis
  proof (cases "{0..<length cs} \<subseteq> insert i S")
    case True
    then have "rShards (group_of t cs (insert i S)) = map Some cs"
      "rBytes (group_of t cs (insert i S)) = length (concat cs)"
      using slots_all [OF True] length_joined [of "map Some cs"]
      by (simp_all add: group_of_def joined_all)
    then have "rBytes (filled (frag_of pid cs i) (group_of t cs S)) = length (concat cs)"
      "rShards (filled (frag_of pid cs i) (group_of t cs S)) = map Some cs"
      unfolding ins(1) by simp_all
    with cases(2) [OF n b] s True u(2) show ?thesis
      by (simp only: joined_all group_of_meta(3) if_True if_False simp_thms)
  next
    case False
    with cases(1) [OF n b] s ins(1) show ?thesis by simp
  qed
qed

text \<open>Traffic of other datagrams leaves a fresh group alone.\<close>

lemma expireLocked_lookup:
  "reasm_ok r \<Longrightarrow> map_of (rGroups r) k = Some g \<Longrightarrow> fresh_at now g \<Longrightarrow>
   map_of (rGroups (expireLocked now r)) k = Some g"
  using expireLocked_spec [of r now] reasm_okD(1) [of r]
  by (auto simp: gomap_ok_filter gomap_ok_def distinct_map_filter dest: map_of_SomeD intro!: map_of_is_SomeI)

lemma add_to_group_other:
  "reasm_ok r \<Longrightarrow> k \<noteq> k' \<Longrightarrow> map_of (rGroups (fst (add_to_group k' f g r))) k = map_of (rGroups r) k"
  using reasm_okD(1) [of r]
  by (auto simp: add_to_group_def removeLocked_def Let_def gomap_lookup_update gomap_lookup_delete)

lemma add_other:
  assumes r: "reasm_ok r" and f: "frag_ok f" and k: "map_of (rGroups r) k = Some g" and "fresh_at now g"
    and "(sid, packetID f) \<noteq> k"
  shows "map_of (rGroups (fst (reassembler_add now sid f r))) k = Some g"
proof (cases "fragCount f = 1")
  case True
  with k show ?thesis by (simp add: reassembler_add_def)
next
  case False
  let ?r = "expireLocked now r" and ?k = "(sid, packetID f)"
  have r': "reasm_ok ?r" and k': "map_of (rGroups ?r) k = Some g"
    using expireLocked_spec expireLocked_lookup assms by blast+
  have o: "reasm_ok (opened now ?k f ?r)" if "map_of (rGroups ?r) ?k = None" "\<not> length (rGroups ?r) \<ge> maxReassemblies"
    using opened_ok r' f that by simp
  have "map_of (rGroups (opened now ?k f ?r)) k = Some g"
    using k' assms(5) by (simp add: opened_def gomap_lookup_update)
  with k' r' o False assms(5) show ?thesis
    by (auto simp: reassembler_add_unfold Let_def add_to_group_other split: option.splits)
qed

lemma deliver_parsed:
  "parseFragment frame = Inr f \<Longrightarrow> fst (deliverFrame now sid frame r) = fst (reassembler_add now sid f r)"
  "parseFragment frame = Inr f \<Longrightarrow> snd (reassembler_add now sid f r) = Inr x \<Longrightarrow> snd (deliverFrame now sid frame r) = x"
  by (auto simp: deliverFrame_def split: prod.splits sum.splits)

lemma deliver_ok: "reasm_ok r \<Longrightarrow> reasm_ok (fst (deliverFrame now sid frame r))"
proof (cases "parseFragment frame")
  case (Inr f)
  then show "reasm_ok r \<Longrightarrow> ?thesis" using reassembler_add_ok parse_frag_ok by (simp add: deliver_parsed(1))
qed (simp add: deliverFrame_def)

text \<open>The state in which the fragments \<open>S\<close> of one datagram have arrived.\<close>

definition pending :: "reassemblyKey \<Rightarrow> instant \<Rightarrow> bytes list \<Rightarrow> nat set \<Rightarrow> reassembler \<Rightarrow> bool" where
  "pending key t cs S r \<longleftrightarrow> reasm_ok r \<and> map_of (rGroups r) key = Some (group_of t cs S)"

definition frames_of :: "u64 \<Rightarrow> bytes list \<Rightarrow> bytes list" where
  "frames_of pid cs = map (\<lambda>i. encodeFragment (frag_of pid cs i)) [0..<length cs]"

lemma parse_frames_of: "chunks_ok cs \<Longrightarrow> i < length cs \<Longrightarrow> parseFragment (frames_of pid cs ! i) = Inr (frag_of pid cs i)"
  by (simp add: frames_of_def parse_encodeFragment frag_of_ok)

lemma deliver_own:
  assumes p: "pending (sid, pid) t0 cs S r" and cs: "chunks_ok cs" and i: "i < length cs"
    and t: "now - t0 \<le> reassemblyTTL"
  shows "\<not> {0..<length cs} \<subseteq> insert i S \<Longrightarrow>
           pending (sid, pid) t0 cs (insert i S) (fst (deliverFrame now sid (frames_of pid cs ! i) r))
           \<and> snd (deliverFrame now sid (frames_of pid cs ! i) r) = None"
    and "{0..<length cs} \<subseteq> insert i S \<Longrightarrow> i \<notin> S \<Longrightarrow>
           map_of (rGroups (fst (deliverFrame now sid (frames_of pid cs ! i) r))) (sid, pid) = None
           \<and> snd (deliverFrame now sid (frames_of pid cs ! i) r) = Some (concat cs)"
proof -
  let ?r = "expireLocked now r" and ?k = "(sid, pid)" and ?f = "frag_of pid cs i"
  note parse = parse_frames_of [OF cs i, of pid]
  have r: "reasm_ok ?r" using p expireLocked_spec by (simp add: pending_def)
  have k: "map_of (rGroups ?r) ?k = Some (group_of t0 cs S)"
    using p t by (intro expireLocked_lookup) (auto simp: pending_def fresh_at_def group_of_def)
  have pid: "packetID ?f = pid" by (simp add: frag_of_def)
  have add: "reassembler_add now sid ?f r = add_to_group ?k ?f (group_of t0 cs S) ?r"
    using k frag_of_unat(4) [OF cs i, of pid] by (simp add: reassembler_add_unfold pid Let_def)
  note own = add_own_fragment [OF r k cs i, of pid]
  show "pending ?k t0 cs (insert i S) (fst (deliverFrame now sid (frames_of pid cs ! i) r))
      \<and> snd (deliverFrame now sid (frames_of pid cs ! i) r) = None"
    if "\<not> {0..<length cs} \<subseteq> insert i S"
    using that own deliver_parsed [OF parse, of now sid r] p
      deliver_ok [of r now sid "frames_of pid cs ! i"]
    by (simp add: add pending_def gomap_lookup_update)
  show "map_of (rGroups (fst (deliverFrame now sid (frames_of pid cs ! i) r))) ?k = None
      \<and> snd (deliverFrame now sid (frames_of pid cs ! i) r) = Some (concat cs)"
    if "{0..<length cs} \<subseteq> insert i S" "i \<notin> S"
    using that own deliver_parsed [OF parse, of now sid r] reasm_okD(1) [OF r]
    by (simp add: add removeLocked_def gomap_lookup_delete)
qed

lemma deliver_foreign:
  assumes p: "pending key t0 cs S r" and t: "now - t0 \<le> reassemblyTTL"
    and f: "\<And>f. parseFragment frame = Inr f \<Longrightarrow> (sid, packetID f) \<noteq> key"
  shows "pending key t0 cs S (fst (deliverFrame now sid frame r))"
proof (cases "parseFragment frame")
  case (Inl e)
  with p show ?thesis by (simp add: deliverFrame_def)
next
  case (Inr f)
  have "map_of (rGroups (fst (reassembler_add now sid f r))) key = Some (group_of t0 cs S)"
    using p t f [OF Inr] parse_frag_ok [OF Inr]
    by (intro add_other) (auto simp: pending_def fresh_at_def group_of_def)
  with p deliver_ok [of r now sid frame] Inr show ?thesis by (simp add: pending_def deliver_parsed(1))
qed

lemma deliver_first:
  assumes r: "reasm_ok r" and k: "map_of (rGroups r) (sid, pid) = None"
    and room: "length (rGroups r) < maxReassemblies" and cs: "chunks_ok cs" and i: "i < length cs"
  shows "pending (sid, pid) now cs {i} (fst (deliverFrame now sid (frames_of pid cs ! i) r))
     \<and> snd (deliverFrame now sid (frames_of pid cs ! i) r) = None"
proof -
  let ?r = "expireLocked now r" and ?k = "(sid, pid)" and ?f = "frag_of pid cs i"
  have r': "reasm_ok ?r" and e: "rGroups ?r = filter (\<lambda>(k, g). fresh_at now g) (rGroups r)"
    using r expireLocked_spec by blast+
  have k': "map_of (rGroups ?r) ?k = None" using k by (auto simp: e map_of_eq_None_iff)
  have room': "length (rGroups ?r) < maxReassemblies" unfolding e
    using room by (rule le_less_trans [OF length_filter_le])
  have o: "reasm_ok (opened now ?k ?f ?r)" by (rule opened_ok [OF r' k' frag_of_ok [OF cs i] room'])
  have g: "map_of (rGroups (opened now ?k ?f ?r)) ?k = Some (group_of now cs {})"
    using frag_of_unat(2) [OF cs i, of pid]
    by (simp add: opened_def gomap_lookup_update group_of_def slots_empty frag_of_def)
  have pid: "packetID ?f = pid" by (simp add: frag_of_def)
  have add: "reassembler_add now sid ?f r = add_to_group ?k ?f (group_of now cs {}) (opened now ?k ?f ?r)"
    using k' room' g frag_of_unat(4) [OF cs i, of pid] by (simp add: reassembler_add_unfold pid Let_def)
  have "\<not> {0..<length cs} \<subseteq> insert i {}"
    using cs by (auto simp: chunks_ok_def subset_singleton_iff dest: arg_cong [where f = card])
  with add_own_fragment [OF o g cs i, of pid] deliver_parsed [OF parse_frames_of [OF cs i, of pid], of now sid r]
    deliver_ok [OF r, of now sid "frames_of pid cs ! i"] show ?thesis
    by (simp add: add pending_def gomap_lookup_update)
qed

text \<open>Which fragments of a datagram a sequence of arrivals contains, and which arrivals are such fragments.\<close>

definition arrived :: "u64 \<Rightarrow> bytes list \<Rightarrow> (instant \<times> u64 \<times> bytes) list \<Rightarrow> nat set" where
  "arrived sid frames es = {i. i < length frames \<and> (\<exists>t. (t, sid, frames ! i) \<in> set es)}"

definition own_frame :: "u64 \<Rightarrow> bytes list \<Rightarrow> instant \<times> u64 \<times> bytes \<Rightarrow> bool" where
  "own_frame sid frames e \<longleftrightarrow> fst (snd e) = sid \<and> snd (snd e) \<in> set frames"

text \<open>An arrival that belongs to another datagram, or is no frame at all.\<close>

definition foreign_frame :: "u64 \<Rightarrow> u64 \<Rightarrow> instant \<times> u64 \<times> bytes \<Rightarrow> bool" where
  "foreign_frame sid pid e \<longleftrightarrow>
     (case parseFragment (snd (snd e)) of Inl _ \<Rightarrow> True | Inr f \<Rightarrow> (fst (snd e), packetID f) \<noteq> (sid, pid))"

lemma length_frames_of [simp]: "length (frames_of pid cs) = length cs"
  by (simp add: frames_of_def)

lemma frames_of_inj:
  "chunks_ok cs \<Longrightarrow> i < length cs \<Longrightarrow> j < length cs \<Longrightarrow> frames_of pid cs ! i = frames_of pid cs ! j \<Longrightarrow> i = j"
  using parse_frames_of [of cs i pid] parse_frames_of [of cs j pid] frag_of_unat(1) [of cs i pid] frag_of_unat(1) [of cs j pid]
  by simp

lemma arrived_Cons:
  assumes "chunks_ok cs"
  shows "i < length cs \<Longrightarrow> arrived sid (frames_of pid cs) ((t, sid, frames_of pid cs ! i) # es)
           = insert i (arrived sid (frames_of pid cs) es)"
    and "foreign_frame sid pid e \<Longrightarrow> arrived sid (frames_of pid cs) (e # es) = arrived sid (frames_of pid cs) es"
proof -
  show "arrived sid (frames_of pid cs) ((t, sid, frames_of pid cs ! i) # es)
     = insert i (arrived sid (frames_of pid cs) es)" if "i < length cs"
    using that frames_of_inj [OF assms] by (auto simp: arrived_def)
  have "e \<noteq> (t, sid, frames_of pid cs ! i)" if "foreign_frame sid pid e" "i < length cs" for t i
    using that parse_frames_of [OF assms that(2), of pid] by (auto simp: foreign_frame_def frag_of_def)
  then show "arrived sid (frames_of pid cs) (e # es) = arrived sid (frames_of pid cs) es" if "foreign_frame sid pid e"
    using that by (auto simp: arrived_def)
qed

lemma deliverFrames_pending:
  assumes cs: "chunks_ok cs"
  shows "pending (sid, pid) t0 cs S r \<Longrightarrow>
     \<forall>e \<in> set es. fst e - t0 \<le> reassemblyTTL \<and> (own_frame sid (frames_of pid cs) e \<or> foreign_frame sid pid e) \<Longrightarrow>
     \<not> {0..<length cs} \<subseteq> S \<union> arrived sid (frames_of pid cs) es \<Longrightarrow>
     pending (sid, pid) t0 cs (S \<union> arrived sid (frames_of pid cs) es) (fst (deliverFrames es r))
     \<and> (\<forall>(e, out) \<in> set (zip es (snd (deliverFrames es r))). own_frame sid (frames_of pid cs) e \<longrightarrow> out = None)"
proof (induction es arbitrary: r S)
  case Nil
  then show ?case by (simp add: arrived_def)
next
  case (Cons e es)
  obtain t s fr where e: "e = (t, s, fr)" by (cases e)
  have t: "t - t0 \<le> reassemblyTTL" using Cons.prems(2) e by auto
  show ?case
  proof (cases "own_frame sid (frames_of pid cs) e")
    case True
    then obtain i where i: "i < length cs" "s = sid" "fr = frames_of pid cs ! i"
      by (auto simp: own_frame_def e in_set_conv_nth)
    have a: "arrived sid (frames_of pid cs) (e # es) = insert i (arrived sid (frames_of pid cs) es)"
      using arrived_Cons(1) [OF cs i(1)] by (simp add: e i)
    then have "\<not> {0..<length cs} \<subseteq> insert i S" using Cons.prems(3) by auto
    with deliver_own(1) [OF Cons.prems(1) cs i(1) t] Cons.IH [of "insert i S" "fst (deliverFrame t s fr r)"] Cons.prems(2,3) a
    show ?thesis by (auto simp: e i case_prod_unfold Let_def)
  next
    case False
    then have f: "foreign_frame sid pid e" using Cons.prems(2) by auto
    then have "pending (sid, pid) t0 cs S (fst (deliverFrame t s fr r))"
      by (intro deliver_foreign [OF Cons.prems(1) t]) (auto simp: foreign_frame_def e)
    with Cons.IH [of S "fst (deliverFrame t s fr r)"] Cons.prems(2,3) False arrived_Cons(2) [OF cs f]
    show ?thesis by (auto simp: e case_prod_unfold Let_def)
  qed
qed

lemma fragments_from_frag_of:
  "fragments_from pid (length cs) (length (concat cs)) 0 cs = map (frag_of pid cs) [0..<length cs]"
  by (rule nth_equalityI) (simp_all add: fragments_from_def frag_of_def nth_enumerate_eq)

lemma fragment_frames:
  assumes "fragmentPacketSized packet pid n = Inr frames"
  shows "frames = frames_of pid (chunks (nat n) packet)" "concat (chunks (nat n) packet) = packet"
    and "1 < length frames \<Longrightarrow> chunks_ok (chunks (nat n) packet)"
proof -
  note f = fragmentPacketSized_Inr [OF assms]
  show c: "concat (chunks (nat n) packet) = packet" using f(1) by (simp add: concat_chunks)
  have fr: "frames = map encodeFragment (fragments_from pid (length (chunks (nat n) packet))
     (length (concat (chunks (nat n) packet))) 0 (chunks (nat n) packet))"
    using f(6) by (simp add: c)
  then show "frames = frames_of pid (chunks (nat n) packet)"
    unfolding fragments_from_frag_of frames_of_def by simp
  then have "length frames = length (chunks (nat n) packet)" by simp
  moreover have "0 < length d \<and> length d \<le> 4075" if "d \<in> set (chunks (nat n) packet)" for d
    using chunk_sizes [of "nat n" d packet] that f(1,2) by linarith
  ultimately show "1 < length frames \<Longrightarrow> chunks_ok (chunks (nat n) packet)"
    using f(4,5) by (simp add: chunks_ok_def c)
qed

section \<open>Properties of the framing layer\<close>

text \<open>C2.  Reassembly in any order: the frames of a datagram that was cut into several fragments are
  delivered to a reassembler that does not know the datagram and has room.  They may arrive in any
  order, with duplicates, interleaved with frames of other datagrams and sessions and with invalid
  frames, as long as they arrive within the reassembly lifetime of the first.  No fragment before the
  last missing one delivers anything, the last missing one delivers exactly the datagram, and the group
  is gone afterwards.\<close>

theorem reassembly_in_any_order:
  assumes frames: "fragmentPacketSized packet pid n = Inr frames" "1 < length frames"
    and r: "reasm_reach r" "map_of (rGroups r) (sid, pid) = None" "length (rGroups r) < maxReassemblies"
    and first: "fr0 \<in> set frames" and last: "fr1 \<in> set frames"
    and es: "\<forall>e \<in> set es. fst e - t0 \<le> reassemblyTTL \<and> (own_frame sid frames e \<or> foreign_frame sid pid e)"
    and once: "\<forall>t. (t, sid, fr1) \<notin> set ((t0, sid, fr0) # es)"
    and all: "\<forall>fr \<in> set frames. fr = fr1 \<or> (\<exists>t. (t, sid, fr) \<in> set ((t0, sid, fr0) # es))"
    and t1: "t1 - t0 \<le> reassemblyTTL"
  shows "case deliverFrames ((t0, sid, fr0) # es) r of (r', outs) \<Rightarrow>
     (\<forall>(e, out) \<in> set (zip ((t0, sid, fr0) # es) outs). own_frame sid frames e \<longrightarrow> out = None)
     \<and> snd (deliverFrame t1 sid fr1 r') = Some packet
     \<and> map_of (rGroups (fst (deliverFrame t1 sid fr1 r'))) (sid, pid) = None"
proof -
  define cs where "cs = chunks (nat n) packet"
  have fr: "frames = frames_of pid cs" and c: "concat cs = packet" and cs: "chunks_ok cs"
    using fragment_frames [OF frames(1)] frames(2) by (simp_all add: cs_def)
  obtain i where i: "i < length cs" "fr0 = frames_of pid cs ! i"
    using first by (auto simp: fr in_set_conv_nth)
  obtain l where l: "l < length cs" "fr1 = frames_of pid cs ! l"
    using last by (auto simp: fr in_set_conv_nth)
  let ?r = "fst (deliverFrame t0 sid fr0 r)" and ?A = "{i} \<union> arrived sid (frames_of pid cs) es"
  have p: "pending (sid, pid) t0 cs {i} ?r" "snd (deliverFrame t0 sid fr0 r) = None"
    using deliver_first [OF reasm_reach_ok [OF r(1)] r(2,3) cs i(1)] by (simp_all add: i)
  have A: "arrived sid (frames_of pid cs) ((t0, sid, fr0) # es) = ?A"
    using arrived_Cons(1) [OF cs i(1)] by (simp add: i)
  have lA: "l \<notin> ?A" unfolding A [symmetric] using once by (auto simp: arrived_def l)
  have lall: "{0..<length cs} \<subseteq> insert l ?A"
  proof
    fix j assume "j \<in> {0..<length cs}"
    then have j: "j < length cs" "frames_of pid cs ! j \<in> set frames" by (simp_all add: fr)
    show "j \<in> insert l ?A"
    proof (cases "frames_of pid cs ! j = fr1")
      case True
      with frames_of_inj [OF cs j(1) l(1)] l(2) show ?thesis by simp
    next
      case False
      with all j(2) obtain t where "(t, sid, frames_of pid cs ! j) \<in> set ((t0, sid, fr0) # es)" by metis
      then have "j \<in> arrived sid (frames_of pid cs) ((t0, sid, fr0) # es)"
        using j(1) unfolding arrived_def length_frames_of by (intro CollectI conjI exI)
      then show ?thesis unfolding A by simp
    qed
  qed
  have "\<not> {0..<length cs} \<subseteq> ?A" using lA l(1) by auto
  from deliverFrames_pending [OF cs p(1) es [unfolded fr] this]
  have q: "pending (sid, pid) t0 cs ?A (fst (deliverFrames es ?r))"
    "\<forall>(e, out) \<in> set (zip es (snd (deliverFrames es ?r))). own_frame sid frames e \<longrightarrow> out = None"
    by (simp_all add: fr)
  have d: "deliverFrames ((t0, sid, fr0) # es) r = (fst (deliverFrames es ?r), None # snd (deliverFrames es ?r))"
    using p(2) by (simp add: case_prod_unfold Let_def)
  have "map_of (rGroups (fst (deliverFrame t1 sid fr1 (fst (deliverFrames es ?r))))) (sid, pid) = None
    \<and> snd (deliverFrame t1 sid fr1 (fst (deliverFrames es ?r))) = Some packet"
    using deliver_own(2) [OF q(1) cs l(1) t1 lall lA] by (simp add: l(2) c)
  with q(2) show ?thesis unfolding d by simp
qed

lemma three_frames:
  "fragmentPacketSized [10, 20, 30] 7 1 = Inr
     [[0x57, 0x47, 0x51, 0x31, 1, 0, 0, 0, 0, 0, 0, 0, 7, 0, 0, 0, 3, 0, 0, 0, 3, 10],
      [0x57, 0x47, 0x51, 0x31, 1, 0, 0, 0, 0, 0, 0, 0, 7, 0, 1, 0, 3, 0, 0, 0, 3, 20],
      [0x57, 0x47, 0x51, 0x31, 1, 0, 0, 0, 0, 0, 0, 0, 7, 0, 2, 0, 3, 0, 0, 0, 3, 30]]"
  by code_simp

theorem reassembly_in_any_order_witness:
  "\<exists>frames. fragmentPacketSized [10, 20, 30] 7 1 = Inr frames \<and>
     (case deliverFrames [(0, 5, frames ! 2), (1, 9, frames ! 1), (2, 5, frames ! 2), (3, 5, frames ! 0)] newReassembler
      of (r', outs) \<Rightarrow> snd (deliverFrame 4 5 (frames ! 1) r') = Some [10, 20, 30])"
proof -
  let ?frames = "projr (fragmentPacketSized [10, 20, 30] 7 1)"
  let ?es = "[(1, 9, ?frames ! 1), (2, 5, ?frames ! 2), (3, 5, ?frames ! 0)]"
  have f: "fragmentPacketSized [10, 20, 30] 7 1 = Inr ?frames" by (simp add: three_frames)
  have es: "\<forall>e \<in> set ?es. fst e - 0 \<le> reassemblyTTL \<and> (own_frame 5 ?frames e \<or> foreign_frame 5 7 e)"
    unfolding three_frames by code_simp
  have "case deliverFrames ((0, 5, ?frames ! 2) # ?es) newReassembler of (r', outs) \<Rightarrow>
     (\<forall>(e, out) \<in> set (zip ((0, 5, ?frames ! 2) # ?es) outs). own_frame 5 ?frames e \<longrightarrow> out = None)
     \<and> snd (deliverFrame 4 5 (?frames ! 1) r') = Some [10, 20, 30]
     \<and> map_of (rGroups (fst (deliverFrame 4 5 (?frames ! 1) r'))) (5, 7) = None"
    by (rule reassembly_in_any_order [OF f _ reasm_init _ _ _ _ es])
      (auto simp: three_frames newReassembler_def frame_consts reassemblyTTL_def)
  with f show ?thesis by (auto intro!: exI [of _ ?frames])
qed

text \<open>C18.  \<open>parseFragment\<close> accepts exactly the encodings of well-formed fragments and returns the
  fragment that was encoded: it is injective and rejects everything else.\<close>

theorem parseFragment_exact: "parseFragment frame = Inr f \<longleftrightarrow> frag_ok f \<and> frame = encodeFragment f"
  using parse_encodeFragment parse_frag_ok parse_only_encodings by metis

text \<open>C19.  Fragmentation: \<open>fragmentPacketSized\<close> succeeds exactly when the datagram and the fragment size
  are in range and at most 128 fragments are needed; the frames then parse to fragments that carry, in
  order, consecutive chunks of the datagram of at most the fragment size, with its length as their total.\<close>

theorem fragmentPacketSized_correct:
  "case fragmentPacketSized packet pid n of
     Inr frames \<Rightarrow> \<exists>cs. concat cs = packet \<and> length frames = length cs \<and> length cs \<le> maxFragments
       \<and> (\<forall>c \<in> set cs. 0 < length c \<and> int (length c) \<le> n)
       \<and> (\<forall>i < length cs. parseFragment (frames ! i) = Inr \<lparr>packetID = pid, fragIndex = of_nat i,
            fragCount = of_nat (length cs), fragTotal = of_nat (length packet), fragData = cs ! i\<rparr>)
   | Inl e \<Rightarrow> packet = [] \<or> maxDatagramSize < length packet \<or> n \<le> 0 \<or> int maxFragmentData < n
       \<or> int maxFragments * n < int (length packet)"
proof (cases "fragmentPacketSized packet pid n")
  case (Inr frames)
  note f = fragmentPacketSized_Inr [OF Inr] and g = fragment_frames [OF Inr]
  let ?cs = "chunks (nat n) packet"
  have "0 < length c \<and> int (length c) \<le> n" if "c \<in> set ?cs" for c
    using chunk_sizes [of "nat n" c packet] that f(1) by linarith
  moreover have "frag_ok (frag_of pid ?cs i)" if "i < length ?cs" for i
    using fragments_from_ok [of "nat n" packet "frag_of pid ?cs i" pid] f(1-5) that
      fragments_from_frag_of [of pid ?cs] by (simp add: g(2))
  then have "parseFragment (frames ! i) = Inr (frag_of pid ?cs i)" if "i < length ?cs" for i
    using that by (simp add: g(1) frames_of_def parse_encodeFragment)
  ultimately show ?thesis
    using f(5) Inr g(1,2) by (auto simp: frag_of_def maxFragments_def intro!: exI [of _ ?cs])
next
  case (Inl e)
  have "int 128 * n < int (length packet)" if "0 < n" "\<not> (length packet + nat n - 1) div nat n \<le> 128"
  proof -
    have "129 * nat n \<le> length packet + nat n - 1"
      using that less_eq_div_iff_mult_less_eq [of "nat n" 129 "length packet + nat n - 1"] by simp
    with that(1) show ?thesis by linarith
  qed
  with Inl show ?thesis
    by (auto simp: fragmentPacketSized_def Let_def frame_consts split: if_splits)
qed

theorem fragmentPacketSized_correct_witness:
  "\<exists>frames cs. fragmentPacketSized [10, 20, 30] 7 1 = Inr frames \<and> concat cs = [10, 20, 30 :: byte] \<and> length frames = length cs"
proof -
  obtain frames where f: "fragmentPacketSized [10, 20, 30] 7 1 = Inr frames" using three_frames by blast
  then obtain cs where "concat cs = [10, 20, 30 :: byte]" "length frames = length cs"
    using fragmentPacketSized_correct [of "[10, 20, 30]" 1 7] by auto
  with f show ?thesis by blast
qed

text \<open>Expiry is exact: after \<open>expire\<close> the reassembler holds precisely the groups that are no
  older than the lifetime, unchanged, and the expiry queue still holds exactly the groups.\<close>

theorem expire_exact:
  assumes "reasm_reach r"
  shows "rGroups (reassembler_expire now r) = filter (\<lambda>(k, g). now - rCreated g \<le> reassemblyTTL) (rGroups r)
     \<and> pq_elems (rExpiry (reassembler_expire now r)) = queue_of (rGroups (reassembler_expire now r))"
  using expireLocked_spec [OF reasm_reach_ok [OF assms], of now] reasm_okD(3)
  by (simp add: reassembler_expire_def fresh_at_def)

definition sample_frame :: bytes where
  "sample_frame = [0x57, 0x47, 0x51, 0x31, 1, 0, 0, 0, 0, 0, 0, 0, 7, 0, 1, 0, 3, 0, 0, 0, 3, 20]"

definition sample_fragment :: fragment where
  "sample_fragment = \<lparr>packetID = 7, fragIndex = 1, fragCount = 3, fragTotal = 3, fragData = [20]\<rparr>"

definition sample_reassembler :: reassembler where
  "sample_reassembler = fst (reassembler_add 0 5 sample_fragment newReassembler)"

lemma sample_parses: "parseFragment sample_frame = Inr sample_fragment"
  by code_simp

lemma sample_reach: "reasm_reach sample_reassembler"
  unfolding sample_reassembler_def by (rule reasm_frame [OF reasm_init sample_parses])

theorem expire_exact_witness:
  "length (rGroups sample_reassembler) = 1 \<and> rGroups (reassembler_expire (4 * second) sample_reassembler) = []"
proof
  show "length (rGroups sample_reassembler) = 1" by code_simp
  have "filter (\<lambda>(k, g). 4 * second - rCreated g \<le> reassemblyTTL) (rGroups sample_reassembler) = []" by code_simp
  with expire_exact [OF sample_reach, of "4 * second"]
  show "rGroups (reassembler_expire (4 * second) sample_reassembler) = []" by simp
qed

text \<open>C20.  Bounded memory and safety: however frames, ticks and session ends interleave, the reassembler
  never holds more than 2048 incomplete datagrams nor more than 2048 times 65535 bytes, its counters
  agree with the stored shards, and adding a parsed fragment never indexes out of range and delivers
  only datagrams of the announced length.\<close>

theorem reassembler_safe:
  assumes "reasm_reach r" "parseFragment frame = Inr f"
  shows "length (rGroups r) \<le> maxReassemblies \<and> buffered r \<le> maxReassemblies * maxDatagramSize
     \<and> (\<forall>(k, g) \<in> set (rGroups r). rSeen g = shards_present (rShards g) \<and> rBytes g = shard_bytes (rShards g)
          \<and> rSeen g < unat (rCount g))
     \<and> snd (reassembler_add now sid f r) \<noteq> Inl IndexOutOfRange
     \<and> (\<forall>p. snd (reassembler_add now sid f r) = Inr (Some p) \<longrightarrow> length p = unat (fragTotal f))"
proof -
  note ok = reasm_reach_ok [OF assms(1)]
  have "group_ok g" if "(k, g) \<in> set (rGroups r)" for k g
    using that ok by (metis map_of_in_set reasm_okD(1,5))
  then have "\<forall>(k, g) \<in> set (rGroups r). rSeen g = shards_present (rShards g)
      \<and> rBytes g = shard_bytes (rShards g) \<and> rSeen g < unat (rCount g)"
    by (auto simp: group_ok_def)
  with reasm_okD(4) [OF ok] buffered_bound [OF ok] reassembler_add_ok [OF ok parse_frag_ok [OF assms(2)]]
  show ?thesis by blast
qed

theorem reassembler_safe_witness:
  "parseFragment sample_frame = Inr sample_fragment \<and> buffered sample_reassembler \<le> maxReassemblies * maxDatagramSize
   \<and> snd (reassembler_add 1 5 sample_fragment sample_reassembler) \<noteq> Inl IndexOutOfRange"
  using reassembler_safe [OF sample_reach sample_parses, of 1 5] sample_parses by blast

text \<open>The end of a session discards exactly its own incomplete datagrams.\<close>

theorem discardSession_exact:
  assumes "reasm_reach r"
  shows "rGroups (discardSession sid r) = filter (\<lambda>(k, g). fst k \<noteq> sid) (rGroups r)
     \<and> pq_elems (rExpiry (discardSession sid r)) = queue_of (rGroups (discardSession sid r))"
  using discardSession_spec [OF reasm_reach_ok [OF assms]] reasm_okD(3) by blast

theorem discardSession_exact_witness:
  "length (rGroups sample_reassembler) = 1 \<and> rGroups (discardSession 5 sample_reassembler) = []"
proof
  show "length (rGroups sample_reassembler) = 1" by code_simp
  have "filter (\<lambda>(k, g). fst k \<noteq> 5) (rGroups sample_reassembler) = []" by code_simp
  with discardSession_exact [OF sample_reach, of 5]
  show "rGroups (discardSession 5 sample_reassembler) = []" by simp
qed

text \<open>A datagram framed in place by \<open>framePreparedPacket\<close> carries the same single fragment as
  fragmenting its payload would, whenever the payload fits one fragment.\<close>

theorem framePreparedPacket_single:
  assumes "frameHeaderSize < length frame" "length frame \<le> frameHeaderSize + maxFragmentData"
  shows "map_sum id (\<lambda>fr. [fr]) (framePreparedPacket frame pid) = fragmentPacket (drop frameHeaderSize frame) pid"
proof -
  let ?d = "drop frameHeaderSize frame"
  have d: "?d \<noteq> []" "length ?d \<le> 4075" using assms by (simp_all add: frame_consts)
  have n: "(length ?d + 4075 - 1) div 4075 = 1" using d by (intro div_nat_eqI) (cases ?d; simp)+
  have f: "fragmentPacketSized ?d pid 4075 = Inr (fragment_loop ?d pid 4075 1 0 0)"
    using d n by (simp add: fragmentPacketSized_def Let_def frame_consts del: length_drop)
  have "chunks 4075 ?d = [?d]" using d by (simp add: chunks.simps [of _ ?d])
  then have "fragment_loop ?d pid 4075 1 0 0 = [encodeFragment (frag_of pid [?d] 0)]"
    by (simp add: fragment_loop_chunks fragments_from_def frag_of_def)
  moreover have "writeFragmentHeader frame pid 0 1 (of_int (int (length frame) - int frameHeaderSize))
      = encodeFragment (frag_of pid [?d] 0)"
    using assms(1) by (simp add: writeFragmentHeader_def encodeFragment_def frag_of_def of_nat_diff)
  ultimately show ?thesis
    using assms f by (simp add: fragmentPacket_def framePreparedPacket_def Let_def frame_consts)
qed

theorem framePreparedPacket_single_witness:
  "map_sum id (\<lambda>fr. [fr]) (framePreparedPacket (replicate 21 0 @ [20, 30]) 7) = fragmentPacket [20, 30] 7"
  using framePreparedPacket_single [of "replicate 21 0 @ [20, 30]" 7] by (simp add: frame_consts)

lemma le_get32_iff: "4 \<le> length p \<Longrightarrow> le_get32 (take 4 p) = w \<longleftrightarrow> take 4 p = rev (put32 w)"
  using put_get(2) [of "rev (take 4 p)"] get_put(2) [of w] by (auto simp: le_get32_def)

lemma wireguard_types:
  "rev (put32 1) = [1, 0, 0, 0]" "rev (put32 2) = [2, 0, 0, 0]" "rev (put32 3) = [3, 0, 0, 0]"
  "rev (put32 4) = [4, 0, 0, 0]"
  by code_simp+

text \<open>Keepalives (type 4, 32 bytes) are exactly the priority datagrams, every priority datagram
  is a control datagram, and no transport datagram with a payload is one.\<close>

theorem control_classification:
  "(priorityWireGuardDatagram p \<longleftrightarrow> length p = 32 \<and> take 4 p = [4, 0, 0, 0])
   \<and> (controlWireGuardDatagram p \<longleftrightarrow>
       (length p, take 4 p) \<in> {(148, [1, 0, 0, 0]), (92, [2, 0, 0, 0]), (64, [3, 0, 0, 0]), (32, [4, 0, 0, 0])})"
proof (cases "length p < 4")
  case True
  then show ?thesis by (auto simp: priorityWireGuardDatagram_def controlWireGuardDatagram_def)
next
  case False
  then have "le_get32 (take 4 p) = w \<longleftrightarrow> take 4 p = rev (put32 w)" for w by (simp add: le_get32_iff)
  with False show ?thesis
    by (simp add: priorityWireGuardDatagram_def controlWireGuardDatagram_def Let_def wireguard_types)
qed

end
