(* ===== verification/Fec_Wire.thy ===== *)
theory Fec_Wire
  imports Framing
begin

text \<open>
  The FEC wire format of \<open>internal/transport/fec/wire.go\<close>: a 24-byte header in front of data, parity,
  close and feedback packets, and the feedback packets of \<open>controller.go\<close> and \<open>decoder.go\<close>.
\<close>

definition DefaultDataShards :: nat where
  "DefaultDataShards = 8"

definition MaxDataShards :: nat where
  "MaxDataShards = 32"

definition MaxParityShards :: nat where
  "MaxParityShards = 8"

definition MaxFrameSize :: nat where
  "MaxFrameSize = 4096"

definition MaxInterleave :: nat where
  "MaxInterleave = 4"

definition healthyProbeFrames :: nat where
  "healthyProbeFrames = 4096"

lemmas fec_consts = DefaultDataShards_def MaxDataShards_def MaxParityShards_def MaxFrameSize_def
  MaxInterleave_def healthyProbeFrames_def

definition headerSize :: nat where
  "headerSize = 24"

definition DataPacketOverhead :: nat where
  "DataPacketOverhead = headerSize + 2"

definition fec_magic :: bytes where
  "fec_magic = [0x57, 0x47, 0x51, 0x46]"

datatype Kind = KindData | KindParity | KindClose | KindFeedback

fun kind_byte :: "Kind \<Rightarrow> byte" where
  "kind_byte KindData = 0"
| "kind_byte KindParity = 1"
| "kind_byte KindClose = 2"
| "kind_byte KindFeedback = 3"

definition kind_of_byte :: "byte \<Rightarrow> Kind option" where
  "kind_of_byte b =
     (if b = 0 then Some KindData else if b = 1 then Some KindParity
      else if b = 2 then Some KindClose else if b = 3 then Some KindFeedback else None)"

record packet =
  p_kind :: Kind
  p_epoch :: u16
  p_groupID :: u64
  p_index :: u16
  p_k :: u16
  p_r :: u16
  p_payload :: bytes

datatype wire_error =
    ShorterThanHeader
  | UnsupportedVersion
  | UnknownKind
  | PayloadLengthMismatch
  | PayloadExceedsLimit

text \<open>The three results of \<open>parsePacket\<close>: not an FEC packet at all (\<open>handled = false\<close>), an FEC packet
  that is malformed, and a packet.\<close>

datatype parsed = NotFec | Malformed wire_error | Parsed packet

definition marshalPacket :: "packet \<Rightarrow> bytes" where
  "marshalPacket p =
     fec_magic @ [1] @ [kind_byte (p_kind p)] @ put16 (p_epoch p) @ put64 (p_groupID p) @ put16 (p_index p)
     @ put16 (p_k p) @ put16 (p_r p) @ put16 (of_nat (length (p_payload p))) @ p_payload p"

definition parsePacket :: "bytes \<Rightarrow> parsed" where
  "parsePacket data =
     (if length data < 4 \<or> subslice 0 4 data \<noteq> fec_magic then NotFec
      else if length data < headerSize then Malformed ShorterThanHeader
      else if data ! 4 \<noteq> 1 then Malformed UnsupportedVersion
      else case kind_of_byte (data ! 5) of
        None \<Rightarrow> Malformed UnknownKind
      | Some kind \<Rightarrow>
          let payloadLen = unat (get16 (subslice 22 24 data))
          in if payloadLen \<noteq> length data - headerSize then Malformed PayloadLengthMismatch
             else if payloadLen > MaxFrameSize + 2 then Malformed PayloadExceedsLimit
             else Parsed \<lparr>p_kind = kind, p_epoch = get16 (subslice 6 8 data), p_groupID = get64 (subslice 8 16 data),
                          p_index = get16 (subslice 16 18 data), p_k = get16 (subslice 18 20 data),
                          p_r = get16 (subslice 20 22 data), p_payload = drop headerSize data\<rparr>)"

definition PacketKind :: "bytes \<Rightarrow> Kind option" where
  "PacketKind data = (case parsePacket data of Parsed p \<Rightarrow> Some (p_kind p) | _ \<Rightarrow> None)"

record Feedback =
  fb_epoch :: u16
  fb_groupID :: u64
  fb_missing :: u16
  fb_recovered :: u16
  fb_total :: u16

definition MarshalFeedback :: "Feedback \<Rightarrow> bytes" where
  "MarshalFeedback f =
     marshalPacket \<lparr>p_kind = KindFeedback, p_epoch = fb_epoch f, p_groupID = fb_groupID f,
       p_index = fb_missing f, p_k = fb_total f, p_r = fb_recovered f, p_payload = []\<rparr>"

definition validFeedback :: "u16 \<Rightarrow> u16 \<Rightarrow> u16 \<Rightarrow> bool" where
  "validFeedback tot missing recovered =
     (if tot = 0 then missing \<le> 1 \<and> recovered = 0
      else unat tot \<le> MaxDataShards \<and> recovered \<le> missing \<and> missing \<le> tot)"

definition feedback_valid :: "Feedback \<Rightarrow> bool" where
  "feedback_valid f \<longleftrightarrow> validFeedback (fb_total f) (fb_missing f) (fb_recovered f)"

section \<open>Packets are parsed back\<close>

lemma kind_of_byte_kind [simp]: "kind_of_byte (kind_byte k) = Some k"
  by (cases k) (simp_all add: kind_of_byte_def)

lemma kind_byte_of [simp]: "kind_of_byte b = Some k \<Longrightarrow> kind_byte k = b"
  by (auto simp: kind_of_byte_def split: if_splits)

lemma length_fec_magic [simp]: "length fec_magic = 4"
  by (simp add: fec_magic_def)

lemma marshal_slices:
  "length (marshalPacket p) = headerSize + length (p_payload p)"
  "subslice 0 4 (marshalPacket p) = fec_magic" "marshalPacket p ! 4 = 1" "marshalPacket p ! 5 = kind_byte (p_kind p)"
  "subslice 6 8 (marshalPacket p) = put16 (p_epoch p)" "subslice 8 16 (marshalPacket p) = put64 (p_groupID p)"
  "subslice 16 18 (marshalPacket p) = put16 (p_index p)" "subslice 18 20 (marshalPacket p) = put16 (p_k p)"
  "subslice 20 22 (marshalPacket p) = put16 (p_r p)"
  "subslice 22 24 (marshalPacket p) = put16 (of_nat (length (p_payload p)))"
  "drop headerSize (marshalPacket p) = p_payload p"
  by (simp_all add: marshalPacket_def subslice_def nth_append headerSize_def)

lemma parse_marshalPacket: "length (p_payload p) \<le> MaxFrameSize + 2 \<Longrightarrow> parsePacket (marshalPacket p) = Parsed p"
proof -
  assume l: "length (p_payload p) \<le> MaxFrameSize + 2"
  then have "unat (of_nat (length (p_payload p)) :: u16) = length (p_payload p)"
    by (simp add: MaxFrameSize_def unat_of_nat)
  with l show ?thesis
    by (simp add: parsePacket_def marshal_slices Let_def) (simp add: headerSize_def)
qed

lemma parse_limit: "parsePacket data = Parsed p \<Longrightarrow> length (p_payload p) \<le> MaxFrameSize + 2"
  by (auto simp: parsePacket_def Let_def split: if_splits option.splits)

lemma parse_only_marshalled: "parsePacket data = Parsed p \<Longrightarrow> data = marshalPacket p"
proof -
  assume p: "parsePacket data = Parsed p"
  then have l: "24 \<le> length data" "subslice 0 4 data = fec_magic" "data ! 4 = 1" "kind_of_byte (data ! 5) = Some (p_kind p)"
    and n: "unat (get16 (subslice 22 24 data)) = length data - 24"
    and f: "p = \<lparr>p_kind = p_kind p, p_epoch = get16 (subslice 6 8 data), p_groupID = get64 (subslice 8 16 data),
                 p_index = get16 (subslice 16 18 data), p_k = get16 (subslice 18 20 data),
                 p_r = get16 (subslice 20 22 data), p_payload = drop 24 data\<rparr>"
    by (auto simp: parsePacket_def Let_def headerSize_def split: if_splits option.splits)
  have one: "subslice 4 5 data = [1]" "subslice 5 6 data = [kind_byte (p_kind p)]"
    using l by (simp_all add: subslice_def take_Suc hd_drop_conv_nth)
  have "of_nat (length data - 24) = get16 (subslice 22 24 data)" unfolding n [symmetric] by simp
  then have len: "put16 (of_nat (length data - 24)) = subslice 22 24 data" using l(1) by (simp del: of_nat_diff)
  have "marshalPacket p = subslice 0 4 data @ subslice 4 5 data @ subslice 5 6 data @ subslice 6 8 data
      @ subslice 8 16 data @ subslice 16 18 data @ subslice 18 20 data @ subslice 20 22 data
      @ subslice 22 24 data @ drop 24 data"
    using l(1) by (subst f) (simp add: marshalPacket_def len l(2) one del: of_nat_diff)
  also have "\<dots> = subslice 0 24 data @ drop 24 data"
    using slice_join [of 0 4 5 data] slice_join [of 0 5 6 data] slice_join [of 0 6 8 data]
      slice_join [of 0 8 16 data] slice_join [of 0 16 18 data] slice_join [of 0 18 20 data]
      slice_join [of 0 20 22 data] slice_join [of 0 22 24 data]
    by (simp add: append_assoc [symmetric] del: append_assoc)
  also have "\<dots> = data" by (simp add: subslice_def)
  finally show ?thesis by simp
qed

section \<open>Properties of the wire format\<close>

text \<open>C21.  \<open>parsePacket\<close> accepts exactly the marshalled packets whose payload is within the receiver
  limit, and returns the packet that was marshalled.\<close>

theorem parsePacket_exact:
  "parsePacket data = Parsed p \<longleftrightarrow> length (p_payload p) \<le> MaxFrameSize + 2 \<and> data = marshalPacket p"
  using parse_marshalPacket parse_limit parse_only_marshalled by metis

lemma magic_differ: "frameMagic \<noteq> fec_magic"
  by (simp add: frameMagic_def fec_magic_def)

text \<open>C22.  The two formats that share the carrier never collide: a WGQ1 frame sent without protection
  is not taken for an FEC packet, and an FEC packet is not taken for a frame.\<close>

theorem formats_disjoint:
  "(parseFragment d = Inr f \<longrightarrow> parsePacket d = NotFec)
   \<and> (parsePacket d = Parsed p \<longrightarrow> parseFragment d \<in> {Inl BadMagicOrVersion, Inl FrameTooShort})"
  using magic_differ parse_only_encodings [of d f] parse_only_marshalled [of d p]
  by (auto simp: parsePacket_def [of d] parseFragment_def [of d] encode_slices marshal_slices Let_def)

definition sample_close :: packet where
  "sample_close = \<lparr>p_kind = KindClose, p_epoch = 1, p_groupID = 9, p_index = 0, p_k = 2, p_r = 1, p_payload = []\<rparr>"

theorem formats_disjoint_witness:
  "parsePacket sample_frame = NotFec
   \<and> parseFragment (marshalPacket sample_close) \<in> {Inl BadMagicOrVersion, Inl FrameTooShort}"
  using formats_disjoint [of sample_frame sample_fragment sample_close] sample_parses
    formats_disjoint [of "marshalPacket sample_close" sample_fragment sample_close]
    parse_marshalPacket [of sample_close] by (simp add: sample_close_def)

end
