(* ===== verification/Fec_Codec.thy ===== *)
theory Fec_Codec
  imports Fec_Wire
begin

unbundle bit_operations_syntax

text \<open>
  The Reed-Solomon codecs of \<open>internal/transport/fec/codec.go\<close>.  The library
  \<open>github.com/klauspost/reedsolomon\<close> is the parameter \<open>rs_lib\<close>: whether \<open>New\<close> accepts the
  dimensions, what \<open>Encode\<close> computes for the data shards, and what \<open>ReconstructData\<close> makes of a
  list of shards in which the empty ones are missing.  The Boolean argument of the last tells whether
  the instance was built with the inversion cache.  What the program relies on is \<open>rs_mds\<close>.
\<close>

record rs_lib =
  rs_new :: "nat \<Rightarrow> nat \<Rightarrow> bool"
  rs_encode :: "nat \<Rightarrow> nat \<Rightarrow> bytes list \<Rightarrow> bytes list option"
  rs_reconstruct :: "bool \<Rightarrow> nat \<Rightarrow> nat \<Rightarrow> bytes list \<Rightarrow> bytes list option"

type_synonym codecDimensions = "nat \<times> nat"

text \<open>A codec of the cache: a library instance with inversion caching, or the pair of instances of
  \<open>limitedInversionCodec\<close> with the erasure patterns the cached one has seen.\<close>

datatype codec = PlainCodec | LimitedCodec "u64 list"

type_synonym codecs = "(codecDimensions \<times> codec) list"

text \<open>The loop of \<open>boundedInversionPatterns\<close>, from its loop variable on.\<close>

function bounded_loop :: "nat \<Rightarrow> nat \<Rightarrow> nat \<Rightarrow> nat \<Rightarrow> nat \<Rightarrow> bool" where
  "bounded_loop data parity lost combinations patterns =
     (if lost > parity then True
      else let combinations = combinations * (data + parity - lost + 1) div lost;
               patterns = patterns + combinations
           in if patterns > 512 then False else bounded_loop data parity (lost + 1) combinations patterns)"
  by pat_completeness auto
termination
  by (relation "measure (\<lambda>(data, parity, lost, combinations, patterns). Suc parity - lost)") auto

declare bounded_loop.simps [simp del]

definition boundedInversionPatterns :: "nat \<Rightarrow> nat \<Rightarrow> bool" where
  "boundedInversionPatterns data parity = bounded_loop data parity 1 1 0"

definition cachedCodec :: "rs_lib \<Rightarrow> codecs \<Rightarrow> nat \<Rightarrow> nat \<Rightarrow> codecs \<times> codec option" where
  "cachedCodec lib cache data parity =
     (case map_of cache (data, parity) of
        Some codec \<Rightarrow> (cache, Some codec)
      | None \<Rightarrow>
          if \<not> rs_new lib data parity then (cache, None)
          else let codec = (if boundedInversionPatterns data parity then PlainCodec else LimitedCodec [])
               in (AList.update (data, parity) codec cache, Some codec))"

definition maxCachedPatterns :: nat where
  "maxCachedPatterns = 128"

definition erasure_pattern :: "bytes list \<Rightarrow> u64" where
  "erasure_pattern shards =
     foldl (\<lambda>pattern (i, shard). if shard = [] then pattern OR push_bit i 1 else pattern) 0
       (enumerate 0 shards)"

definition limited_ReconstructData ::
  "rs_lib \<Rightarrow> nat \<Rightarrow> nat \<Rightarrow> u64 list \<Rightarrow> bytes list \<Rightarrow> u64 list \<times> bytes list option" where
  "limited_ReconstructData lib data parity patterns shards =
     (let pattern = erasure_pattern shards
      in if pattern \<in> set patterns \<or> length patterns < maxCachedPatterns
         then (case rs_reconstruct lib True data parity shards of
                 None \<Rightarrow> (patterns, None)
               | Some out \<Rightarrow> (List.insert pattern patterns, Some out))
         else (patterns, rs_reconstruct lib False data parity shards))"

text \<open>\<open>codec.ReconstructData\<close> on the interface value: the codec is a pointer, so the new pattern set is
  visible through the cache.\<close>

definition codec_ReconstructData ::
  "rs_lib \<Rightarrow> nat \<Rightarrow> nat \<Rightarrow> codec \<Rightarrow> codecs \<Rightarrow> bytes list \<Rightarrow> codecs \<times> bytes list option" where
  "codec_ReconstructData lib data parity codec cache shards =
     (case codec of
        PlainCodec \<Rightarrow> (cache, rs_reconstruct lib True data parity shards)
      | LimitedCodec patterns \<Rightarrow>
          let (patterns', out) = limited_ReconstructData lib data parity patterns shards
          in (AList.update (data, parity) (LimitedCodec patterns') cache, out))"

definition codec_Encode :: "rs_lib \<Rightarrow> nat \<Rightarrow> nat \<Rightarrow> bytes list \<Rightarrow> bytes list option" where
  "codec_Encode lib data parity shards = rs_encode lib data parity shards"

section \<open>The count of erasure patterns\<close>

lemma choose_step:
  assumes "0 < l" "l \<le> n"
  shows "(n choose (l - 1)) * (n - l + 1) div l = n choose l"
proof -
  obtain m where m: "l = Suc m" using assms(1) by (cases l) auto
  have "Suc m * (n choose Suc m) = (n - m) * (n choose m)"
    by (simp only: binomial_absorption binomial_absorb_comp)
  moreover have "n - l + 1 = n - m" using assms(2) m by simp
  ultimately have "(n choose (l - 1)) * (n - l + 1) = Suc m * (n choose Suc m)" by (simp only: m diff_Suc_1 mult.commute)
  then show ?thesis unfolding m by (simp only:) (rule nonzero_mult_div_cancel_left, simp)
qed

lemma bounded_loop_sum:
  "1 \<le> lost \<Longrightarrow> lost \<le> Suc parity \<Longrightarrow> combinations = (data + parity) choose (lost - 1) \<Longrightarrow>
   patterns = (\<Sum>l = 1..<lost. (data + parity) choose l) \<Longrightarrow> patterns \<le> 512 \<Longrightarrow>
   bounded_loop data parity lost combinations patterns
     \<longleftrightarrow> (\<Sum>l = 1..parity. (data + parity) choose l) \<le> 512"
proof (induction data parity lost combinations patterns rule: bounded_loop.induct)
  case (1 data parity lost combinations patterns)
  show ?case
  proof (cases "lost > parity")
    case True
    then have "lost = Suc parity" using 1 by simp
    with True 1 show ?thesis by (simp add: bounded_loop.simps atLeastLessThanSuc_atLeastAtMost)
  next
    case False
    let ?c = "combinations * (data + parity - lost + 1) div lost"
    have c: "?c = (data + parity) choose lost"
      using choose_step [of lost "data + parity"] 1 False by simp
    have p: "patterns + ?c = (\<Sum>l = 1..<Suc lost. (data + parity) choose l)"
      using 1(2,5) unfolding c by simp
    show ?thesis
    proof (cases "patterns + ?c > 512")
      case True
      have "(\<Sum>l = 1..<Suc lost. (data + parity) choose l) \<le> (\<Sum>l = 1..parity. (data + parity) choose l)"
        using False by (intro sum_mono2) auto
      with True False p show ?thesis by (simp add: bounded_loop.simps [of data parity lost] Let_def)
    next
      case small: False
      have "bounded_loop data parity lost combinations patterns
          = bounded_loop data parity (lost + 1) ?c (patterns + ?c)"
        using False small by (subst bounded_loop.simps) (simp only: Let_def if_False)
      moreover have "bounded_loop data parity (lost + 1) ?c (patterns + ?c)
          \<longleftrightarrow> (\<Sum>l = 1..parity. (data + parity) choose l) \<le> 512"
        by (rule 1(1) [OF False refl refl small]) (use 1(2,3) False c p small in simp_all)
      ultimately show ?thesis by simp
    qed
  qed
qed

lemma bounded_patterns: "boundedInversionPatterns data parity \<longleftrightarrow> (\<Sum>l = 1..parity. (data + parity) choose l) \<le> 512"
  unfolding boundedInversionPatterns_def by (rule bounded_loop_sum) simp_all

section \<open>What the program relies on of the library\<close>

text \<open>The shards a receiver may hold of a codeword: those missing are empty, at least \<open>k\<close> are present.\<close>

definition survivors :: "nat \<Rightarrow> bytes list \<Rightarrow> bytes list \<Rightarrow> bool" where
  "survivors k word shards \<longleftrightarrow>
     length shards = length word \<and> (\<forall>i < length word. shards ! i = [] \<or> shards ! i = word ! i)
     \<and> k \<le> length (filter (\<lambda>s. s \<noteq> []) shards)"

text \<open>A systematic code with \<open>k\<close> data and \<open>r\<close> parity shards of one length, any \<open>k\<close> of which
  determine the data, with the same answer whether inversions are cached or not.\<close>

definition rs_mds :: "rs_lib \<Rightarrow> nat \<Rightarrow> nat \<Rightarrow> bool" where
  "rs_mds lib k r \<longleftrightarrow> rs_new lib k r
     \<and> (\<forall>n data. 0 < n \<longrightarrow> length data = k \<longrightarrow> (\<forall>d \<in> set data. length d = n) \<longrightarrow>
          (\<exists>par. rs_encode lib k r data = Some par \<and> length par = r \<and> (\<forall>d \<in> set par. length d = n)
             \<and> (\<forall>c shards. survivors k (data @ par) shards \<longrightarrow>
                  (\<exists>out. rs_reconstruct lib c k r shards = Some out \<and> take k out = data))))"

lemma rs_mdsD:
  assumes "rs_mds lib k r" "0 < n" "length data = k" "\<forall>d \<in> set data. length d = n"
  obtains par where "rs_encode lib k r data = Some par" "length par = r" "\<forall>d \<in> set par. length d = n"
    "\<And>c shards. survivors k (data @ par) shards \<Longrightarrow>
       \<exists>out. rs_reconstruct lib c k r shards = Some out \<and> take k out = data"
  using assms unfolding rs_mds_def by metis

section \<open>The cache of codecs\<close>

definition codecs_ok :: "codecs \<Rightarrow> bool" where
  "codecs_ok cache \<longleftrightarrow> gomap_ok cache
     \<and> (\<forall>k r c. map_of cache (k, r) = Some c \<longrightarrow>
          (case c of PlainCodec \<Rightarrow> boundedInversionPatterns k r
           | LimitedCodec ps \<Rightarrow> \<not> boundedInversionPatterns k r \<and> distinct ps \<and> length ps \<le> maxCachedPatterns))"

lemma codecs_ok_empty [simp]: "codecs_ok []"
  by (simp add: codecs_ok_def)

lemma cachedCodec_ok:
  assumes "codecs_ok cache"
  shows "codecs_ok (fst (cachedCodec lib cache k r))
     \<and> (\<forall>c. snd (cachedCodec lib cache k r) = Some c \<longrightarrow> map_of (fst (cachedCodec lib cache k r)) (k, r) = Some c)"
  using assms
  by (auto simp: cachedCodec_def codecs_ok_def Let_def gomap_lookup_update split: option.splits if_splits)

lemma codec_ReconstructData_ok:
  assumes ok: "codecs_ok cache" and c: "map_of cache (k, r) = Some c"
  shows "codecs_ok (fst (codec_ReconstructData lib k r c cache shards))"
proof (cases c)
  case PlainCodec
  with ok show ?thesis by (simp add: codec_ReconstructData_def)
next
  case (LimitedCodec ps)
  define q where "q = fst (limited_ReconstructData lib k r ps shards)"
  have "case c of PlainCodec \<Rightarrow> boundedInversionPatterns k r
     | LimitedCodec ps \<Rightarrow> \<not> boundedInversionPatterns k r \<and> distinct ps \<and> length ps \<le> maxCachedPatterns"
    using ok c unfolding codecs_ok_def by blast
  then have ps: "\<not> boundedInversionPatterns k r" "distinct ps" "length ps \<le> maxCachedPatterns"
    by (simp_all add: LimitedCodec)
  then have "distinct q \<and> length q \<le> maxCachedPatterns"
    by (auto simp: q_def limited_ReconstructData_def Let_def List.insert_def split: option.splits)
  with ok ps(1) LimitedCodec show ?thesis
    by (auto simp: codec_ReconstructData_def codecs_ok_def gomap_lookup_update q_def case_prod_unfold Let_def)
qed

lemma codec_ReconstructData_mds:
  assumes "\<And>c. rs_reconstruct lib c k r shards = Some (out c) \<and> take k (out c) = data"
  shows "\<exists>o'. snd (codec_ReconstructData lib k r c cache shards) = Some o' \<and> take k o' = data"
  using assms by (auto simp: codec_ReconstructData_def limited_ReconstructData_def Let_def split: codec.splits)

section \<open>A library that meets the contract: one parity shard\<close>

definition xors :: "nat \<Rightarrow> bytes list \<Rightarrow> bytes" where
  "xors n shards = map (\<lambda>j. foldr (\<lambda>d a. d ! j XOR a) shards 0) [0..<n]"

definition xor_lib :: rs_lib where
  "xor_lib = \<lparr>rs_new = (\<lambda>k r. 0 < k \<and> r = 1),
     rs_encode = (\<lambda>k r data. Some [xors (length (hd data)) data]),
     rs_reconstruct = (\<lambda>c k r shards.
       let present = filter (\<lambda>s. s \<noteq> []) shards
       in if length present < k then None
          else Some (map (\<lambda>s. if s = [] then xors (length (hd present)) present else s) shards))\<rparr>"

lemma foldr_xor_append:
  "foldr (\<lambda>d a. f d XOR a) (xs @ ys) (0 :: byte) = foldr (\<lambda>d a. f d XOR a) xs 0 XOR foldr (\<lambda>d a. f d XOR a) ys 0"
  by (induction xs) (simp_all add: ac_simps)

lemma xor_zero_eq: "a XOR b = 0 \<Longrightarrow> b = (a :: byte)"
proof -
  assume "a XOR b = 0"
  moreover have "b = a XOR (a XOR b)" by (simp add: xor.assoc [symmetric])
  ultimately show "b = a" by simp
qed

lemma xors_rest:
  assumes par: "par = xors n data" and split: "data @ [par] = a @ x # b" and x: "length x = n"
  shows "xors n (a @ b) = x"
proof (rule nth_equalityI)
  show "length (xors n (a @ b)) = length x" using x by (simp add: xors_def)
  fix j assume "j < length (xors n (a @ b))"
  then have j: "j < n" by (simp add: xors_def)
  let ?s = "\<lambda>xs. foldr (\<lambda>d a. d ! j XOR a) xs (0 :: byte)"
  have p: "par ! j = ?s data" using j par by (simp add: xors_def)
  have "?s (data @ [par]) = 0" unfolding foldr_xor_append by (simp add: p)
  then have "?s (a @ x # b) = 0" by (simp only: split)
  then have "?s a XOR (x ! j XOR ?s b) = 0" unfolding foldr_xor_append by simp
  then have "x ! j XOR (?s a XOR ?s b) = 0" by (subst xor.left_commute)
  then have "?s (a @ b) = x ! j" unfolding foldr_xor_append by (rule xor_zero_eq)
  with j show "xors n (a @ b) ! j = x ! j" by (simp add: xors_def)
qed

lemma survivors_one_missing:
  assumes s: "survivors k word shards" and w: "length word = Suc k" "\<forall>d \<in> set word. d \<noteq> []"
  shows "shards = word \<or> (\<exists>a x b. word = a @ x # b \<and> shards = a @ [] # b)"
proof (cases "[] \<in> set shards")
  case False
  have "shards = word"
  proof (rule nth_equalityI)
    show "length shards = length word" using s by (simp add: survivors_def)
    fix i assume i: "i < length shards"
    then have "shards ! i \<noteq> []" using False nth_mem by metis
    with s i show "shards ! i = word ! i" by (auto simp: survivors_def)
  qed
  then show ?thesis by blast
next
  case True
  then obtain a b where ab: "shards = a @ [] # b" using split_list by fastforce
  have l: "length shards = Suc k" using s w by (simp add: survivors_def)
  have "length (filter (\<lambda>s. s \<noteq> []) a) + length (filter (\<lambda>s. s \<noteq> []) b) \<ge> k"
    using s by (simp add: survivors_def ab)
  moreover have "length a + length b = k" using l by (simp add: ab)
  moreover have "length (filter (\<lambda>s. s \<noteq> []) a) \<le> length a" "length (filter (\<lambda>s. s \<noteq> []) b) \<le> length b" by simp_all
  ultimately have f: "length (filter (\<lambda>s. s \<noteq> []) a) = length a" "length (filter (\<lambda>s. s \<noteq> []) b) = length b"
    by linarith+
  have ne: "[] \<notin> set a" "[] \<notin> set b"
    using f length_filter_less [of "[]" a "\<lambda>s. s \<noteq> []"] length_filter_less [of "[]" b "\<lambda>s. s \<noteq> []"] by auto
  have eq: "shards ! i = word ! i" if "i < Suc k" "shards ! i \<noteq> []" for i using s that w by (auto simp: survivors_def)
  have "a = take (length a) word"
  proof (rule nth_equalityI)
    show "length a = length (take (length a) word)" using l w(1) by (simp add: ab)
    fix i assume i: "i < length a"
    then have "shards ! i = a ! i" by (simp add: ab nth_append)
    with eq [of i] i ne(1) l show "a ! i = take (length a) word ! i" by (auto simp: ab in_set_conv_nth)
  qed
  moreover have "b = drop (Suc (length a)) word"
  proof (rule nth_equalityI)
    show "length b = length (drop (Suc (length a)) word)" using l w(1) by (simp add: ab)
    fix i assume i: "i < length b"
    then have "shards ! (Suc (length a) + i) = b ! i" by (simp add: ab nth_append)
    with eq [of "Suc (length a) + i"] i ne(2) l w(1) show "b ! i = drop (Suc (length a)) word ! i"
      by (auto simp: ab in_set_conv_nth)
  qed
  ultimately have "word = a @ (word ! length a) # b"
    using id_take_nth_drop [of "length a" word] l w(1) by (simp add: ab)
  with ab show ?thesis by blast
qed

lemma xor_lib_mds:
  assumes "0 < k"
  shows "rs_mds xor_lib k 1"
  unfolding rs_mds_def
proof (intro conjI allI impI)
  show "rs_new xor_lib k 1" using assms by (simp add: xor_lib_def)
  fix n :: nat and data :: "bytes list"
  assume n: "0 < n" "length data = k" "\<forall>d \<in> set data. length d = n"
  let ?par = "xors n data"
  have h: "length (hd data) = n" using n assms by (cases data) auto
  have w: "\<forall>d \<in> set (data @ [?par]). length d = n" using n by (simp add: xors_def)
  then have ne: "\<forall>d \<in> set (data @ [?par]). d \<noteq> []" using n(1) by auto
  have "\<exists>out. rs_reconstruct xor_lib c k 1 shards = Some out \<and> take k out = data"
    if s: "survivors k (data @ [?par]) shards" for c shards
  proof -
    from survivors_one_missing [OF s _ ne] n(2) have "shards = data @ [?par] \<or>
        (\<exists>a x b. data @ [?par] = a @ x # b \<and> shards = a @ [] # b)" by simp
    then show ?thesis
    proof (elim disjE exE conjE)
      assume "shards = data @ [?par]"
      moreover have "filter (\<lambda>s. s \<noteq> []) (data @ [?par]) = data @ [?par]" using ne by (intro filter_True) blast
      moreover have "map (\<lambda>s. if s = [] then z else s) (data @ [?par]) = data @ [?par]" for z
        using ne by (intro map_idI) auto
      ultimately show ?thesis using n(2) by (simp add: xor_lib_def Let_def)
    next
      fix a x b assume ab: "data @ [?par] = a @ x # b" "shards = a @ [] # b"
      have ne': "\<forall>d \<in> set (a @ b). d \<noteq> [] \<and> length d = n" "length x = n" using ne w unfolding ab(1) by simp_all
      have l: "length (a @ b) = k" using arg_cong [OF ab(1), of length] n(2) by simp
      have p: "filter (\<lambda>s. s \<noteq> []) a = a" "filter (\<lambda>s. s \<noteq> []) b = b" using ne'(1) by (simp_all add: filter_id_conv)
      have "length (hd (a @ b)) = n" using ne'(1) l assms by (cases "a @ b") (force simp: hd_append)+
      then have "xors (length (hd (a @ b))) (a @ b) = x" using xors_rest [OF refl ab(1) ne'(2)] by simp
      moreover have "map (\<lambda>s. if s = [] then z else s) a = a" "map (\<lambda>s. if s = [] then z else s) b = b" for z
        using ne'(1) by (auto intro!: map_idI)
      ultimately have "rs_reconstruct xor_lib c k 1 shards = Some (data @ [?par])"
        using l by (simp add: xor_lib_def p Let_def ab)
      with n(2) show ?thesis by simp
    qed
  qed
  then show "\<exists>par. rs_encode xor_lib k 1 data = Some par \<and> length par = 1 \<and> (\<forall>d \<in> set par. length d = n)
     \<and> (\<forall>c shards. survivors k (data @ par) shards \<longrightarrow>
          (\<exists>out. rs_reconstruct xor_lib c k 1 shards = Some out \<and> take k out = data))"
    using h by (intro exI [of _ "[?par]"]) (simp add: xor_lib_def xors_def)
qed

section \<open>Properties of the codecs\<close>

text \<open>\<open>boundedInversionPatterns\<close> decides exactly whether the number of erasure patterns with at most
  \<open>parity\<close> losses among all shards is at most 512: the incremental product with its truncating
  divisions computes the binomial coefficients without error.\<close>

theorem boundedInversionPatterns_exact:
  "boundedInversionPatterns data parity \<longleftrightarrow> (\<Sum>lost = 1..parity. (data + parity) choose lost) \<le> 512"
  by (rule bounded_patterns)

text \<open>The caches a session can build up: codecs are looked up and then used for reconstruction.\<close>

inductive codecs_reach :: "rs_lib \<Rightarrow> codecs \<Rightarrow> bool" for lib where
  codecs_init: "codecs_reach lib []"
| codecs_get: "codecs_reach lib cache \<Longrightarrow> codecs_reach lib (fst (cachedCodec lib cache k r))"
| codecs_use: "codecs_reach lib cache \<Longrightarrow> cachedCodec lib cache k r = (cache', Some c) \<Longrightarrow>
     codecs_reach lib (fst (codec_ReconstructData lib k r c cache' shards))"

lemma codecs_reach_ok: "codecs_reach lib cache \<Longrightarrow> codecs_ok cache"
proof (induction rule: codecs_reach.induct)
  case codecs_init
  then show ?case by simp
next
  case (codecs_get cache k r)
  then show ?case using cachedCodec_ok by blast
next
  case (codecs_use cache k r cache' c shards)
  then show ?case using cachedCodec_ok [of cache lib k r] codec_ReconstructData_ok by simp
qed


definition any_lib :: rs_lib where
  "any_lib = xor_lib\<lparr>rs_new := (\<lambda>k r. True)\<rparr>"


end
