(* ===== verification/Fec_Controller.thy ===== *)
theory Fec_Controller
  imports Fec_Codec Complex_Main
begin

text \<open>
  The adaptive redundancy controller of \<open>internal/transport/fec/controller.go\<close>.  Its float64
  arithmetic is the parameter \<open>floats\<close>, so what is proved for every arithmetic holds for the machine's
  rounding; \<open>exact_floats\<close> is the arithmetic of the real numbers, in which the formulas are
  compared with the probabilities they compute.  The atomic snapshots that the sender reads without the
  lock are fields of the record, and every method is one step, as it holds the mutex throughout.
  Counters of Go type int are integers: each grows by a bounded amount per feedback.
\<close>

record 'f floats =
  fl_lit :: "int \<Rightarrow> int \<Rightarrow> 'f"
  fl_of_int :: "int \<Rightarrow> 'f"
  fl_add :: "'f \<Rightarrow> 'f \<Rightarrow> 'f"
  fl_sub :: "'f \<Rightarrow> 'f \<Rightarrow> 'f"
  fl_mul :: "'f \<Rightarrow> 'f \<Rightarrow> 'f"
  fl_div :: "'f \<Rightarrow> 'f \<Rightarrow> 'f"
  fl_pow :: "'f \<Rightarrow> 'f \<Rightarrow> 'f"
  fl_min :: "'f \<Rightarrow> 'f \<Rightarrow> 'f"
  fl_max :: "'f \<Rightarrow> 'f \<Rightarrow> 'f"
  fl_le :: "'f \<Rightarrow> 'f \<Rightarrow> bool"
  fl_to_u64 :: "'f \<Rightarrow> u64"

definition defaultBypassLossThreshold :: "'f floats \<Rightarrow> 'f" where
  "defaultBypassLossThreshold F = fl_lit F 1 1000"

definition minBypassLossThreshold :: "'f floats \<Rightarrow> 'f" where
  "minBypassLossThreshold F = fl_lit F 1 10000"

definition bypassReferenceRTT :: duration where
  "bypassReferenceRTT = 100 * millisecond"

definition defaultDecreaseGroups :: int where
  "defaultDecreaseGroups = 32"

definition maxDecreaseGroups :: int where
  "maxDecreaseGroups = 256"

definition interleaveParityFloor :: int where
  "interleaveParityFloor = 4"

definition interleaveMissingThreshold :: u16 where
  "interleaveMissingThreshold = 4"

definition interleaveDecreaseGroups :: int where
  "interleaveDecreaseGroups = 32"

lemmas ctrl_consts = bypassReferenceRTT_def defaultDecreaseGroups_def maxDecreaseGroups_def
  interleaveParityFloor_def interleaveMissingThreshold_def interleaveDecreaseGroups_def

record 'f Controller =
  c_parity :: int
  c_paritySnapshot :: int
  c_lossSnapshotPPM :: u64
  c_zeroLossGroups :: int
  c_observedFrames :: int
  c_decreaseGroups :: int
  c_unrecoveredGroups :: int
  c_severeLossGroups :: int
  c_interleaveHealthyFrames :: int
  c_lossEWMA :: 'f
  c_lossInitialized :: bool
  c_pathRTT :: duration
  c_dataShards :: int
  c_transportInitialized :: bool
  c_lastTransportSent :: u64
  c_lastTransportLost :: u64
  c_interleave :: int
  c_interleaveSnapshot :: int

definition NewController :: "'f floats \<Rightarrow> 'f Controller" where
  "NewController F =
     \<lparr>c_parity = 1, c_paritySnapshot = 1, c_lossSnapshotPPM = 0, c_zeroLossGroups = 0, c_observedFrames = 0,
      c_decreaseGroups = 0, c_unrecoveredGroups = 0, c_severeLossGroups = 0, c_interleaveHealthyFrames = 0,
      c_lossEWMA = fl_lit F 0 1, c_lossInitialized = True, c_pathRTT = 0, c_dataShards = int DefaultDataShards,
      c_transportInitialized = False, c_lastTransportSent = 0, c_lastTransportLost = 0,
      c_interleave = 1, c_interleaveSnapshot = 1\<rparr>"

definition SetDataShards :: "int \<Rightarrow> 'f Controller \<Rightarrow> 'f Controller" where
  "SetDataShards n c = (if n > 0 \<and> n \<le> int MaxDataShards then c\<lparr>c_dataShards := n\<rparr> else c)"

definition Controller_Parity :: "int \<Rightarrow> 'f Controller \<Rightarrow> int" where
  "Controller_Parity k c = (if k \<le> 0 then 0 else min (c_parity c) (max 1 (k div 2)))"

definition CurrentParity :: "'f Controller \<Rightarrow> int" where
  "CurrentParity c = c_paritySnapshot c"

definition CurrentInterleave :: "'f Controller \<Rightarrow> int" where
  "CurrentInterleave c = c_interleaveSnapshot c"

definition LossEstimatePPM :: "'f Controller \<Rightarrow> u64" where
  "LossEstimatePPM c = c_lossSnapshotPPM c"

definition setParity :: "int \<Rightarrow> 'f Controller \<Rightarrow> 'f Controller" where
  "setParity parity c = c\<lparr>c_parity := parity, c_paritySnapshot := parity\<rparr>"

definition ObservePathRTT :: "duration \<Rightarrow> 'f Controller \<Rightarrow> 'f Controller" where
  "ObservePathRTT rtt c = (if rtt \<le> 0 then c else c\<lparr>c_pathRTT := rtt\<rparr>)"

definition updateLossLocked :: "'f floats \<Rightarrow> 'f \<Rightarrow> 'f \<Rightarrow> 'f Controller \<Rightarrow> 'f Controller" where
  "updateLossLocked F sample alpha c =
     (if \<not> c_lossInitialized c then c\<lparr>c_lossEWMA := sample, c_lossInitialized := True\<rparr>
      else c\<lparr>c_lossEWMA := fl_add F (fl_mul F (fl_sub F (fl_lit F 1 1) alpha) (c_lossEWMA c)) (fl_mul F alpha sample)\<rparr>)"

definition storeSnapshotsLocked :: "'f floats \<Rightarrow> 'f Controller \<Rightarrow> 'f Controller" where
  "storeSnapshotsLocked F c =
     c\<lparr>c_paritySnapshot := c_parity c, c_interleaveSnapshot := c_interleave c,
       c_lossSnapshotPPM := fl_to_u64 F (fl_add F
         (fl_mul F (fl_min F (fl_lit F 1 1) (fl_max F (fl_lit F 0 1) (c_lossEWMA c))) (fl_lit F 1000000 1))
         (fl_lit F 1 2))\<rparr>"

text \<open>The loop of \<open>binomialTail\<close>.\<close>

function binomial_loop :: "'f floats \<Rightarrow> int \<Rightarrow> 'f \<Rightarrow> int \<Rightarrow> int \<Rightarrow> 'f \<Rightarrow> 'f \<Rightarrow> 'f" where
  "binomial_loop F trials probability successes outcomes tm cumulative =
     (if outcomes > successes then cumulative
      else let tm = fl_mul F tm (fl_div F (fl_of_int F (trials - outcomes + 1)) (fl_of_int F outcomes));
               tm = fl_mul F tm (fl_div F probability (fl_sub F (fl_lit F 1 1) probability))
           in binomial_loop F trials probability successes (outcomes + 1) tm (fl_add F cumulative tm))"
  by pat_completeness auto
termination
  by (relation "measure (\<lambda>(F, trials, p, successes, outcomes, tm, cum). nat (successes + 1 - outcomes))") auto

declare binomial_loop.simps [simp del]

definition binomialTail :: "'f floats \<Rightarrow> int \<Rightarrow> 'f \<Rightarrow> int \<Rightarrow> 'f" where
  "binomialTail F trials probability successes =
     (if fl_le F probability (fl_lit F 0 1) then fl_lit F 0 1
      else if fl_le F (fl_lit F 1 1) probability then fl_lit F 1 1
      else let tm = fl_pow F (fl_sub F (fl_lit F 1 1) probability) (fl_of_int F trials);
               cumulative = binomial_loop F trials probability successes 1 tm tm
           in fl_max F (fl_lit F 0 1) (fl_min F (fl_lit F 1 1) (fl_sub F (fl_lit F 1 1) cumulative)))"

text \<open>The loop of \<open>parityForLossThreshold\<close>.\<close>

function parity_loop :: "'f floats \<Rightarrow> int \<Rightarrow> 'f \<Rightarrow> int \<Rightarrow> int \<Rightarrow> int" where
  "parity_loop F dataShards loss maxParity parity =
     (if parity > maxParity then maxParity
      else if fl_le F (binomialTail F (dataShards + parity) loss parity) (fl_lit F 5 1000) then parity
      else parity_loop F dataShards loss maxParity (parity + 1))"
  by pat_completeness auto
termination
  by (relation "measure (\<lambda>(F, ds, loss, maxParity, parity). nat (maxParity + 1 - parity))") auto

declare parity_loop.simps [simp del]

definition parityForLossThreshold :: "'f floats \<Rightarrow> int \<Rightarrow> 'f \<Rightarrow> 'f \<Rightarrow> int" where
  "parityForLossThreshold F dataShards loss bypassThreshold =
     (if dataShards \<le> 0 \<or> fl_le F loss bypassThreshold then 0
      else parity_loop F dataShards loss (min (int MaxParityShards) (max 1 (dataShards div 2))) 1)"

definition parityForLoss :: "'f floats \<Rightarrow> int \<Rightarrow> 'f \<Rightarrow> int" where
  "parityForLoss F dataShards loss = parityForLossThreshold F dataShards loss (defaultBypassLossThreshold F)"

definition desiredParityLocked :: "'f floats \<Rightarrow> 'f Controller \<Rightarrow> int" where
  "desiredParityLocked F c =
     (let threshold = defaultBypassLossThreshold F;
          threshold = (if c_pathRTT c > bypassReferenceRTT
            then fl_max F (minBypassLossThreshold F) (fl_mul F threshold
                   (fl_div F (fl_of_int F bypassReferenceRTT) (fl_of_int F (c_pathRTT c))))
            else threshold)
      in parityForLossThreshold F (c_dataShards c) (c_lossEWMA c) threshold)"

definition decreaseWindowLocked :: "int \<Rightarrow> 'f Controller \<Rightarrow> int" where
  "decreaseWindowLocked desired c =
     (if c_parity c \<noteq> 1 \<or> desired \<noteq> 0 \<or> c_pathRTT c \<le> bypassReferenceRTT then defaultDecreaseGroups
      else let rttMultiple = (c_pathRTT c + bypassReferenceRTT - 1) div bypassReferenceRTT
           in min maxDecreaseGroups (defaultDecreaseGroups * rttMultiple))"

text \<open>The branch of \<open>Observe\<close> for a group that lost more than was recovered.\<close>

definition observe_unrecovered :: "Feedback \<Rightarrow> int \<Rightarrow> 'f Controller \<Rightarrow> 'f Controller" where
  "observe_unrecovered fb desired c =
     (let lost = fb_missing fb - fb_recovered fb;
          c = (if lost \<ge> max 1 ((fb_total fb + 1) div 2)
               then c\<lparr>c_severeLossGroups := c_severeLossGroups c + 1\<rparr>
               else c\<lparr>c_severeLossGroups := 0\<rparr>);
          c = c\<lparr>c_unrecoveredGroups := c_unrecoveredGroups c + 1\<rparr>;
          c = (if c_parity c < desired \<or> lost \<ge> 2 \<or> c_unrecoveredGroups c \<ge> 3
               then c\<lparr>c_parity := min (c_parity c + 1) (int MaxParityShards), c_unrecoveredGroups := 0\<rparr>
               else c);
          c = (if c_interleave c < int MaxInterleave \<and> c_parity c \<ge> interleaveParityFloor
                  \<and> (lost \<ge> interleaveMissingThreshold \<or> c_severeLossGroups c \<ge> 2)
               then c\<lparr>c_interleave := c_interleave c * 2, c_severeLossGroups := 0\<rparr>
               else c)
      in c\<lparr>c_observedFrames := 0, c_decreaseGroups := 0\<rparr>)"

text \<open>The rest of \<open>Observe\<close>, for a group that lost nothing or recovered all it lost.\<close>

definition observe_recovered :: "Feedback \<Rightarrow> int \<Rightarrow> 'f Controller \<Rightarrow> 'f Controller" where
  "observe_recovered fb desired c =
     (let c = c\<lparr>c_unrecoveredGroups := 0, c_severeLossGroups := 0\<rparr>;
          decreaseWindow = decreaseWindowLocked desired c
      in if c_interleave c > 1 \<and> c_interleaveHealthyFrames c \<ge> interleaveDecreaseGroups * c_dataShards c
         then c\<lparr>c_interleave := c_interleave c div 2, c_interleaveHealthyFrames := 0, c_zeroLossGroups := 0\<rparr>
         else if c_zeroLossGroups c \<ge> decreaseWindow \<and> c_parity c > desired
         then c\<lparr>c_parity := c_parity c - 1, c_zeroLossGroups := 0, c_decreaseGroups := 0\<rparr>
         else if desired > c_parity c \<and> fb_missing fb > 0 \<and> c_observedFrames c \<ge> 32
         then c\<lparr>c_parity := c_parity c + 1, c_observedFrames := 0, c_decreaseGroups := 0\<rparr>
         else if desired < c_parity c
         then let c = c\<lparr>c_decreaseGroups := c_decreaseGroups c + 1\<rparr>
              in if c_decreaseGroups c \<ge> decreaseWindow
                 then c\<lparr>c_parity := c_parity c - 1, c_decreaseGroups := 0\<rparr> else c
         else c\<lparr>c_decreaseGroups := 0\<rparr>)"

text \<open>The two updates at the head of \<open>Observe\<close>: the loss estimate, and the runs of healthy groups.\<close>

definition observe_loss :: "'f floats \<Rightarrow> Feedback \<Rightarrow> 'f Controller \<Rightarrow> 'f Controller" where
  "observe_loss F fb c =
     (let sample = fl_div F (fl_of_int F (uint (min (fb_missing fb) (fb_total fb)))) (fl_of_int F (uint (fb_total fb)));
          alpha = fl_min F (fl_lit F 1 4) (fl_max F (fl_lit F 1 32)
                    (fl_div F (fl_of_int F (uint (fb_total fb))) (fl_lit F 256 1)));
          c = updateLossLocked F sample alpha c
      in c\<lparr>c_observedFrames := c_observedFrames c + uint (fb_total fb)\<rparr>)"

definition observe_health :: "Feedback \<Rightarrow> 'f Controller \<Rightarrow> 'f Controller" where
  "observe_health fb c =
     (if fb_missing fb = 0
      then c\<lparr>c_zeroLossGroups := c_zeroLossGroups c + 1,
             c_interleaveHealthyFrames := min (c_interleaveHealthyFrames c + uint (fb_total fb))
               (interleaveDecreaseGroups * c_dataShards c)\<rparr>
      else c\<lparr>c_zeroLossGroups := 0, c_interleaveHealthyFrames := 0\<rparr>)"

definition observe_body :: "'f floats \<Rightarrow> Feedback \<Rightarrow> 'f Controller \<Rightarrow> 'f Controller \<times> bool" where
  "observe_body F fb c =
     (let previous = c_parity c
      in if fb_total fb = 0 then (c, False)
         else
           let c = observe_loss F fb c
           in if c_parity c = 0 \<and> fb_missing fb > 0
              then (c\<lparr>c_parity := 1, c_zeroLossGroups := 0, c_observedFrames := 0, c_decreaseGroups := 0\<rparr>, True)
              else
                let c = observe_health fb c;
                    desired = desiredParityLocked F c;
                    c = (if fb_missing fb > fb_recovered fb then observe_unrecovered fb desired c
                         else observe_recovered fb desired c)
                in (c, c_parity c \<noteq> previous))"

definition Controller_Observe :: "'f floats \<Rightarrow> Feedback \<Rightarrow> 'f Controller \<Rightarrow> 'f Controller \<times> bool" where
  "Controller_Observe F fb c =
     (let (c, changed) = observe_body F fb c in (storeSnapshotsLocked F c, changed))"

text \<open>The switch at the end of \<open>ObserveTransport\<close>.\<close>

definition transport_react :: "'f floats \<Rightarrow> u64 \<Rightarrow> 'f \<Rightarrow> 'f Controller \<Rightarrow> 'f Controller" where
  "transport_react F lost sample c =
     (if c_parity c = 0 \<and> lost \<ge> 2 \<and> fl_le F (fl_lit F 5 1000) sample
      then c\<lparr>c_parity := 1, c_zeroLossGroups := 0\<rparr>
      else if desiredParityLocked F c > c_parity c
      then c\<lparr>c_parity := c_parity c + 1, c_decreaseGroups := 0\<rparr>
      else c)"

definition transport_body :: "'f floats \<Rightarrow> u64 \<Rightarrow> u64 \<Rightarrow> 'f Controller \<Rightarrow> 'f Controller \<times> bool" where
  "transport_body F packetsSent packetsLost c =
     (if \<not> c_transportInitialized c \<or> packetsSent < c_lastTransportSent c \<or> packetsLost < c_lastTransportLost c
      then (c\<lparr>c_transportInitialized := True, c_lastTransportSent := packetsSent, c_lastTransportLost := packetsLost\<rparr>, False)
      else
        let sent = packetsSent - c_lastTransportSent c
        in if sent < 128 then (c, False)
           else
             let lost = min (packetsLost - c_lastTransportLost c) sent;
                 c = c\<lparr>c_lastTransportSent := packetsSent, c_lastTransportLost := packetsLost\<rparr>;
                 sample = fl_div F (fl_of_int F (uint lost)) (fl_of_int F (uint sent));
                 c = updateLossLocked F sample (fl_min F (fl_lit F 1 4) (fl_max F (fl_lit F 1 16)
                       (fl_div F (fl_of_int F (uint sent)) (fl_lit F 256 1)))) c;
                 previous = c_parity c;
                 c = transport_react F lost sample c
             in (c, c_parity c \<noteq> previous))"

definition Controller_ObserveTransport :: "'f floats \<Rightarrow> u64 \<Rightarrow> u64 \<Rightarrow> 'f Controller \<Rightarrow> 'f Controller \<times> bool" where
  "Controller_ObserveTransport F packetsSent packetsLost c =
     (let (c, changed) = transport_body F packetsSent packetsLost c in (storeSnapshotsLocked F c, changed))"

section \<open>Bounds that hold for every arithmetic\<close>

lemma parity_loop_bounds: "1 \<le> parity \<Longrightarrow> 1 \<le> maxParity \<Longrightarrow>
   1 \<le> parity_loop F ds loss maxParity parity \<and> parity_loop F ds loss maxParity parity \<le> maxParity"
proof (induction F ds loss maxParity parity rule: parity_loop.induct)
  case (1 F ds loss maxParity parity)
  then show ?case by (subst (1 2) parity_loop.simps) auto
qed

lemma parityForLossThreshold_bounds:
  "0 \<le> parityForLossThreshold F ds loss thr \<and> parityForLossThreshold F ds loss thr \<le> int MaxParityShards"
  using parity_loop_bounds [of 1 "min (int MaxParityShards) (max 1 (ds div 2))" F ds loss]
  by (auto simp: parityForLossThreshold_def fec_consts)

lemma desired_bounds: "0 \<le> desiredParityLocked F c \<and> desiredParityLocked F c \<le> int MaxParityShards"
  unfolding desiredParityLocked_def Let_def by (rule parityForLossThreshold_bounds)

lemma decreaseWindow_bounds: "32 \<le> decreaseWindowLocked d c \<and> decreaseWindowLocked d c \<le> 256"
proof -
  have "2 \<le> (c_pathRTT c + 100000000 - 1) div 100000000" if "c_pathRTT c > 100000000"
    using that zdiv_mono1 [of "200000000" "c_pathRTT c + 100000000 - 1" 100000000] by simp
  then show ?thesis
    by (auto simp: decreaseWindowLocked_def ctrl_consts Let_def)
qed

definition ctrl_ok :: "'f Controller \<Rightarrow> bool" where
  "ctrl_ok c \<longleftrightarrow> 0 \<le> c_parity c \<and> c_parity c \<le> int MaxParityShards \<and> c_interleave c \<in> {1, 2, 4}
     \<and> c_paritySnapshot c = c_parity c \<and> c_interleaveSnapshot c = c_interleave c
     \<and> 1 \<le> c_dataShards c \<and> c_dataShards c \<le> int MaxDataShards
     \<and> 0 \<le> c_zeroLossGroups c \<and> 0 \<le> c_observedFrames c \<and> 0 \<le> c_decreaseGroups c \<and> c_decreaseGroups c \<le> 255
     \<and> 0 \<le> c_interleaveHealthyFrames c \<and> c_interleaveHealthyFrames c \<le> interleaveDecreaseGroups * int MaxDataShards
     \<and> 0 \<le> c_unrecoveredGroups c \<and> c_unrecoveredGroups c \<le> 2 \<and> 0 \<le> c_severeLossGroups c"

text \<open>The invariant without the snapshots, which the deferred store re-establishes.\<close>

definition ctrl_core :: "'f Controller \<Rightarrow> bool" where
  "ctrl_core c \<longleftrightarrow> ctrl_ok (c\<lparr>c_paritySnapshot := c_parity c, c_interleaveSnapshot := c_interleave c\<rparr>)"

lemma ctrl_core_of_ok: "ctrl_ok c \<Longrightarrow> ctrl_core c"
  by (simp add: ctrl_core_def ctrl_ok_def)

lemma store_ok: "ctrl_core c \<Longrightarrow> ctrl_ok (storeSnapshotsLocked F c)"
  by (simp add: ctrl_core_def ctrl_ok_def storeSnapshotsLocked_def)

lemma updateLoss_core [simp]: "ctrl_core (updateLossLocked F s a c) = ctrl_core c"
  "c_parity (updateLossLocked F s a c) = c_parity c" "c_interleave (updateLossLocked F s a c) = c_interleave c"
  "c_dataShards (updateLossLocked F s a c) = c_dataShards c" "c_observedFrames (updateLossLocked F s a c) = c_observedFrames c"
  "c_unrecoveredGroups (updateLossLocked F s a c) = c_unrecoveredGroups c"
  by (simp_all add: updateLossLocked_def ctrl_core_def ctrl_ok_def)

lemma unrecovered_core:
  assumes "ctrl_core c"
  shows "ctrl_core (observe_unrecovered fb d c)
     \<and> c_parity (observe_unrecovered fb d c) \<in> {c_parity c, min (c_parity c + 1) (int MaxParityShards)}"
  using assms
  by (auto simp: observe_unrecovered_def Let_def ctrl_core_def ctrl_ok_def fec_consts ctrl_consts)

lemma recovered_core:
  assumes "ctrl_core c" "0 \<le> d" "d \<le> int MaxParityShards"
  shows "ctrl_core (observe_recovered fb d c) \<and> \<bar>c_parity (observe_recovered fb d c) - c_parity c\<bar> \<le> 1
     \<and> (fb_missing fb = 0 \<longrightarrow> c_parity (observe_recovered fb d c) \<le> c_parity c)"
  using assms decreaseWindow_bounds [of d "c\<lparr>c_unrecoveredGroups := 0, c_severeLossGroups := 0\<rparr>"]
  by (auto simp: observe_recovered_def Let_def ctrl_core_def ctrl_ok_def fec_consts ctrl_consts)

lemma observe_loss_core:
  assumes "ctrl_core c"
  shows "ctrl_core (observe_loss F fb c) \<and> c_parity (observe_loss F fb c) = c_parity c
     \<and> c_unrecoveredGroups (observe_loss F fb c) = c_unrecoveredGroups c"
proof -
  have "ctrl_core (updateLossLocked F s a c)" for s a using assms by simp
  then show ?thesis by (auto simp: observe_loss_def Let_def ctrl_core_def ctrl_ok_def)
qed

lemma observe_health_core:
  "ctrl_core c \<Longrightarrow> ctrl_core (observe_health fb c) \<and> c_parity (observe_health fb c) = c_parity c
     \<and> c_unrecoveredGroups (observe_health fb c) = c_unrecoveredGroups c"
  by (auto simp: observe_health_def ctrl_core_def ctrl_ok_def ctrl_consts fec_consts)

lemma observe_body_core:
  assumes "ctrl_core c"
  shows "ctrl_core (fst (observe_body F fb c)) \<and> \<bar>c_parity (fst (observe_body F fb c)) - c_parity c\<bar> \<le> 1
     \<and> (snd (observe_body F fb c) \<longleftrightarrow> c_parity (fst (observe_body F fb c)) \<noteq> c_parity c)
     \<and> (fb_missing fb > fb_recovered fb \<longrightarrow> c_parity (fst (observe_body F fb c)) \<ge> c_parity c)
     \<and> (fb_missing fb = 0 \<longrightarrow> c_parity (fst (observe_body F fb c)) \<le> c_parity c)"
proof (cases "fb_total fb = 0")
  case True
  with assms show ?thesis by (simp add: observe_body_def)
next
  case total: False
  let ?c1 = "observe_loss F fb c" and ?c2 = "observe_health fb (observe_loss F fb c)"
  show ?thesis
  proof (cases "c_parity c = 0 \<and> fb_missing fb > 0")
    case True
    with total observe_loss_core [OF assms, of F fb] show ?thesis
      by (auto simp: observe_body_def Let_def ctrl_core_def ctrl_ok_def fec_consts)
  next
    case False
    let ?d = "desiredParityLocked F ?c2"
    let ?c3 = "if fb_missing fb > fb_recovered fb then observe_unrecovered fb ?d ?c2 else observe_recovered fb ?d ?c2"
    note c2 = observe_health_core [OF conjunct1 [OF observe_loss_core [OF assms, of F fb]], of fb]
    have "observe_body F fb c = (?c3, c_parity ?c3 \<noteq> c_parity c)"
      using total False observe_loss_core [OF assms, of F fb] by (auto simp: observe_body_def Let_def)
    moreover note unrecovered_core [OF conjunct1 [OF c2], of fb ?d] recovered_core [OF conjunct1 [OF c2], of ?d fb]
      desired_bounds [of F ?c2] c2 observe_loss_core [OF assms, of F fb]
    moreover have "c_parity c \<le> int MaxParityShards" using assms by (simp add: ctrl_core_def ctrl_ok_def)
    ultimately show ?thesis by (auto simp: min_def)
  qed
qed

lemma transport_react_core:
  assumes "ctrl_core c"
  shows "ctrl_core (transport_react F lost sample c) \<and> c_parity c \<le> c_parity (transport_react F lost sample c)
     \<and> c_parity (transport_react F lost sample c) \<le> c_parity c + 1"
  using assms desired_bounds [of F c]
  by (auto simp: transport_react_def ctrl_core_def ctrl_ok_def fec_consts)

lemma transport_body_core:
  assumes "ctrl_core c"
  shows "ctrl_core (fst (transport_body F s l c)) \<and> c_parity c \<le> c_parity (fst (transport_body F s l c))
     \<and> c_parity (fst (transport_body F s l c)) \<le> c_parity c + 1"
proof -
  have up: "ctrl_core (updateLossLocked F x a (c\<lparr>c_lastTransportSent := s, c_lastTransportLost := l\<rparr>))" for x a
    unfolding updateLoss_core(1) using assms by (simp add: ctrl_core_def ctrl_ok_def)
  have "ctrl_core (c\<lparr>c_transportInitialized := True, c_lastTransportSent := s, c_lastTransportLost := l\<rparr>)"
    using assms by (simp add: ctrl_core_def ctrl_ok_def)
  with assms transport_react_core [OF up] show ?thesis
    by (simp add: transport_body_def Let_def)
qed

inductive ctrl_reach :: "'f floats \<Rightarrow> 'f Controller \<Rightarrow> bool" for F where
  ctrl_new: "ctrl_reach F (NewController F)"
| ctrl_shards: "ctrl_reach F c \<Longrightarrow> ctrl_reach F (SetDataShards n c)"
| ctrl_rtt: "ctrl_reach F c \<Longrightarrow> ctrl_reach F (ObservePathRTT rtt c)"
| ctrl_feedback: "ctrl_reach F c \<Longrightarrow> ctrl_reach F (fst (Controller_Observe F fb c))"
| ctrl_transport: "ctrl_reach F c \<Longrightarrow> ctrl_reach F (fst (Controller_ObserveTransport F sent lost c))"

lemma NewController_ok: "ctrl_ok (NewController F)"
  by (simp add: ctrl_ok_def NewController_def fec_consts ctrl_consts)

lemma SetDataShards_ok: "ctrl_ok c \<Longrightarrow> ctrl_ok (SetDataShards n c)"
  by (auto simp: ctrl_ok_def SetDataShards_def)

lemma Observe_ok: "ctrl_ok c \<Longrightarrow> ctrl_ok (fst (Controller_Observe F fb c))"
  using store_ok [OF conjunct1 [OF observe_body_core [OF ctrl_core_of_ok]]]
  by (simp add: Controller_Observe_def case_prod_unfold Let_def)

lemma ObserveTransport_ok: "ctrl_ok c \<Longrightarrow> ctrl_ok (fst (Controller_ObserveTransport F s l c))"
  using store_ok [OF conjunct1 [OF transport_body_core [OF ctrl_core_of_ok]]]
  by (simp add: Controller_ObserveTransport_def case_prod_unfold Let_def)

lemma ObservePathRTT_ok: "ctrl_ok c \<Longrightarrow> ctrl_ok (ObservePathRTT rtt c)"
  by (auto simp: ctrl_ok_def ObservePathRTT_def)

lemma ctrl_reach_ok: "ctrl_reach F c \<Longrightarrow> ctrl_ok c"
  by (induction rule: ctrl_reach.induct)
    (simp_all add: NewController_ok SetDataShards_ok Observe_ok ObserveTransport_ok ObservePathRTT_ok)

section \<open>The formulas in exact arithmetic\<close>

definition exact_floats :: "real floats" where
  "exact_floats = \<lparr>fl_lit = (\<lambda>p q. of_int p / of_int q), fl_of_int = of_int, fl_add = (+), fl_sub = (-),
     fl_mul = (*), fl_div = (/), fl_pow = (\<lambda>x y. x ^ nat \<lfloor>y\<rfloor>), fl_min = min, fl_max = max, fl_le = (\<le>),
     fl_to_u64 = (\<lambda>x. of_int \<lfloor>x\<rfloor>)\<rparr>"

lemma exact_floats_sel [simp]:
  "fl_lit exact_floats p q = of_int p / of_int q" "fl_of_int exact_floats i = of_int i"
  "fl_add exact_floats = (+)" "fl_sub exact_floats = (-)" "fl_mul exact_floats = (*)" "fl_div exact_floats = (/)"
  "fl_pow exact_floats = (\<lambda>x y. x ^ nat \<lfloor>y\<rfloor>)" "fl_min exact_floats = min" "fl_max exact_floats = max"
  "fl_le exact_floats = (\<le>)"
  by (simp_all add: exact_floats_def)

definition binom_prob :: "nat \<Rightarrow> real \<Rightarrow> nat \<Rightarrow> real" where
  "binom_prob n p i = real (n choose i) * p ^ i * (1 - p) ^ (n - i)"

lemma frac_step:
  fixes a b m t q r x p :: real
  assumes "t \<noteq> 0" "q \<noteq> 0" "t * b = m * a"
  shows "a * x * (q * r) * (m / t) * (p / q) = b * (x * p) * r"
proof -
  have "m * a / t = b" using assms by (metis nonzero_mult_div_cancel_left)
  moreover have "a * x * (q * r) * (m / t) * (p / q) = (m * a / t) * (x * p) * r"
    using assms(1,2) by (simp add: field_simps)
  ultimately show ?thesis by simp
qed

lemma binom_prob_step:
  assumes "p < 1" "i < n"
  shows "binom_prob n p i * (real (n - i) / real (Suc i)) * (p / (1 - p)) = binom_prob n p (Suc i)"
proof -
  have "real (Suc i) * real (n choose Suc i) = real (n - i) * real (n choose i)"
    by (simp only: of_nat_mult [symmetric] binomial_absorption binomial_absorb_comp)
  moreover have "(1 - p) ^ (n - i) = (1 - p) * (1 - p) ^ (n - Suc i)"
    using assms(2) by (simp add: Suc_diff_Suc flip: power_Suc)
  ultimately show ?thesis
    using frac_step [of "real (Suc i)" "1 - p" "real (n choose Suc i)" "real (n - i)" "real (n choose i)" "p ^ i"
        "(1 - p) ^ (n - Suc i)" p] assms(1)
    unfolding binom_prob_def power_Suc2 by (simp del: of_nat_Suc binomial_Suc_Suc)
qed

lemma binomial_loop_exact:
  assumes "p < 1" "s \<le> n" "k \<le> s"
  shows "binomial_loop exact_floats (int n) p (int s) (int (Suc k)) (binom_prob n p k) (\<Sum>i \<in> {..k}. binom_prob n p i)
     = (\<Sum>i \<in> {..s}. binom_prob n p i)"
  using assms(3)
proof (induction "s - k" arbitrary: k)
  case 0
  then show ?case by (subst binomial_loop.simps) simp
next
  case (Suc m)
  then have k: "k < s" by simp
  have c: "real n - real (Suc k) + 1 = real n - real k" by simp
  have "binomial_loop exact_floats (int n) p (int s) (int (Suc k)) (binom_prob n p k) (\<Sum>i \<in> {..k}. binom_prob n p i)
      = binomial_loop exact_floats (int n) p (int s) (int (Suc k) + 1) (binom_prob n p (Suc k))
          (\<Sum>i \<in> {..Suc k}. binom_prob n p i)"
    using k assms(2) binom_prob_step [OF assms(1), of k n]
    by (subst binomial_loop.simps) (simp add: Let_def c del: of_nat_Suc)
  also have "int (Suc k) + 1 = int (Suc (Suc k))" by simp
  finally show ?case using Suc.hyps(1) [of "Suc k"] Suc.hyps(2) k by simp
qed

lemma binom_prob_sum: "(\<Sum>i \<in> {..n}. binom_prob n p i) = 1"
  using binomial_ring [of p "1 - p" n] by (simp add: binom_prob_def)

lemma binom_prob_nonneg: "0 \<le> p \<Longrightarrow> p \<le> 1 \<Longrightarrow> 0 \<le> binom_prob n p i"
  by (simp add: binom_prob_def)

lemma binomialTail_exact_aux:
  assumes "0 < p" "p < 1" "s \<le> n"
  shows "binomialTail exact_floats (int n) p (int s) = (\<Sum>i = Suc s..n. binom_prob n p i)"
proof -
  have split: "(\<Sum>i \<in> {..s}. binom_prob n p i) + (\<Sum>i = Suc s..n. binom_prob n p i) = 1"
  proof -
    have "{..n} = {..s} \<union> {Suc s..n}" using assms(3) by auto
    then show ?thesis
      using binom_prob_sum [of n p] sum.union_disjoint [of "{..s}" "{Suc s..n}" "binom_prob n p"] by auto
  qed
  have "0 \<le> (\<Sum>i = Suc s..n. binom_prob n p i)" "0 \<le> (\<Sum>i \<in> {..s}. binom_prob n p i)"
    using assms by (auto intro!: sum_nonneg binom_prob_nonneg)
  moreover have "binomial_loop exact_floats (int n) p (int s) 1 ((1 - p) ^ n) ((1 - p) ^ n) = (\<Sum>i \<in> {..s}. binom_prob n p i)"
    using binomial_loop_exact [OF assms(2,3), of 0] by (simp add: binom_prob_def)
  ultimately show ?thesis
    using assms split by (simp add: binomialTail_def Let_def min_def max_def)
qed

section \<open>The search for the parity target\<close>

lemma parity_loop_least:
  "1 \<le> parity \<Longrightarrow> parity \<le> maxParity \<Longrightarrow>
   (\<forall>j. parity \<le> j \<and> j < parity_loop F ds loss maxParity parity \<longrightarrow>
        \<not> fl_le F (binomialTail F (ds + j) loss j) (fl_lit F 5 1000))
   \<and> (parity_loop F ds loss maxParity parity < maxParity \<longrightarrow>
        fl_le F (binomialTail F (ds + parity_loop F ds loss maxParity parity) loss (parity_loop F ds loss maxParity parity)) (fl_lit F 5 1000))"
proof (induction F ds loss maxParity parity rule: parity_loop.induct)
  case (1 F ds loss maxParity parity)
  show ?case
  proof (cases "fl_le F (binomialTail F (ds + parity) loss parity) (fl_lit F 5 1000)")
    case True
    with 1 show ?thesis by (auto simp: parity_loop.simps [of F ds loss maxParity parity])
  next
    case stop: False
    then have e: "parity_loop F ds loss maxParity parity = parity_loop F ds loss maxParity (parity + 1)"
      using 1(3) by (subst parity_loop.simps) auto
    show ?thesis
    proof (cases "parity = maxParity")
      case True
      then have "parity_loop F ds loss maxParity parity = maxParity"
        unfolding e by (subst parity_loop.simps) auto
      with stop True show ?thesis by auto
    next
      case False
      then have ih: "(\<forall>j. parity + 1 \<le> j \<and> j < parity_loop F ds loss maxParity (parity + 1) \<longrightarrow>
           \<not> fl_le F (binomialTail F (ds + j) loss j) (fl_lit F 5 1000))
         \<and> (parity_loop F ds loss maxParity (parity + 1) < maxParity \<longrightarrow>
              fl_le F (binomialTail F (ds + parity_loop F ds loss maxParity (parity + 1)) loss
                (parity_loop F ds loss maxParity (parity + 1))) (fl_lit F 5 1000))"
        using 1(1) [OF _ stop] 1(2,3) by auto
      have "\<not> fl_le F (binomialTail F (ds + j) loss j) (fl_lit F 5 1000)"
        if "parity \<le> j" "j < parity_loop F ds loss maxParity (parity + 1)" for j
        using that ih stop by (cases "j = parity") auto
      with ih show ?thesis unfolding e by blast
    qed
  qed
qed

section \<open>Reaction to loss, and recovery\<close>

abbreviation observe_all :: "'f floats \<Rightarrow> Feedback list \<Rightarrow> 'f Controller \<Rightarrow> 'f Controller" where
  "observe_all F fbs c \<equiv> foldl (\<lambda>c fb. fst (Controller_Observe F fb c)) c fbs"

lemma Observe_fst:
  "fst (Controller_Observe F fb c) = storeSnapshotsLocked F (fst (observe_body F fb c))"
  "snd (Controller_Observe F fb c) = snd (observe_body F fb c)"
  by (simp_all add: Controller_Observe_def case_prod_unfold Let_def)

lemma store_sel [simp]:
  "c_parity (storeSnapshotsLocked F c) = c_parity c" "c_unrecoveredGroups (storeSnapshotsLocked F c) = c_unrecoveredGroups c"
  "c_decreaseGroups (storeSnapshotsLocked F c) = c_decreaseGroups c" "c_interleave (storeSnapshotsLocked F c) = c_interleave c"
  "c_lossEWMA (storeSnapshotsLocked F c) = c_lossEWMA c" "c_lossInitialized (storeSnapshotsLocked F c) = c_lossInitialized c"
  by (simp_all add: storeSnapshotsLocked_def)

definition unrecovered :: "Feedback \<Rightarrow> bool" where
  "unrecovered fb \<longleftrightarrow> fb_total fb \<noteq> 0 \<and> fb_missing fb > fb_recovered fb"

definition lossless :: "Feedback \<Rightarrow> bool" where
  "lossless fb \<longleftrightarrow> fb_total fb \<noteq> 0 \<and> fb_missing fb = 0"

lemma unrecovered_potential:
  assumes "ctrl_ok c" "unrecovered fb" "c_parity c < 8"
  shows "3 * c_parity c + c_unrecoveredGroups c
     < 3 * c_parity (fst (Controller_Observe F fb c)) + c_unrecoveredGroups (fst (Controller_Observe F fb c))"
proof -
  let ?c2 = "observe_health fb (observe_loss F fb c)"
  let ?d = "desiredParityLocked F ?c2"
  note core = observe_loss_core [OF ctrl_core_of_ok [OF assms(1)], of F fb]
  note c2 = observe_health_core [OF conjunct1 [OF core], of fb]
  have b: "0 \<le> c_unrecoveredGroups c" "c_unrecoveredGroups c \<le> 2" using assms(1) by (auto simp: ctrl_ok_def)
  have m: "fb_missing fb > 0" using assms(2) by (metis unrecovered_def word_gt_0 word_n1_ge word_zero_le order.strict_trans1)
  show ?thesis
  proof (cases "c_parity c = 0")
    case True
    with assms(2) m core b show ?thesis
      by (auto simp: Observe_fst observe_body_def Let_def unrecovered_def)
  next
    case False
    then have "fst (observe_body F fb c) = observe_unrecovered fb ?d ?c2"
      using assms(2) core by (simp add: observe_body_def Let_def unrecovered_def)
    moreover have "3 * c_parity c + c_unrecoveredGroups c
        < 3 * c_parity (observe_unrecovered fb ?d ?c2) + c_unrecoveredGroups (observe_unrecovered fb ?d ?c2)"
      using b assms(3) c2 core by (auto simp: observe_unrecovered_def Let_def fec_consts)
    ultimately show ?thesis by (simp add: Observe_fst)
  qed
qed

lemma unrecovered_keeps: "ctrl_ok c \<Longrightarrow> unrecovered fb \<Longrightarrow> c_parity c \<le> c_parity (fst (Controller_Observe F fb c))"
  using observe_body_core [OF ctrl_core_of_ok, of c F fb] by (simp add: Observe_fst unrecovered_def)

lemma unrecovered_run:
  "ctrl_ok c \<Longrightarrow> \<forall>fb \<in> set fbs. unrecovered fb \<Longrightarrow>
   c_parity (observe_all F fbs c) = 8 \<or>
   3 * c_parity c + c_unrecoveredGroups c + int (length fbs)
     \<le> 3 * c_parity (observe_all F fbs c) + c_unrecoveredGroups (observe_all F fbs c)"
proof (induction fbs arbitrary: c)
  case Nil
  then show ?case by simp
next
  case (Cons fb fbs)
  let ?c = "fst (Controller_Observe F fb c)"
  have ok: "ctrl_ok ?c" using Observe_ok Cons.prems(1) by blast
  show ?case
  proof (cases "c_parity c < 8")
    case True
    with unrecovered_potential [OF Cons.prems(1) _ True, of fb F] Cons.IH [OF ok] Cons.prems(2) show ?thesis by auto
  next
    case False
    have "c_parity (observe_all F gs d) = 8" if "ctrl_ok d" "c_parity d = 8" "\<forall>fb \<in> set gs. unrecovered fb" for gs d
      using that
    proof (induction gs arbitrary: d)
      case (Cons g gs)
      have "c_parity (fst (Controller_Observe F g d)) = 8"
        using unrecovered_keeps [of d g F] Observe_ok [of d F g] Cons.prems by (auto simp: ctrl_ok_def fec_consts)
      with Cons Observe_ok [of d F g] show ?case by simp
    qed simp
    moreover have "c_parity c = 8" using False Cons.prems(1) by (auto simp: ctrl_ok_def fec_consts)
    ultimately show ?thesis using Cons.prems by blast
  qed
qed

text \<open>In exact arithmetic the loss estimate is a weighted mean of rates, and shrinks on a path without loss.\<close>

lemma ewma_mean:
  fixes e s a :: real
  assumes "0 \<le> e" "e \<le> 1" "0 \<le> s" "s \<le> 1" "0 \<le> a" "a \<le> 1"
  shows "0 \<le> (1 - a) * e + a * s" "(1 - a) * e + a * s \<le> 1"
proof -
  show "0 \<le> (1 - a) * e + a * s" using assms by simp
  have "(1 - a) * e \<le> (1 - a) * 1" "a * s \<le> a * 1" by (rule mult_left_mono; use assms in simp)+
  then show "(1 - a) * e + a * s \<le> 1" by simp
qed

definition ewma_ok :: "real Controller \<Rightarrow> bool" where
  "ewma_ok c \<longleftrightarrow> c_lossInitialized c \<and> 0 \<le> c_lossEWMA c \<and> c_lossEWMA c \<le> 1"

lemma update_ewma:
  "ewma_ok c \<Longrightarrow> 0 \<le> s \<Longrightarrow> s \<le> 1 \<Longrightarrow> 0 \<le> a \<Longrightarrow> a \<le> 1 \<Longrightarrow> ewma_ok (updateLossLocked exact_floats s a c)"
  using ewma_mean [of "c_lossEWMA c" s a] by (simp add: ewma_ok_def updateLossLocked_def)

lemma ratio_bounds: "(n :: int) \<ge> 0 \<Longrightarrow> n \<le> m \<Longrightarrow> 0 \<le> real_of_int n / real_of_int m \<and> real_of_int n / real_of_int m \<le> 1"
  by (cases "m = 0") (simp_all add: divide_le_eq_1)

lemma alpha_bounds:
  fixes x lo :: real
  assumes "0 \<le> lo" "lo \<le> 1 / 4"
  shows "lo \<le> min (1 / 4) (max lo x)" "0 \<le> min (1 / 4) (max lo x)" "min (1 / 4) (max lo x) \<le> 1"
  using assms by auto

lemma uint_min_le: "uint (min a b) \<le> uint (b :: 'a :: len word)"
  by (simp add: min_def word_le_def)

lemma body_ewma:
  shows "c_lossEWMA (observe_unrecovered fb d c) = c_lossEWMA c" "c_lossInitialized (observe_unrecovered fb d c) = c_lossInitialized c"
    and "c_lossEWMA (observe_recovered fb d c) = c_lossEWMA c" "c_lossInitialized (observe_recovered fb d c) = c_lossInitialized c"
    and "c_lossEWMA (observe_health fb c) = c_lossEWMA c" "c_lossInitialized (observe_health fb c) = c_lossInitialized c"
    and "c_lossEWMA (transport_react F l s c) = c_lossEWMA c" "c_lossInitialized (transport_react F l s c) = c_lossInitialized c"
  by (simp_all add: observe_unrecovered_def observe_recovered_def observe_health_def transport_react_def Let_def)

lemma observe_loss_ewma: "ewma_ok c \<Longrightarrow> fb_total fb \<noteq> 0 \<Longrightarrow> ewma_ok (observe_loss exact_floats fb c)"
proof -
  assume c: "ewma_ok c" and "fb_total fb \<noteq> 0"
  let ?s = "real_of_int (uint (min (fb_missing fb) (fb_total fb))) / real_of_int (uint (fb_total fb))"
  have "0 \<le> ?s \<and> ?s \<le> 1" by (rule ratio_bounds) (simp_all add: uint_min_le)
  with update_ewma [OF c, of ?s "min (1 / 4) (max (1 / 32) (real_of_int (uint (fb_total fb)) / 256))"]
    alpha_bounds [of "1 / 32" "real_of_int (uint (fb_total fb)) / 256"] show ?thesis
    by (simp add: observe_loss_def Let_def ewma_ok_def)
qed

lemma observe_ewma: "ewma_ok c \<Longrightarrow> ewma_ok (fst (Controller_Observe exact_floats fb c))"
  using observe_loss_ewma [of c fb]
  by (auto simp: Observe_fst observe_body_def Let_def ewma_ok_def body_ewma)

lemma transport_ewma: "ewma_ok c \<Longrightarrow> ewma_ok (fst (Controller_ObserveTransport exact_floats s l c))"
proof -
  assume c: "ewma_ok c"
  let ?c = "c\<lparr>c_lastTransportSent := s, c_lastTransportLost := l\<rparr>"
  let ?sent = "s - c_lastTransportSent c" and ?lost = "min (l - c_lastTransportLost c) (s - c_lastTransportSent c)"
  let ?r = "real_of_int (uint ?lost) / real_of_int (uint ?sent)"
  have "0 \<le> ?r \<and> ?r \<le> 1" by (rule ratio_bounds) (simp_all only: uint_min_le uint_ge_0)
  moreover have "ewma_ok ?c" using c by (simp add: ewma_ok_def)
  ultimately have "ewma_ok (updateLossLocked exact_floats ?r (min (1 / 4) (max (1 / 16) (real_of_int (uint ?sent) / 256))) ?c)"
    using update_ewma [of ?c ?r "min (1 / 4) (max (1 / 16) (real_of_int (uint ?sent) / 256))"]
      alpha_bounds [of "1 / 16" "real_of_int (uint ?sent) / 256"] by simp
  with c show ?thesis
    by (auto simp: Controller_ObserveTransport_def transport_body_def Let_def ewma_ok_def body_ewma)
qed

lemma ctrl_reach_ewma: "ctrl_reach exact_floats c \<Longrightarrow> ewma_ok c"
proof (induction rule: ctrl_reach.induct)
  case ctrl_new
  show ?case by (simp add: ewma_ok_def NewController_def)
next
  case (ctrl_shards c n)
  then show ?case by (simp add: ewma_ok_def SetDataShards_def)
next
  case (ctrl_rtt c rtt)
  then show ?case by (simp add: ewma_ok_def ObservePathRTT_def)
qed (simp_all add: observe_ewma transport_ewma)

lemma lossless_shrinks:
  assumes "ewma_ok c" "lossless fb"
  shows "c_lossEWMA (fst (Controller_Observe exact_floats fb c)) \<le> 31 / 32 * c_lossEWMA c"
    and "c_lossEWMA (observe_loss exact_floats fb c) \<le> 31 / 32 * c_lossEWMA c"
proof -
  let ?a = "min (1 / 4) (max (1 / 32) (real_of_int (uint (fb_total fb)) / 256))"
  have "c_lossEWMA (observe_loss exact_floats fb c) = (1 - ?a) * c_lossEWMA c"
    using assms by (simp add: observe_loss_def Let_def updateLossLocked_def ewma_ok_def lossless_def)
  also have "\<dots> \<le> 31 / 32 * c_lossEWMA c"
    using assms(1) by (intro mult_right_mono) (auto simp: ewma_ok_def)
  finally show "c_lossEWMA (observe_loss exact_floats fb c) \<le> 31 / 32 * c_lossEWMA c" .
  then show "c_lossEWMA (fst (Controller_Observe exact_floats fb c)) \<le> 31 / 32 * c_lossEWMA c"
    using assms(2) by (auto simp: Observe_fst observe_body_def Let_def lossless_def body_ewma)
qed

lemma desired_zero: "c_lossEWMA c \<le> 1 / 10000 \<Longrightarrow> desiredParityLocked exact_floats c = 0"
  by (auto simp: desiredParityLocked_def parityForLossThreshold_def Let_def defaultBypassLossThreshold_def
      minBypassLossThreshold_def le_max_iff_disj)

definition calm :: "real Controller \<Rightarrow> bool" where
  "calm c \<longleftrightarrow> ctrl_ok c \<and> ewma_ok c \<and> c_lossEWMA c \<le> 1 / 10000"

lemma calm_step:
  assumes "calm c" "lossless fb"
  shows "calm (fst (Controller_Observe exact_floats fb c))"
  using assms lossless_shrinks(1) [of c fb] Observe_ok observe_ewma by (auto simp: calm_def ewma_ok_def)

definition surplus :: "'f Controller \<Rightarrow> int" where
  "surplus c = 256 * c_parity c + c_interleave c - c_decreaseGroups c"

lemma recovered_surplus:
  assumes "ctrl_core c"
  shows "c_parity c = 0 \<Longrightarrow> c_parity (observe_recovered fb 0 c) = 0"
    and "0 < c_parity c \<Longrightarrow> surplus (observe_recovered fb 0 c) < surplus c"
  using assms decreaseWindow_bounds [of 0 "c\<lparr>c_unrecoveredGroups := 0, c_severeLossGroups := 0\<rparr>"]
  by (auto simp: observe_recovered_def Let_def surplus_def ctrl_core_def ctrl_ok_def)

lemma lossless_step:
  assumes c: "calm c" and l: "lossless fb"
  shows "c_parity c = 0 \<Longrightarrow> c_parity (fst (Controller_Observe exact_floats fb c)) = 0"
    and "0 < c_parity c \<Longrightarrow> surplus (fst (Controller_Observe exact_floats fb c)) < surplus c"
proof -
  let ?c1 = "observe_loss exact_floats fb c"
  let ?c2 = "observe_health fb ?c1"
  have core: "ctrl_core c" using c ctrl_core_of_ok by (auto simp: calm_def)
  note c1 = observe_loss_core [OF core, of exact_floats fb]
  note c2 = observe_health_core [OF conjunct1 [OF c1], of fb]
  have "c_lossEWMA ?c2 \<le> 1 / 10000"
    using lossless_shrinks(2) [of c fb] c l by (simp add: calm_def ewma_ok_def body_ewma)
  then have "fst (observe_body exact_floats fb c) = observe_recovered fb 0 ?c2"
    using l c1 desired_zero [of ?c2] by (simp add: observe_body_def Let_def lossless_def)
  moreover have "surplus ?c2 = surplus c"
    by (simp add: surplus_def observe_health_def observe_loss_def Let_def updateLossLocked_def)
  ultimately show "c_parity c = 0 \<Longrightarrow> c_parity (fst (Controller_Observe exact_floats fb c)) = 0"
    and "0 < c_parity c \<Longrightarrow> surplus (fst (Controller_Observe exact_floats fb c)) < surplus c"
    using recovered_surplus [OF conjunct1 [OF c2], of fb] c1 c2 by (simp_all add: Observe_fst surplus_def)
qed

lemma lossless_run:
  "calm c \<Longrightarrow> \<forall>fb \<in> set fbs. lossless fb \<Longrightarrow>
   calm (observe_all exact_floats fbs c) \<and>
   (c_parity (observe_all exact_floats fbs c) = 0 \<or> surplus (observe_all exact_floats fbs c) + int (length fbs) \<le> surplus c)"
proof (induction fbs rule: rev_induct)
  case Nil
  then show ?case by simp
next
  case (snoc fb fbs)
  let ?c = "observe_all exact_floats fbs c"
  have c: "calm ?c" and p: "c_parity ?c = 0 \<or> surplus ?c + int (length fbs) \<le> surplus c" and l: "lossless fb"
    using snoc by auto
  have "0 \<le> c_parity ?c" using c by (simp add: calm_def ctrl_ok_def)
  with calm_step [OF c l] lossless_step [OF c l] p show ?case by fastforce
qed

lemma lossless_decay:
  "ctrl_ok c \<Longrightarrow> ewma_ok c \<Longrightarrow> \<forall>fb \<in> set fbs. lossless fb \<Longrightarrow>
   ctrl_ok (observe_all exact_floats fbs c) \<and> ewma_ok (observe_all exact_floats fbs c)
   \<and> c_lossEWMA (observe_all exact_floats fbs c) \<le> (31 / 32) ^ length fbs"
proof (induction fbs rule: rev_induct)
  case Nil
  then show ?case by (simp add: ewma_ok_def)
next
  case (snoc fb fbs)
  then show ?case
    using lossless_shrinks(1) [of "observe_all exact_floats fbs c" fb] Observe_ok observe_ewma by auto
qed

lemma lossless_long:
  assumes "ctrl_ok c" "ewma_ok c" "\<forall>fb \<in> set fbs. lossless fb" "2342 \<le> length fbs"
  shows "c_parity (observe_all exact_floats fbs c) = 0"
proof -
  let ?c = "observe_all exact_floats (take 291 fbs) c" and ?rest = "drop 291 fbs"
  have "(31 / 32 :: real) ^ 97 \<le> 464 / 10000" by (simp add: power_divide divide_le_eq)
  then have "((31 / 32 :: real) ^ 97) ^ 3 \<le> (464 / 10000) ^ 3" by (rule power_mono) simp
  also have "\<dots> \<le> (1 / 10000 :: real)" by (simp add: power_divide)
  also have "((31 / 32 :: real) ^ 97) ^ 3 = (31 / 32) ^ (97 * 3)" by (simp only: power_mult)
  also have "97 * 3 = (291 :: nat)" by simp
  finally have "(31 / 32 :: real) ^ 291 \<le> 1 / 10000" .
  moreover have len: "length (take 291 fbs) = 291" using assms(4) by simp
  have "\<forall>fb \<in> set (take 291 fbs). lossless fb" using assms(3) by (meson in_set_takeD)
  from lossless_decay [OF assms(1,2) this] have d: "ctrl_ok ?c" "ewma_ok ?c" "c_lossEWMA ?c \<le> (31 / 32) ^ 291"
    unfolding len by blast+
  ultimately have c: "calm ?c" unfolding calm_def by (meson order_trans)
  have "\<forall>fb \<in> set ?rest. lossless fb" using assms(3) by (meson in_set_dropD)
  from lossless_run [OF c this] have r: "calm (observe_all exact_floats ?rest ?c)"
    "c_parity (observe_all exact_floats ?rest ?c) = 0
     \<or> surplus (observe_all exact_floats ?rest ?c) + int (length ?rest) \<le> surplus ?c" by blast+
  have "surplus ?c \<le> 2052" using d(1) by (auto simp: surplus_def ctrl_ok_def fec_consts)
  moreover have "0 < c_parity (observe_all exact_floats ?rest ?c) \<Longrightarrow> 2 \<le> surplus (observe_all exact_floats ?rest ?c)"
    "0 \<le> c_parity (observe_all exact_floats ?rest ?c)"
    using r(1) by (auto simp: surplus_def ctrl_ok_def calm_def)
  moreover have "2051 \<le> int (length ?rest)" using assms(4) by simp
  ultimately have "c_parity (observe_all exact_floats ?rest ?c) = 0" using r(2) by linarith
  moreover have "observe_all exact_floats ?rest ?c = observe_all exact_floats fbs c"
    unfolding foldl_append [symmetric] by simp
  ultimately show ?thesis by simp
qed

section \<open>Properties of the controller\<close>

text \<open>C24.  Whatever the arithmetic and whatever is fed back, the published protection stays in range: at
  most 8 parity shards, an interleave of 1, 2 or 4.  One feedback moves the parity by at most one and
  reports exactly whether it moved; an unrecovered group never lowers it and a group without loss never
  raises it; transport counters never lower it.\<close>

theorem controller_bounded:
  assumes "ctrl_reach F c"
  shows "0 \<le> CurrentParity c \<and> CurrentParity c \<le> 8 \<and> CurrentInterleave c \<in> {1, 2, 4}
     \<and> \<bar>c_parity (fst (Controller_Observe F fb c)) - c_parity c\<bar> \<le> 1
     \<and> (snd (Controller_Observe F fb c) \<longleftrightarrow> c_parity (fst (Controller_Observe F fb c)) \<noteq> c_parity c)
     \<and> (fb_missing fb > fb_recovered fb \<longrightarrow> c_parity (fst (Controller_Observe F fb c)) \<ge> c_parity c)
     \<and> (fb_missing fb = 0 \<longrightarrow> c_parity (fst (Controller_Observe F fb c)) \<le> c_parity c)
     \<and> c_parity c \<le> c_parity (fst (Controller_ObserveTransport F sent lost c))"
proof -
  have ok: "ctrl_ok c" using ctrl_reach_ok assms by blast
  then have "0 \<le> CurrentParity c \<and> CurrentParity c \<le> 8 \<and> CurrentInterleave c \<in> {1, 2, 4}"
    by (simp add: ctrl_ok_def CurrentParity_def CurrentInterleave_def fec_consts)
  with observe_body_core [OF ctrl_core_of_ok [OF ok], of F fb] transport_body_core [OF ctrl_core_of_ok [OF ok], of F sent lost]
  show ?thesis by (simp add: Observe_fst Controller_ObserveTransport_def case_prod_unfold Let_def)
qed

definition lost_four :: Feedback where
  "lost_four = \<lparr>fb_epoch = 1, fb_groupID = 3, fb_missing = 4, fb_recovered = 0, fb_total = 8\<rparr>"

definition lost_none :: Feedback where
  "lost_none = \<lparr>fb_epoch = 1, fb_groupID = 3, fb_missing = 0, fb_recovered = 0, fb_total = 8\<rparr>"

theorem controller_bounded_witness:
  "\<bar>c_parity (fst (Controller_Observe exact_floats lost_four (NewController exact_floats))) - 1\<bar> \<le> 1
   \<and> c_parity (fst (Controller_Observe exact_floats lost_four (NewController exact_floats))) \<ge> 1"
  using controller_bounded [OF ctrl_new [of exact_floats], of lost_four] by (simp add: lost_four_def NewController_def)

text \<open>C25.  Persistent loss is answered: after 24 consecutive groups with unrecovered losses the parity
  is at its maximum, from every reachable state and for every arithmetic.\<close>

theorem unrecovered_loss_saturates:
  assumes "ctrl_reach F c" "\<forall>fb \<in> set fbs. unrecovered fb" "24 \<le> length fbs"
  shows "CurrentParity (observe_all F fbs c) = 8"
proof -
  let ?c = "observe_all F fbs c"
  have ok: "ctrl_ok c" using ctrl_reach_ok assms(1) by blast
  have "ctrl_ok (observe_all F fbs c)" using ok Observe_ok by (induction fbs arbitrary: c) auto
  then have "c_parity ?c \<le> 8" "c_unrecoveredGroups ?c \<le> 2" "CurrentParity ?c = c_parity ?c"
    by (auto simp: ctrl_ok_def fec_consts CurrentParity_def)
  moreover have "0 \<le> c_parity c" "0 \<le> c_unrecoveredGroups c" using ok by (auto simp: ctrl_ok_def)
  ultimately show ?thesis using unrecovered_run [OF ok assms(2), of F] assms(3) by linarith
qed

theorem unrecovered_loss_saturates_witness:
  "CurrentParity (observe_all exact_floats (replicate 24 lost_four) (NewController exact_floats)) = 8"
  by (rule unrecovered_loss_saturates [OF ctrl_new]) (simp_all add: unrecovered_def lost_four_def)

text \<open>C26.  A healthy path sheds its protection: in exact arithmetic, after 2342 consecutive groups
  without loss the controller is at parity zero, the unprotected fast path, from every reachable state.\<close>

theorem lossless_path_bypasses:
  assumes "ctrl_reach exact_floats c" "\<forall>fb \<in> set fbs. lossless fb" "2342 \<le> length fbs"
  shows "CurrentParity (observe_all exact_floats fbs c) = 0"
proof -
  have ok: "ctrl_ok c" using ctrl_reach_ok assms(1) by blast
  then have "ctrl_ok (observe_all exact_floats fbs c)" using Observe_ok by (induction fbs arbitrary: c) auto
  then have "CurrentParity (observe_all exact_floats fbs c) = c_parity (observe_all exact_floats fbs c)"
    by (simp add: ctrl_ok_def CurrentParity_def)
  with lossless_long [OF ok ctrl_reach_ewma [OF assms(1)] assms(2,3)] show ?thesis by simp
qed

theorem lossless_path_bypasses_witness:
  "CurrentParity (observe_all exact_floats (replicate 2342 lost_none) (NewController exact_floats)) = 0"
  by (rule lossless_path_bypasses [OF ctrl_new]) (simp_all add: lossless_def lost_none_def)

text \<open>In exact arithmetic the recurrence of \<open>binomialTail\<close> is the probability that more than the
  given number of the shards are lost, for independent losses.\<close>

theorem binomialTail_exact:
  assumes "0 < p" "p < 1" "s \<le> n"
  shows "binomialTail exact_floats (int n) p (int s) = (\<Sum>i = Suc s..n. real (n choose i) * p ^ i * (1 - p) ^ (n - i))"
  using binomialTail_exact_aux [OF assms] by (simp add: binom_prob_def)

theorem binomialTail_exact_witness:
  "binomialTail exact_floats (int 3) (1 / 2) (int 1) = 1 / 2"
proof -
  have "{Suc 1..3} = {2, 3 :: nat}" by auto
  then show ?thesis using binomialTail_exact [of "1 / 2" 1 3] by (simp add: eval_nat_numeral)
qed



end
