(* ===== verification/Fec_Encoder.thy ===== *)
theory Fec_Encoder
  imports Fec_Controller
begin

text \<open>
  The FEC encoder of \<open>internal/transport/fec/encoder.go\<close>.  Shard and parity buffers that the code
  recycles between calls are values here (\<open>marshalPacket\<close> copies them before anything leaves the
  encoder), and the controller is a field of the state.
\<close>

datatype enc_error =
    InvalidFrameLength
  | InvalidDataShardCount
  | InvalidInterleave
  | CodecUnavailable
  | EncodeFailed

record encoderGroup =
  g_groupID :: u64
  g_epoch :: u16
  g_parity :: int
  g_data :: "bytes list"

record 'f Encoder =
  e_epoch :: u16
  e_epochSnapshot :: u32
  e_nextGroupID :: u64
  e_maxData :: nat
  e_interleave :: nat
  e_minInterleave :: nat
  e_controller :: "'f Controller"
  e_codecs :: codecs
  e_groups :: "encoderGroup list"
  e_current :: nat
  e_groupParity :: int
  e_lastParity :: int
  e_unprotected :: nat

definition padShard :: "bytes \<Rightarrow> nat \<Rightarrow> bytes" where
  "padShard shard shardSize =
     (if length shard = shardSize then shard else take shardSize (shard @ replicate shardSize 0))"

definition empty_group :: encoderGroup where
  "empty_group = \<lparr>g_groupID = 0, g_epoch = 0, g_parity = 0, g_data = []\<rparr>"

definition initGroups :: "nat \<Rightarrow> 'f Encoder \<Rightarrow> 'f Encoder" where
  "initGroups n e = e\<lparr>e_groups := replicate n empty_group, e_current := 0\<rparr>"

definition NewEncoder :: "int \<Rightarrow> 'f Controller \<Rightarrow> 'f Encoder" where
  "NewEncoder maxData controller =
     (let maxData = (if maxData \<le> 0 \<or> maxData > int MaxDataShards then int DefaultDataShards else maxData);
          controller = SetDataShards maxData controller
      in initGroups 1
           \<lparr>e_epoch = 1, e_epochSnapshot = 1, e_nextGroupID = 0, e_maxData = nat maxData, e_interleave = 1,
            e_minInterleave = 1, e_controller = controller, e_codecs = [], e_groups = [], e_current = 0,
            e_groupParity = 0, e_lastParity = -1, e_unprotected = 0\<rparr>)"

definition parity_packet :: "encoderGroup \<Rightarrow> nat \<Rightarrow> int \<Rightarrow> nat \<times> bytes \<Rightarrow> packet" where
  "parity_packet g k r ip =
     \<lparr>p_kind = KindParity, p_epoch = g_epoch g, p_groupID = g_groupID g, p_index = of_nat (fst ip),
      p_k = of_nat k, p_r = of_int r, p_payload = snd ip\<rparr>"

definition close_packet :: "encoderGroup \<Rightarrow> nat \<Rightarrow> int \<Rightarrow> packet" where
  "close_packet g k r =
     \<lparr>p_kind = KindClose, p_epoch = g_epoch g, p_groupID = g_groupID g, p_index = 0,
      p_k = of_nat k, p_r = of_int r, p_payload = []\<rparr>"

definition group_repair :: "encoderGroup \<Rightarrow> int" where
  "group_repair g =
     (let r = min (g_parity g) (max 1 (int (length (g_data g)) div 2))
      in if r > int MaxParityShards then int MaxParityShards else r)"

definition flushGroup :: "rs_lib \<Rightarrow> codecs \<Rightarrow> encoderGroup \<Rightarrow> codecs \<times> encoderGroup \<times> (enc_error + bytes list)" where
  "flushGroup lib codecs g =
     (let k = length (g_data g); r = group_repair g
      in if k = 0 then (codecs, g, Inr [])
         else if r > 0 then
           let shardSize = foldl max 0 (map length (g_data g));
               shards = map (\<lambda>s. padShard s shardSize) (g_data g);
               g' = g\<lparr>g_data := shards\<rparr>
           in case cachedCodec lib codecs k (nat r) of
                (codecs', None) \<Rightarrow> (codecs', g', Inl CodecUnavailable)
              | (codecs', Some codec) \<Rightarrow>
                  (case codec_Encode lib k (nat r) shards of
                     None \<Rightarrow> (codecs', g', Inl EncodeFailed)
                   | Some parity \<Rightarrow>
                       (codecs', g'\<lparr>g_data := []\<rparr>,
                        Inr (map (\<lambda>ip. marshalPacket (parity_packet g k r ip)) (enumerate 0 parity)
                             @ [marshalPacket (close_packet g k r)])))
         else (codecs, g\<lparr>g_data := []\<rparr>, Inr [marshalPacket (close_packet g k r)]))"

text \<open>The loop of \<open>flushAll\<close>: the first error ends it and drops what earlier groups returned.\<close>

fun flush_loop :: "rs_lib \<Rightarrow> codecs \<Rightarrow> encoderGroup list \<Rightarrow> codecs \<times> encoderGroup list \<times> (enc_error + bytes list)" where
  "flush_loop lib codecs [] = (codecs, [], Inr [])"
| "flush_loop lib codecs (g # gs) =
     (case flushGroup lib codecs g of
        (codecs, g', Inl err) \<Rightarrow> (codecs, g' # gs, Inl err)
      | (codecs, g', Inr flushed) \<Rightarrow>
          (case flush_loop lib codecs gs of
             (codecs, gs', Inl err) \<Rightarrow> (codecs, g' # gs', Inl err)
           | (codecs, gs', Inr output) \<Rightarrow> (codecs, g' # gs', Inr (flushed @ output))))"

definition flushAll :: "rs_lib \<Rightarrow> 'f Encoder \<Rightarrow> 'f Encoder \<times> (enc_error + bytes list)" where
  "flushAll lib e =
     (case flush_loop lib (e_codecs e) (e_groups e) of
        (codecs, groups, out) \<Rightarrow> (e\<lparr>e_codecs := codecs, e_groups := groups\<rparr>, out))"

definition Encoder_Flush :: "rs_lib \<Rightarrow> 'f Encoder \<Rightarrow> 'f Encoder \<times> (enc_error + bytes list)" where
  "Encoder_Flush lib e = flushAll lib e"

definition setInterleave :: "rs_lib \<Rightarrow> nat \<Rightarrow> 'f Encoder \<Rightarrow> 'f Encoder \<times> (enc_error + bytes list)" where
  "setInterleave lib n e =
     (let n = (if n < 1 then 1 else n); n = (if n > MaxInterleave then MaxInterleave else n)
      in if n = e_interleave e then (e, Inr [])
         else case flushAll lib e of
                (e, Inl err) \<Rightarrow> (e, Inl err)
              | (e, Inr flushed) \<Rightarrow> (initGroups n (e\<lparr>e_interleave := n\<rparr>), Inr flushed))"

definition target_interleave :: "'f Encoder \<Rightarrow> nat" where
  "target_interleave e = max (e_minInterleave e) (nat (CurrentInterleave (e_controller e)))"

definition SetInterleave :: "rs_lib \<Rightarrow> int \<Rightarrow> 'f Encoder \<Rightarrow> 'f Encoder \<times> enc_error option" where
  "SetInterleave lib n e =
     (let e = e\<lparr>e_minInterleave := min MaxInterleave (nat (max 1 n))\<rparr>
      in case setInterleave lib (target_interleave e) e of
           (e, Inl err) \<Rightarrow> (e, Some err)
         | (e, Inr _) \<Rightarrow> (e, None))"

definition Reconfigure :: "rs_lib \<Rightarrow> int \<Rightarrow> int \<Rightarrow> 'f Encoder \<Rightarrow> 'f Encoder \<times> (enc_error + bytes list)" where
  "Reconfigure lib maxData interleave e =
     (if maxData \<le> 0 \<or> maxData > int MaxDataShards then (e, Inl InvalidDataShardCount)
      else if interleave < 1 \<or> interleave > int MaxInterleave then (e, Inl InvalidInterleave)
      else case flushAll lib e of
             (e, Inl err) \<Rightarrow> (e, Inl err)
           | (e, Inr flushed) \<Rightarrow>
               let e = e\<lparr>e_maxData := nat maxData, e_controller := SetDataShards maxData (e_controller e),
                         e_minInterleave := nat interleave\<rparr>;
                   e = e\<lparr>e_interleave := target_interleave e\<rparr>
               in (initGroups (e_interleave e) e, Inr flushed))"

text \<open>The part of \<open>Add\<close> that ends an epoch when the parity target has changed.\<close>

definition next_epoch :: "rs_lib \<Rightarrow> 'f Encoder \<Rightarrow> 'f Encoder \<times> (enc_error + bytes list)" where
  "next_epoch lib e =
     (case flushAll lib e of
        (e, Inl err) \<Rightarrow> (e, Inl err)
      | (e, Inr flushed) \<Rightarrow>
          let epoch = e_epoch e + 1; epoch = (if epoch = 0 then 1 else epoch)
          in (e\<lparr>e_epoch := epoch, e_epochSnapshot := ucast epoch\<rparr>, Inr flushed))"

definition data_packet :: "encoderGroup \<Rightarrow> nat \<Rightarrow> bytes \<Rightarrow> packet" where
  "data_packet g index shard =
     \<lparr>p_kind = KindData, p_epoch = g_epoch g, p_groupID = g_groupID g, p_index = of_nat index,
      p_k = 0, p_r = 0, p_payload = shard\<rparr>"

definition data_shard :: "bytes \<Rightarrow> bytes" where
  "data_shard frame = put16 (of_nat (length frame)) @ frame"

text \<open>The part of \<open>Add\<close> that appends the frame to the current group, and closes it when it is full.\<close>

definition add_shard :: "rs_lib \<Rightarrow> bytes \<Rightarrow> 'f Encoder \<Rightarrow> 'f Encoder \<times> (enc_error + bytes list)" where
  "add_shard lib frame e =
     (let g = e_groups e ! e_current e;
          (e, g) = (if g_data g = []
            then (e\<lparr>e_nextGroupID := e_nextGroupID e + 1\<rparr>,
                  g\<lparr>g_groupID := e_nextGroupID e, g_epoch := e_epoch e, g_parity := e_groupParity e\<rparr>)
            else (e, g));
          index = length (g_data g);
          shard = data_shard frame;
          g = g\<lparr>g_data := g_data g @ [shard]\<rparr>;
          output = [marshalPacket (data_packet g index shard)]
      in if length (g_data g) = e_maxData e
         then case flushGroup lib (e_codecs e) g of
                (codecs, g, Inl err) \<Rightarrow>
                  (e\<lparr>e_codecs := codecs, e_groups := (e_groups e)[e_current e := g]\<rparr>, Inl err)
              | (codecs, g, Inr closing) \<Rightarrow>
                  (e\<lparr>e_codecs := codecs, e_groups := (e_groups e)[e_current e := g],
                     e_current := (e_current e + 1) mod e_interleave e\<rparr>, Inr (output @ closing))
         else (e\<lparr>e_groups := (e_groups e)[e_current e := g],
                 e_current := (e_current e + 1) mod e_interleave e\<rparr>, Inr output))"

text \<open>The part of \<open>Add\<close> that fixes the protection of a new group; parity zero means a probe group.\<close>

definition pick_parity :: "int \<Rightarrow> 'f Encoder \<Rightarrow> 'f Encoder" where
  "pick_parity p e =
     (let e = e\<lparr>e_lastParity := p, e_groupParity := p\<rparr>
      in if e_groupParity e = 0 then e\<lparr>e_groupParity := 1, e_unprotected := 0\<rparr> else e)"

definition Encoder_Add :: "rs_lib \<Rightarrow> bytes \<Rightarrow> 'f Encoder \<Rightarrow> 'f Encoder \<times> (enc_error + bytes list)" where
  "Encoder_Add lib frame e =
     (if frame = [] \<or> length frame > MaxFrameSize then (e, Inl InvalidFrameLength)
      else case (if target_interleave e \<noteq> e_interleave e then setInterleave lib (target_interleave e) e else (e, Inr [])) of
        (e, Inl err) \<Rightarrow> (e, Inl err)
      | (e, Inr output) \<Rightarrow>
          let targetParity = CurrentParity (e_controller e)
          in if targetParity = 0 \<and> e_unprotected e < healthyProbeFrames
             then (e\<lparr>e_unprotected := e_unprotected e + 1\<rparr>, Inr (output @ [frame]))
             else case (if e_lastParity e \<ge> 0 \<and> targetParity \<noteq> e_lastParity e then next_epoch lib e else (e, Inr [])) of
               (e, Inl err) \<Rightarrow> (e, Inl err)
             | (e, Inr flushed) \<Rightarrow>
                 (case add_shard lib frame (pick_parity targetParity e) of
                    (e, Inl err) \<Rightarrow> (e, Inl err)
                  | (e, Inr added) \<Rightarrow> (e, Inr (output @ flushed @ added))))"

definition Encoder_Pending :: "'f Encoder \<Rightarrow> bool" where
  "Encoder_Pending e = list_ex (\<lambda>g. length (g_data g) \<noteq> 0) (e_groups e)"

definition FlushDelay :: "duration \<Rightarrow> 'f Encoder \<Rightarrow> duration" where
  "FlushDelay base e = go_quot (base * int (e_interleave e)) (int (e_minInterleave e))"

definition Encoder_Observe :: "'f floats \<Rightarrow> Feedback \<Rightarrow> 'f Encoder \<Rightarrow> 'f Encoder" where
  "Encoder_Observe F fb e =
     (if ucast (fb_epoch fb) = e_epochSnapshot e
      then e\<lparr>e_controller := fst (Controller_Observe F fb (e_controller e))\<rparr> else e)"

definition Encoder_ObserveTransport :: "'f floats \<Rightarrow> u64 \<Rightarrow> u64 \<Rightarrow> 'f Encoder \<Rightarrow> 'f Encoder" where
  "Encoder_ObserveTransport F sent lost e =
     e\<lparr>e_controller := fst (Controller_ObserveTransport F sent lost (e_controller e))\<rparr>"

definition Encoder_ObservePathRTT :: "duration \<Rightarrow> 'f Encoder \<Rightarrow> 'f Encoder" where
  "Encoder_ObservePathRTT rtt e = e\<lparr>e_controller := ObservePathRTT rtt (e_controller e)\<rparr>"

definition Encoder_Stats :: "'f Encoder \<Rightarrow> int \<times> u64" where
  "Encoder_Stats e = (CurrentParity (e_controller e), LossEstimatePPM (e_controller e))"

section \<open>Padding and the shards of a group\<close>

lemma length_padShard [simp]: "length s \<le> n \<Longrightarrow> length (padShard s n) = n"
  by (simp add: padShard_def)

lemma padShard_append: "length s \<le> n \<Longrightarrow> padShard s n = s @ replicate (n - length s) 0"
  by (simp add: padShard_def min_def)

lemma foldl_max_start: "(a :: nat) \<le> foldl max a xs"
  by (induction xs arbitrary: a) (simp, metis foldl_Cons max.bounded_iff)

lemma foldl_max_upper: "x \<in> set xs \<Longrightarrow> x \<le> foldl max (a :: nat) xs"
proof (induction xs arbitrary: a)
  case (Cons y ys)
  then show ?case using foldl_max_start [of "max a y" ys] by auto
qed simp

lemma foldl_max_le: "a \<le> b \<Longrightarrow> \<forall>x \<in> set xs. x \<le> b \<Longrightarrow> foldl max (a :: nat) xs \<le> b"
  by (induction xs arbitrary: a) auto

definition shard_size :: "bytes list \<Rightarrow> nat" where
  "shard_size shards = foldl max 0 (map length shards)"

lemma shard_size_ge: "s \<in> set shards \<Longrightarrow> length s \<le> shard_size shards"
  by (simp add: shard_size_def foldl_max_upper)

lemma shard_size_le: "\<forall>s \<in> set shards. length s \<le> n \<Longrightarrow> shard_size shards \<le> n"
  by (simp add: shard_size_def foldl_max_le)

lemma length_data_shard [simp]: "length (data_shard frame) = length frame + 2"
  by (simp add: data_shard_def)

section \<open>What the encoder relies on of the library\<close>

text \<open>All dimensions the encoder uses with at most \<open>m\<close> data shards per group.\<close>

definition rs_good :: "rs_lib \<Rightarrow> nat \<Rightarrow> bool" where
  "rs_good lib m \<longleftrightarrow> (\<forall>k r. 1 \<le> k \<and> k \<le> m \<and> 1 \<le> r \<and> r \<le> 8 \<and> r \<le> max 1 (k div 2) \<longrightarrow> rs_mds lib k r)"

lemma xor_lib_good: "m \<le> 3 \<Longrightarrow> rs_good xor_lib m"
proof -
  assume "m \<le> 3"
  then have "r = 1" if "k \<le> m" "1 \<le> r" "r \<le> max 1 (k div 2)" for k r
    using that div_le_mono [of k 3 2] by simp
  then show ?thesis unfolding rs_good_def by (metis xor_lib_mds less_le_trans zero_less_one)
qed

definition frame_ok :: "bytes \<Rightarrow> bool" where
  "frame_ok f \<longleftrightarrow> f \<noteq> [] \<and> length f \<le> MaxFrameSize"

text \<open>The frames a group holds, read off its shards.\<close>

definition holds :: "encoderGroup \<Rightarrow> bytes list \<Rightarrow> bool" where
  "holds g fs \<longleftrightarrow> g_data g = map data_shard fs \<and> (\<forall>f \<in> set fs. frame_ok f)"

text \<open>The parity shards of a group, and the packets that close it.\<close>

definition padded :: "bytes list \<Rightarrow> bytes list" where
  "padded fs = (let shards = map data_shard fs in map (\<lambda>s. padShard s (shard_size shards)) shards)"

definition group_parity :: "rs_lib \<Rightarrow> nat \<Rightarrow> bytes list \<Rightarrow> bytes list" where
  "group_parity lib r fs = the (rs_encode lib (length fs) r (padded fs))"

definition repair_count :: "int \<Rightarrow> nat \<Rightarrow> nat" where
  "repair_count parity k = nat (min 8 (min parity (max 1 (int k div 2))))"

definition closing_packets :: "rs_lib \<Rightarrow> encoderGroup \<Rightarrow> bytes list \<Rightarrow> packet list" where
  "closing_packets lib g fs =
     (let k = length fs; r = repair_count (g_parity g) k
      in map (parity_packet g k (int r)) (enumerate 0 (group_parity lib r fs)) @ [close_packet g k (int r)])"

lemma padded_lengths: "\<forall>s \<in> set (padded fs). length s = shard_size (map data_shard fs)"
  by (auto simp: padded_def Let_def intro!: length_padShard shard_size_ge)

lemma shard_size_pos: "fs \<noteq> [] \<Longrightarrow> 0 < shard_size (map data_shard fs)"
  using shard_size_ge [of "data_shard (hd fs)" "map data_shard fs"] by (cases fs) auto

lemma repair_dims:
  assumes "1 \<le> p" "1 \<le> k"
  shows "1 \<le> repair_count p k" "repair_count p k \<le> 8" "repair_count p k \<le> max 1 (k div 2)"
    "int (repair_count p k) = min 8 (min p (max 1 (int k div 2)))"
  using assms by (auto simp: repair_count_def zdiv_int [symmetric])

lemma group_parity_mds:
  assumes lib: "rs_good lib m" and fs: "fs \<noteq> []" "length fs \<le> m" and p: "1 \<le> p"
  defines "r \<equiv> repair_count p (length fs)" and "n \<equiv> shard_size (map data_shard fs)"
  shows "rs_new lib (length fs) r" "rs_encode lib (length fs) r (padded fs) = Some (group_parity lib r fs)"
    "length (group_parity lib r fs) = r" "\<forall>s \<in> set (group_parity lib r fs). length s = n"
    "survivors (length fs) (padded fs @ group_parity lib r fs) shards \<Longrightarrow>
       \<exists>out. rs_reconstruct lib c (length fs) r shards = Some out \<and> take (length fs) out = padded fs"
proof -
  have k: "1 \<le> length fs" using fs by (cases fs) auto
  have m: "rs_mds lib (length fs) r"
    using lib fs(2) repair_dims [OF p k] k by (auto simp: rs_good_def r_def)
  then show "rs_new lib (length fs) r" by (simp add: rs_mds_def)
  have "length (padded fs) = length fs" by (simp add: padded_def Let_def)
  from rs_mdsD [OF m shard_size_pos [OF fs(1)] this padded_lengths]
  obtain par where par: "rs_encode lib (length fs) r (padded fs) = Some par" "length par = r" "\<forall>d \<in> set par. length d = n"
    "\<And>c shards. survivors (length fs) (padded fs @ par) shards \<Longrightarrow>
       \<exists>out. rs_reconstruct lib c (length fs) r shards = Some out \<and> take (length fs) out = padded fs"
    unfolding n_def by metis
  moreover have "group_parity lib r fs = par" using par(1) by (simp add: group_parity_def)
  ultimately show "rs_encode lib (length fs) r (padded fs) = Some (group_parity lib r fs)"
    "length (group_parity lib r fs) = r" "\<forall>s \<in> set (group_parity lib r fs). length s = n"
    "survivors (length fs) (padded fs @ group_parity lib r fs) shards \<Longrightarrow>
       \<exists>out. rs_reconstruct lib c (length fs) r shards = Some out \<and> take (length fs) out = padded fs"
    by auto
qed

lemma flushGroup_spec:
  assumes g: "holds g fs" and fs: "fs \<noteq> []" "length fs \<le> m" and p: "1 \<le> g_parity g" and lib: "rs_good lib m"
  shows "flushGroup lib codecs g =
     (fst (cachedCodec lib codecs (length fs) (repair_count (g_parity g) (length fs))), g\<lparr>g_data := []\<rparr>,
      Inr (map marshalPacket (closing_packets lib g fs)))"
proof -
  let ?k = "length fs" and ?r = "repair_count (g_parity g) (length fs)"
  have k: "1 \<le> ?k" using fs by (cases fs) auto
  have d: "g_data g = map data_shard fs" using g by (simp add: holds_def)
  have r: "group_repair g = int ?r"
    unfolding group_repair_def Let_def d length_map repair_dims(4) [OF p k] by (auto simp: MaxParityShards_def min_def)
  note mds = group_parity_mds [OF lib fs p]
  have c: "\<exists>c. snd (cachedCodec lib codecs ?k ?r) = Some c"
    using mds(1) by (simp add: cachedCodec_def Let_def split: option.splits)
  have "map (\<lambda>s. padShard s (foldl max 0 (map length (g_data g)))) (g_data g) = padded fs"
    by (simp add: d padded_def shard_size_def Let_def comp_def)
  moreover have "0 < int ?r" using repair_dims(1) [OF p k] by simp
  ultimately show ?thesis
    using c k mds(2) by (auto simp: flushGroup_def Let_def r d codec_Encode_def closing_packets_def comp_def split: prod.splits)
qed

lemma flushGroup_empty: "g_data g = [] \<Longrightarrow> flushGroup lib codecs g = (codecs, g, Inr [])"
  by (simp add: flushGroup_def Let_def)

section \<open>The abstract sender: groups that are opened, filled and closed\<close>

type_synonym group_info = "u16 \<times> int \<times> bytes list"

definition info_group :: "u64 \<Rightarrow> group_info \<Rightarrow> encoderGroup" where
  "info_group gid i = \<lparr>g_groupID = gid, g_epoch = fst i, g_parity = fst (snd i), g_data = []\<rparr>"

definition data_packets :: "u64 \<Rightarrow> group_info \<Rightarrow> packet list" where
  "data_packets gid i = map (\<lambda>(j, f). data_packet (info_group gid i) j (data_shard f)) (enumerate 0 (snd (snd i)))"

definition group_word :: "rs_lib \<Rightarrow> u64 \<Rightarrow> group_info \<Rightarrow> packet list" where
  "group_word lib gid i = data_packets gid i @ closing_packets lib (info_group gid i) (snd (snd i))"

record sender =
  s_open :: "u64 \<rightharpoonup> group_info"
  s_closed :: "u64 \<rightharpoonup> group_info"
  s_next :: nat
  s_trace :: "packet list"

inductive sender_step :: "rs_lib \<Rightarrow> nat \<Rightarrow> sender \<Rightarrow> sender \<Rightarrow> bool" for lib m where
  s_opens: "s_next s < 2 ^ 64 \<Longrightarrow> frame_ok f \<Longrightarrow> 1 \<le> p \<Longrightarrow> p \<le> 8 \<Longrightarrow> 1 \<le> m \<Longrightarrow>
     sender_step lib m s (s\<lparr>s_open := (s_open s)(of_nat (s_next s) \<mapsto> (ep, p, [f])), s_next := Suc (s_next s),
       s_trace := s_trace s @ [data_packet (info_group (of_nat (s_next s)) (ep, p, [])) 0 (data_shard f)]\<rparr>)"
| s_fills: "s_open s gid = Some (ep, p, fs) \<Longrightarrow> frame_ok f \<Longrightarrow> length fs < m \<Longrightarrow> length fs < MaxDataShards \<Longrightarrow>
     sender_step lib m s (s\<lparr>s_open := (s_open s)(gid \<mapsto> (ep, p, fs @ [f])),
       s_trace := s_trace s @ [data_packet (info_group gid (ep, p, [])) (length fs) (data_shard f)]\<rparr>)"
| s_closes: "s_open s gid = Some i \<Longrightarrow>
     sender_step lib m s (s\<lparr>s_open := (s_open s)(gid := None), s_closed := (s_closed s)(gid \<mapsto> i),
       s_trace := s_trace s @ closing_packets lib (info_group gid i) (snd (snd i))\<rparr>)"

abbreviation sender_steps :: "rs_lib \<Rightarrow> nat \<Rightarrow> sender \<Rightarrow> sender \<Rightarrow> bool" where
  "sender_steps lib m \<equiv> (sender_step lib m)\<^sup>*\<^sup>*"

definition sender_init :: sender where
  "sender_init = \<lparr>s_open = Map.empty, s_closed = Map.empty, s_next = 0, s_trace = []\<rparr>"

definition info_ok :: "nat \<Rightarrow> group_info \<Rightarrow> bool" where
  "info_ok m i \<longleftrightarrow> snd (snd i) \<noteq> [] \<and> length (snd (snd i)) \<le> m \<and> length (snd (snd i)) \<le> MaxDataShards \<and> (\<forall>f \<in> set (snd (snd i)). frame_ok f)
     \<and> 1 \<le> fst (snd i) \<and> fst (snd i) \<le> 8"

text \<open>Every packet of the trace belongs to the word of its group, and a group still open has sent data only.\<close>

definition sender_ok :: "rs_lib \<Rightarrow> nat \<Rightarrow> sender \<Rightarrow> bool" where
  "sender_ok lib m s \<longleftrightarrow> s_next s \<le> 2 ^ 64 \<and> dom (s_open s) \<inter> dom (s_closed s) = {}
     \<and> (\<forall>gid \<in> dom (s_open s) \<union> dom (s_closed s). unat gid < s_next s)
     \<and> (\<forall>gid i. s_open s gid = Some i \<or> s_closed s gid = Some i \<longrightarrow> info_ok m i)
     \<and> (\<forall>gid i. s_open s gid = Some i \<longrightarrow> filter (\<lambda>p. p_groupID p = gid) (s_trace s) = data_packets gid i)
     \<and> (\<forall>gid i. s_closed s gid = Some i \<longrightarrow> filter (\<lambda>p. p_groupID p = gid) (s_trace s) = group_word lib gid i)
     \<and> (\<forall>p \<in> set (s_trace s). p_groupID p \<in> dom (s_open s) \<union> dom (s_closed s))"

lemma data_packet_gid [simp]: "p_groupID (data_packet (info_group gid i) j s) = gid"
  by (simp add: data_packet_def info_group_def)

lemma data_packet_info: "data_packet (info_group gid (ep, p, fs)) j s = data_packet (info_group gid (ep, p', fs')) j s"
  by (simp add: data_packet_def info_group_def)

lemma data_packets_snoc:
  "data_packets gid (ep, p, fs @ [f]) =
     data_packets gid (ep, p, fs) @ [data_packet (info_group gid (ep, p, [])) (length fs) (data_shard f)]"
  by (auto simp: data_packets_def enumerate_append_eq intro!: data_packet_info)

lemma closing_gid: "q \<in> set (closing_packets lib (info_group gid i) fs) \<Longrightarrow> p_groupID q = gid"
  by (auto simp: closing_packets_def Let_def parity_packet_def close_packet_def info_group_def)

lemma filter_closing:
  "filter (\<lambda>q. p_groupID q = gid') (closing_packets lib (info_group gid i) fs)
     = (if gid' = gid then closing_packets lib (info_group gid i) fs else [])"
  using closing_gid [of _ lib gid i fs] by (auto simp: filter_empty_conv intro!: filter_True)

lemma sender_okD:
  assumes "sender_ok lib m s"
  shows "s_open s gid = Some i \<Longrightarrow> s_closed s gid = None" "s_open s gid = Some i \<Longrightarrow> info_ok m i"
    "s_closed s gid = Some i \<Longrightarrow> info_ok m i"
    "s_open s gid = Some i \<Longrightarrow> filter (\<lambda>p. p_groupID p = gid) (s_trace s) = data_packets gid i"
    "s_closed s gid = Some i \<Longrightarrow> filter (\<lambda>p. p_groupID p = gid) (s_trace s) = group_word lib gid i"
    "unat gid \<ge> s_next s \<Longrightarrow> s_open s gid = None" "unat gid \<ge> s_next s \<Longrightarrow> s_closed s gid = None"
    "s_open s gid = None \<Longrightarrow> s_closed s gid = None \<Longrightarrow> filter (\<lambda>p. p_groupID p = gid) (s_trace s) = []"
proof -
  show "s_open s gid = Some i \<Longrightarrow> s_closed s gid = None" "s_open s gid = Some i \<Longrightarrow> info_ok m i"
    "s_closed s gid = Some i \<Longrightarrow> info_ok m i"
    "s_open s gid = Some i \<Longrightarrow> filter (\<lambda>p. p_groupID p = gid) (s_trace s) = data_packets gid i"
    "s_closed s gid = Some i \<Longrightarrow> filter (\<lambda>p. p_groupID p = gid) (s_trace s) = group_word lib gid i"
    using assms unfolding sender_ok_def by (blast intro: ccontr)+
  have b: "\<forall>gid \<in> dom (s_open s) \<union> dom (s_closed s). unat gid < s_next s"
    and t: "\<forall>p \<in> set (s_trace s). p_groupID p \<in> dom (s_open s) \<union> dom (s_closed s)"
    using assms unfolding sender_ok_def by blast+
  show "unat gid \<ge> s_next s \<Longrightarrow> s_open s gid = None" "unat gid \<ge> s_next s \<Longrightarrow> s_closed s gid = None"
    using b by (metis UnI1 UnI2 domIff leD)+
  show "s_open s gid = None \<Longrightarrow> s_closed s gid = None \<Longrightarrow> filter (\<lambda>p. p_groupID p = gid) (s_trace s) = []"
    using t by (fastforce simp: filter_empty_conv domIff)
qed

lemma sender_step_ok: "sender_step lib m s s' \<Longrightarrow> sender_ok lib m s \<Longrightarrow> sender_ok lib m s'"
proof (induction rule: sender_step.induct)
  case (s_opens s f p ep)
  let ?gid = "of_nat (s_next s) :: u64"
  have u: "unat ?gid = s_next s" using s_opens(1) by (simp add: unat_of_nat)
  note D = sender_okD [OF s_opens(6)]
  have n: "s_open s ?gid = None" "s_closed s ?gid = None" using D(6,7) [of ?gid] u by auto
  have e: "filter (\<lambda>p. p_groupID p = ?gid) (s_trace s) = []" using D(8) n by blast
  have d: "data_packets ?gid (ep, p, [f]) = [data_packet (info_group ?gid (ep, p, [])) 0 (data_shard f)]"
    using data_packets_snoc [of ?gid ep p "[]" f] by (simp add: data_packets_def)
  have i: "info_ok m (ep, p, [f])" using s_opens(2-5) by (simp add: info_ok_def fec_consts)
  show ?case
    unfolding sender_ok_def
    using s_opens(1,6) n e d i u unfolding sender_ok_def
    by (auto simp: dom_def less_Suc_eq split: if_splits)
next
  case (s_fills s gid ep p fs f)
  note D = sender_okD [OF s_fills(5)]
  have c: "s_closed s gid = None" using D(1) s_fills(1) by blast
  have i: "info_ok m (ep, p, fs @ [f])" using D(2) [OF s_fills(1)] s_fills(2-4) by (auto simp: info_ok_def)
  show ?case
    unfolding sender_ok_def
    using s_fills(1,5) c i D(4) [OF s_fills(1)] unfolding sender_ok_def
    by (auto simp: data_packets_snoc split: if_splits)
next
  case (s_closes s gid i)
  note D = sender_okD [OF s_closes(2)]
  have c: "s_closed s gid = None" using D(1) s_closes(1) by blast
  show ?case
    unfolding sender_ok_def
    using s_closes c D(2,4) [OF s_closes(1)] unfolding sender_ok_def
    by (auto simp: group_word_def filter_closing dest: closing_gid split: if_splits)
qed

lemma sender_steps_ok: "sender_steps lib m s s' \<Longrightarrow> sender_ok lib m s \<Longrightarrow> sender_ok lib m s'"
  by (induction rule: rtranclp_induct) (auto intro: sender_step_ok)

section \<open>The encoder implements the abstract sender\<close>

definition group_info :: "encoderGroup \<Rightarrow> group_info" where
  "group_info g = (g_epoch g, g_parity g, map (drop 2) (g_data g))"

definition inflight :: "encoderGroup list \<Rightarrow> (u64 \<times> group_info) list" where
  "inflight gs = map (\<lambda>g. (g_groupID g, group_info g)) (filter (\<lambda>g. g_data g \<noteq> []) gs)"

definition egroup_ok :: "nat \<Rightarrow> u16 \<Rightarrow> encoderGroup \<Rightarrow> bool" where
  "egroup_ok m ep g \<longleftrightarrow> holds g (map (drop 2) (g_data g)) \<and> length (g_data g) < m
     \<and> (g_data g \<noteq> [] \<longrightarrow> 1 \<le> g_parity g \<and> g_parity g \<le> 8 \<and> g_epoch g = ep)"

definition enc_ok :: "nat \<Rightarrow> 'f Encoder \<Rightarrow> bool" where
  "enc_ok m e \<longleftrightarrow> 1 \<le> e_maxData e \<and> e_maxData e \<le> m \<and> e_maxData e \<le> MaxDataShards
     \<and> 1 \<le> e_minInterleave e \<and> e_minInterleave e \<le> e_interleave e \<and> e_interleave e \<le> MaxInterleave
     \<and> length (e_groups e) = e_interleave e \<and> e_current e < e_interleave e
     \<and> ctrl_ok (e_controller e) \<and> c_dataShards (e_controller e) = int (e_maxData e)
     \<and> e_epoch e \<noteq> 0 \<and> e_epochSnapshot e = ucast (e_epoch e) \<and> codecs_ok (e_codecs e)
     \<and> (\<forall>g \<in> set (e_groups e). egroup_ok (e_maxData e) (e_epoch e) g)"

definition refines :: "'f Encoder \<Rightarrow> sender \<Rightarrow> bool" where
  "refines e s \<longleftrightarrow> s_open s = map_of (inflight (e_groups e)) \<and> distinct (map fst (inflight (e_groups e)))
     \<and> e_nextGroupID e = of_nat (s_next s)"

lemma closing_info:
  "closing_packets lib (info_group (g_groupID g) (g_epoch g, g_parity g, fs')) fs = closing_packets lib g fs"
  by (simp add: closing_packets_def Let_def parity_packet_def [abs_def] close_packet_def info_group_def)

lemma map_of_mid: "k \<notin> fst ` set xs \<Longrightarrow> map_of (xs @ (k, v) # ys) = (map_of (xs @ ys))(k \<mapsto> v)"
  by (induction xs) auto

lemma inflight_append: "inflight (a @ b) = inflight a @ inflight b"
  by (simp add: inflight_def)

lemma inflight_cons: "inflight (g # gs) = (if g_data g = [] then [] else [(g_groupID g, group_info g)]) @ inflight gs"
  by (simp add: inflight_def)

lemma inflight_empty: "\<forall>g \<in> set gs. g_data g = [] \<Longrightarrow> inflight gs = []"
  by (auto simp: inflight_def filter_empty_conv)

text \<open>Replacing one group of the list changes one entry of the map of open groups.\<close>

lemma inflight_update:
  assumes i: "i < length gs" and d: "distinct (map fst (inflight gs))"
    and old: "g_data (gs ! i) \<noteq> [] \<Longrightarrow> g_groupID g = g_groupID (gs ! i)"
    and new: "g_data (gs ! i) = [] \<Longrightarrow> g_data g \<noteq> [] \<Longrightarrow> map_of (inflight gs) (g_groupID g) = None"
  shows "g_data g \<noteq> [] \<Longrightarrow> map_of (inflight (gs[i := g])) = (map_of (inflight gs))(g_groupID g \<mapsto> group_info g)"
    and "g_data g = [] \<Longrightarrow> g_data (gs ! i) \<noteq> [] \<Longrightarrow>
           map_of (inflight (gs[i := g])) = (map_of (inflight gs))(g_groupID g := None)"
    and "distinct (map fst (inflight (gs[i := g])))"
proof -
  define a b where "a = inflight (take i gs)" and "b = inflight (drop (Suc i) gs)"
  have gs: "inflight gs = a @ (if g_data (gs ! i) = [] then [] else [(g_groupID (gs ! i), group_info (gs ! i))]) @ b"
    using id_take_nth_drop [OF i] by (metis a_def b_def inflight_append inflight_cons)
  have up: "inflight (gs[i := g]) = a @ (if g_data g = [] then [] else [(g_groupID g, group_info g)]) @ b"
    using i by (simp add: upd_conv_take_nth_drop inflight_append inflight_cons a_def b_def)
  have k: "g_groupID g \<notin> fst ` set a \<and> g_groupID g \<notin> fst ` set b" if "g_data g \<noteq> [] \<or> g_data (gs ! i) \<noteq> []"
    using that d old new unfolding gs by (cases "g_data (gs ! i) = []") (auto simp: map_of_eq_None_iff)
  show "g_data g \<noteq> [] \<Longrightarrow> map_of (inflight (gs[i := g])) = (map_of (inflight gs))(g_groupID g \<mapsto> group_info g)"
    using k old unfolding gs up by (cases "g_data (gs ! i) = []") (simp_all add: map_of_mid del: map_of_append)
  show "distinct (map fst (inflight (gs[i := g])))"
    using d k unfolding gs up by (auto split: if_splits)
  show "map_of (inflight (gs[i := g])) = (map_of (inflight gs))(g_groupID g := None)"
    if "g_data g = []" "g_data (gs ! i) \<noteq> []"
  proof -
    have "map_of (a @ b) (g_groupID g) = None" using k that by (simp add: map_of_eq_None_iff image_Un)
    then have "map_of (a @ b) = (map_of (a @ b))(g_groupID g := None)" by (metis fun_upd_triv)
    with k old that show ?thesis unfolding gs up by (simp add: map_of_mid del: map_of_append)
  qed
qed

text \<open>Sequences of abstract steps that extend the trace by \<open>ps\<close>.\<close>

definition emits :: "rs_lib \<Rightarrow> nat \<Rightarrow> sender \<Rightarrow> packet list \<Rightarrow> sender \<Rightarrow> bool" where
  "emits lib m s ps s' \<longleftrightarrow> sender_steps lib m s s' \<and> s_trace s' = s_trace s @ ps"

lemma emits_refl [simp]: "emits lib m s [] s"
  by (simp add: emits_def)

lemma emits_trans: "emits lib m s ps s' \<Longrightarrow> emits lib m s' qs s'' \<Longrightarrow> emits lib m s (ps @ qs) s''"
  by (auto simp: emits_def)

lemma emits_close:
  "s_open s gid = Some i \<Longrightarrow> emits lib m s (closing_packets lib (info_group gid i) (snd (snd i)))
     (s\<lparr>s_open := (s_open s)(gid := None), s_closed := (s_closed s)(gid \<mapsto> i),
        s_trace := s_trace s @ closing_packets lib (info_group gid i) (snd (snd i))\<rparr>)"
  using s_closes [of s gid i lib m] by (simp add: emits_def r_into_rtranclp)

lemma flushGroup_ok:
  assumes "egroup_ok m ep g \<or> holds g (map (drop 2) (g_data g)) \<and> length (g_data g) \<le> m \<and> 1 \<le> g_parity g"
    and ne: "g_data g \<noteq> []" and lib: "rs_good lib m" and c: "codecs_ok codecs"
  obtains codecs' where "codecs_ok codecs'" "flushGroup lib codecs g =
     (codecs', g\<lparr>g_data := []\<rparr>, Inr (map marshalPacket (closing_packets lib g (map (drop 2) (g_data g)))))"
proof -
  have "holds g (map (drop 2) (g_data g))" "map (drop 2) (g_data g) \<noteq> []" "length (map (drop 2) (g_data g)) \<le> m" "1 \<le> g_parity g"
    using assms by (auto simp: egroup_ok_def)
  from flushGroup_spec [OF this lib, of codecs] cachedCodec_ok [OF c, of lib] that show ?thesis by blast
qed

lemma flush_loop_sim:
  "\<forall>g \<in> set gs. egroup_ok m ep g \<Longrightarrow> distinct (map fst (inflight gs)) \<Longrightarrow> rs_good lib m \<Longrightarrow> codecs_ok codecs \<Longrightarrow>
   s_open s = map_of (inflight gs) \<Longrightarrow>
   \<exists>codecs' ps s'. flush_loop lib codecs gs = (codecs', map (\<lambda>g. g\<lparr>g_data := []\<rparr>) gs, Inr (map marshalPacket ps))
     \<and> codecs_ok codecs' \<and> emits lib M s ps s' \<and> s_open s' = Map.empty \<and> s_next s' = s_next s"
proof (induction gs arbitrary: codecs s)
  case Nil
  then show ?case by (auto simp: inflight_def intro!: exI [of _ "[]"] exI [of _ s])
next
  case (Cons g gs)
  show ?case
  proof (cases "g_data g = []")
    case True
    then obtain c2 ps s2 where "flush_loop lib codecs gs = (c2, map (\<lambda>g. g\<lparr>g_data := []\<rparr>) gs, Inr (map marshalPacket ps))"
      "codecs_ok c2" "emits lib M s ps s2" "s_open s2 = Map.empty" "s_next s2 = s_next s"
      using Cons.IH [of codecs s] Cons.prems by (auto simp: inflight_cons)
    moreover have "g\<lparr>g_data := []\<rparr> = g" using True by simp
    ultimately show ?thesis using True by (auto simp: flushGroup_empty intro!: exI [of _ ps] exI [of _ s2])
  next
    case False
    from flushGroup_ok [OF _ False Cons.prems(3,4), of ep] Cons.prems(1)
    obtain c1 where c1: "codecs_ok c1" "flushGroup lib codecs g =
       (c1, g\<lparr>g_data := []\<rparr>, Inr (map marshalPacket (closing_packets lib g (map (drop 2) (g_data g)))))" by auto
    have k: "map_of (inflight gs) (g_groupID g) = None"
      using Cons.prems(2) False by (simp add: inflight_cons map_of_eq_None_iff)
    have o: "s_open s (g_groupID g) = Some (group_info g)"
      and rest: "(s_open s)(g_groupID g := None) = map_of (inflight gs)"
      using Cons.prems(5) False k by (auto simp: inflight_cons fun_eq_iff)
    define s1 where "s1 = s\<lparr>s_open := (s_open s)(g_groupID g := None), s_closed := (s_closed s)(g_groupID g \<mapsto> group_info g),
        s_trace := s_trace s @ closing_packets lib (info_group (g_groupID g) (group_info g)) (snd (snd (group_info g)))\<rparr>"
    have e: "emits lib M s (closing_packets lib g (map (drop 2) (g_data g))) s1"
      using emits_close [OF o, of lib M] by (simp add: s1_def group_info_def closing_info)
    have "distinct (map fst (inflight gs))" "s_open s1 = map_of (inflight gs)"
      using Cons.prems(2) rest by (simp_all add: inflight_cons s1_def split: if_splits)
    then obtain c2 ps s2 where "flush_loop lib c1 gs = (c2, map (\<lambda>g. g\<lparr>g_data := []\<rparr>) gs, Inr (map marshalPacket ps))"
      "codecs_ok c2" "emits lib M s1 ps s2" "s_open s2 = Map.empty" "s_next s2 = s_next s1"
      using Cons.IH [of c1 s1] Cons.prems(1,3) c1(1) by auto
    with c1 emits_trans [OF e] show ?thesis
      by (auto simp: s1_def intro!: exI [of _ "closing_packets lib g (map (drop 2) (g_data g)) @ ps"] exI [of _ s2])
  qed
qed

text \<open>A flush empties every group; the state is otherwise unchanged.\<close>

lemma flushAll_sim:
  assumes e: "enc_ok m e" and s: "refines e s" and lib: "rs_good lib m"
  obtains codecs' ps s' where
    "flushAll lib e = (e\<lparr>e_codecs := codecs', e_groups := map (\<lambda>g. g\<lparr>g_data := []\<rparr>) (e_groups e)\<rparr>, Inr (map marshalPacket ps))"
    "codecs_ok codecs'" "emits lib m s ps s'" "s_open s' = Map.empty" "s_next s' = s_next s"
proof -
  have "rs_good lib (e_maxData e)" using lib e by (auto simp: rs_good_def enc_ok_def)
  with flush_loop_sim [of "e_groups e" "e_maxData e" "e_epoch e" lib "e_codecs e" s m] e s that show ?thesis
    by (auto simp: enc_ok_def refines_def flushAll_def)
qed

definition simulated :: "rs_lib \<Rightarrow> nat \<Rightarrow> sender \<Rightarrow> bytes list \<Rightarrow> 'f Encoder \<times> (enc_error + bytes list) \<Rightarrow> sender \<Rightarrow> packet list \<Rightarrow> bool" where
  "simulated lib m s raw res s' ps \<longleftrightarrow> snd res = Inr (map marshalPacket ps @ raw) \<and> enc_ok m (fst res)
     \<and> emits lib m s ps s' \<and> refines (fst res) s' \<and> s_next s' \<le> Suc (s_next s)"

lemma emptied_groups:
  assumes "enc_ok m e"
  shows "\<forall>g \<in> set (map (\<lambda>g. g\<lparr>g_data := []\<rparr>) (e_groups e)). egroup_ok (e_maxData e) ep g"
    "inflight (map (\<lambda>g. g\<lparr>g_data := []\<rparr>) gs) = []"
  using assms by (auto simp: enc_ok_def egroup_ok_def holds_def inflight_def filter_map comp_def)

lemma flush_ok:
  assumes e: "enc_ok m e" and s: "refines e s" and lib: "rs_good lib m"
  obtains s' ps where "simulated lib m s [] (flushAll lib e) s' ps" "s_open s' = Map.empty" "s_next s' = s_next s"
    "e_maxData (fst (flushAll lib e)) = e_maxData e" "inflight (e_groups (fst (flushAll lib e))) = []"
    "\<forall>ep. \<forall>g \<in> set (e_groups (fst (flushAll lib e))). egroup_ok (e_maxData e) ep g"
    "e_epoch (fst (flushAll lib e)) = e_epoch e" "e_minInterleave (fst (flushAll lib e)) = e_minInterleave e"
    "e_controller (fst (flushAll lib e)) = e_controller e" "e_unprotected (fst (flushAll lib e)) = e_unprotected e"
    "e_lastParity (fst (flushAll lib e)) = e_lastParity e" "e_interleave (fst (flushAll lib e)) = e_interleave e"
proof -
  obtain codecs' ps s' where f:
    "flushAll lib e = (e\<lparr>e_codecs := codecs', e_groups := map (\<lambda>g. g\<lparr>g_data := []\<rparr>) (e_groups e)\<rparr>, Inr (map marshalPacket ps))"
    "codecs_ok codecs'" "emits lib m s ps s'" "s_open s' = Map.empty" "s_next s' = s_next s"
    using flushAll_sim [OF e s lib] by blast
  have "simulated lib m s [] (flushAll lib e) s' ps"
    using f e s emptied_groups [OF e] by (simp add: simulated_def enc_ok_def refines_def)
  with f emptied_groups [OF e] show ?thesis by (intro that [of s' ps]) simp_all
qed

lemma initGroups_ok:
  "1 \<le> m \<Longrightarrow> \<forall>g \<in> set (replicate n empty_group). egroup_ok m ep g" "inflight (replicate n empty_group) = []"
  by (auto simp: egroup_ok_def empty_group_def holds_def inflight_def)

lemma setInterleave_sim:
  assumes e: "enc_ok m e" and s: "refines e s" and lib: "rs_good lib m" and n: "e_minInterleave e \<le> n" "n \<le> MaxInterleave"
  obtains s' ps where "simulated lib m s [] (setInterleave lib n e) s' ps" "s_next s' = s_next s"
    "e_controller (fst (setInterleave lib n e)) = e_controller e"
proof (cases "n = e_interleave e")
  case True
  then have "setInterleave lib n e = (e, Inr [])" using e by (auto simp: setInterleave_def Let_def enc_ok_def)
  with e s that [of s "[]"] show ?thesis by (simp add: simulated_def)
next
  case False
  obtain s' ps where f: "simulated lib m s [] (flushAll lib e) s' ps" "s_open s' = Map.empty" "s_next s' = s_next s"
    "e_minInterleave (fst (flushAll lib e)) = e_minInterleave e" "e_controller (fst (flushAll lib e)) = e_controller e"
    using flush_ok [OF e s lib] by metis
  obtain e' where e': "flushAll lib e = (e', Inr (map marshalPacket ps))"
    using f(1) by (cases "flushAll lib e") (simp add: simulated_def)
  have "1 \<le> n" using e n by (simp add: enc_ok_def)
  then have "setInterleave lib n e = (initGroups n (e'\<lparr>e_interleave := n\<rparr>), Inr (map marshalPacket ps))"
    using False n e' by (auto simp: setInterleave_def Let_def)
  moreover have "simulated lib m s [] (initGroups n (e'\<lparr>e_interleave := n\<rparr>), Inr (map marshalPacket ps)) s' ps"
    using f n \<open>1 \<le> n\<close> initGroups_ok(1) [of "e_maxData e'" n "e_epoch e'"] initGroups_ok(2) [of n]
    by (auto simp: simulated_def e' enc_ok_def refines_def initGroups_def)
  ultimately show ?thesis using f e' that by (simp add: initGroups_def)
qed

lemma next_epoch_sim:
  assumes e: "enc_ok m e" and s: "refines e s" and lib: "rs_good lib m"
  obtains s' ps where "simulated lib m s [] (next_epoch lib e) s' ps" "s_next s' = s_next s"
proof -
  obtain s' ps where f: "simulated lib m s [] (flushAll lib e) s' ps" "s_open s' = Map.empty" "s_next s' = s_next s"
    "\<forall>ep. \<forall>g \<in> set (e_groups (fst (flushAll lib e))). egroup_ok (e_maxData e) ep g"
    "e_maxData (fst (flushAll lib e)) = e_maxData e"
    using flush_ok [OF e s lib] by metis
  obtain e' where e': "flushAll lib e = (e', Inr (map marshalPacket ps))"
    using f(1) by (cases "flushAll lib e") (simp add: simulated_def)
  define ep where "ep = (if e_epoch e' + 1 = 0 then 1 else e_epoch e' + 1)"
  have "next_epoch lib e = (e'\<lparr>e_epoch := ep, e_epochSnapshot := ucast ep\<rparr>, Inr (map marshalPacket ps))"
    by (simp add: next_epoch_def e' Let_def ep_def)
  moreover have "ep \<noteq> 0" by (simp add: ep_def)
  ultimately have "simulated lib m s [] (next_epoch lib e) s' ps"
    using f by (auto simp: simulated_def e' enc_ok_def refines_def)
  with f that show ?thesis by blast
qed

lemma drop_data_shard [simp]: "drop 2 (data_shard f) = f"
  by (simp add: data_shard_def)

text \<open>The state and the group after the frame was appended, before the group may be closed.\<close>

definition appended :: "bytes \<Rightarrow> 'f Encoder \<Rightarrow> encoderGroup" where
  "appended f e =
     (let g = e_groups e ! e_current e
      in if g_data g = []
         then g\<lparr>g_groupID := e_nextGroupID e, g_epoch := e_epoch e, g_parity := e_groupParity e, g_data := [data_shard f]\<rparr>
         else g\<lparr>g_data := g_data g @ [data_shard f]\<rparr>)"

definition opened_encoder :: "'f Encoder \<Rightarrow> 'f Encoder" where
  "opened_encoder e =
     (if g_data (e_groups e ! e_current e) = [] then e\<lparr>e_nextGroupID := e_nextGroupID e + 1\<rparr> else e)"

lemma add_shard_unfold:
  "add_shard lib f e =
     (let g = appended f e; e1 = opened_encoder e;
          output = [marshalPacket (data_packet g (length (g_data (e_groups e ! e_current e))) (data_shard f))]
      in if length (g_data g) = e_maxData e
         then case flushGroup lib (e_codecs e) g of
                (codecs, g, Inl err) \<Rightarrow> (e1\<lparr>e_codecs := codecs, e_groups := (e_groups e)[e_current e := g]\<rparr>, Inl err)
              | (codecs, g, Inr closing) \<Rightarrow>
                  (e1\<lparr>e_codecs := codecs, e_groups := (e_groups e)[e_current e := g],
                     e_current := (e_current e + 1) mod e_interleave e\<rparr>, Inr (output @ closing))
         else (e1\<lparr>e_groups := (e_groups e)[e_current e := g], e_current := (e_current e + 1) mod e_interleave e\<rparr>, Inr output))"
  by (cases "g_data (e_groups e ! e_current e) = []") (simp_all add: add_shard_def appended_def opened_encoder_def Let_def)

lemma appended_ok:
  assumes e: "enc_ok m e" and f: "frame_ok f" and p: "1 \<le> e_groupParity e" "e_groupParity e \<le> 8"
  shows "g_data (appended f e) \<noteq> []" "holds (appended f e) (map (drop 2) (g_data (appended f e)))"
    "length (g_data (appended f e)) \<le> e_maxData e" "1 \<le> g_parity (appended f e)" "g_parity (appended f e) \<le> 8"
    "g_epoch (appended f e) = e_epoch e"
    "g_data (e_groups e ! e_current e) \<noteq> [] \<Longrightarrow> g_groupID (appended f e) = g_groupID (e_groups e ! e_current e)"
proof -
  have "e_groups e ! e_current e \<in> set (e_groups e)" using e by (simp add: enc_ok_def)
  then have g: "egroup_ok (e_maxData e) (e_epoch e) (e_groups e ! e_current e)" using e by (simp add: enc_ok_def)
  have one: "1 \<le> e_maxData e" using e unfolding enc_ok_def by blast
  show "g_data (appended f e) \<noteq> []" by (simp add: appended_def Let_def)
  show "holds (appended f e) (map (drop 2) (g_data (appended f e)))"
    using g f by (auto simp: appended_def Let_def holds_def egroup_ok_def)
  show "length (g_data (appended f e)) \<le> e_maxData e" "1 \<le> g_parity (appended f e)" "g_parity (appended f e) \<le> 8"
    "g_epoch (appended f e) = e_epoch e"
    "g_data (e_groups e ! e_current e) \<noteq> [] \<Longrightarrow> g_groupID (appended f e) = g_groupID (e_groups e ! e_current e)"
    using g p one by (auto simp: appended_def Let_def egroup_ok_def)
qed

lemma append_step:
  assumes e: "enc_ok m e" and s: "refines e s" "sender_ok lib m s" and f: "frame_ok f"
    and p: "1 \<le> e_groupParity e" "e_groupParity e \<le> 8" and n: "s_next s < 2 ^ 64"
  obtains s' where "emits lib m s [data_packet (appended f e) (length (g_data (e_groups e ! e_current e))) (data_shard f)] s'"
    "s_open s' = (s_open s)(g_groupID (appended f e) \<mapsto> group_info (appended f e))"
    "e_nextGroupID (opened_encoder e) = of_nat (s_next s')" "s_next s' \<le> Suc (s_next s)"
    "g_data (e_groups e ! e_current e) = [] \<Longrightarrow> s_open s (g_groupID (appended f e)) = None"
proof (cases "g_data (e_groups e ! e_current e) = []")
  case True
  let ?gid = "of_nat (s_next s) :: u64"
  have one: "1 \<le> m" using e unfolding enc_ok_def by linarith
  have u: "unat ?gid = s_next s" using n by (simp add: unat_of_nat)
  have id: "g_groupID (appended f e) = ?gid" using True s by (simp add: appended_def Let_def refines_def)
  have pk: "data_packet (appended f e) (length (g_data (e_groups e ! e_current e))) (data_shard f)
      = data_packet (info_group ?gid (e_epoch e, e_groupParity e, [])) 0 (data_shard f)"
    using True s by (simp add: appended_def Let_def data_packet_def info_group_def refines_def)
  have i: "group_info (appended f e) = (e_epoch e, e_groupParity e, [f])"
    using True by (simp add: appended_def Let_def group_info_def)
  from s_opens [OF n f p one, of lib "e_epoch e"] show ?thesis
    by (rule_tac that [of "s\<lparr>s_open := (s_open s)(?gid \<mapsto> (e_epoch e, e_groupParity e, [f])), s_next := Suc (s_next s),
       s_trace := s_trace s @ [data_packet (info_group ?gid (e_epoch e, e_groupParity e, [])) 0 (data_shard f)]\<rparr>"])
      (use True s sender_okD(6) [OF s(2), of ?gid] u in
        \<open>simp_all add: emits_def pk [unfolded True list.size(3)] id i r_into_rtranclp opened_encoder_def refines_def\<close>)
next
  case False
  let ?g = "e_groups e ! e_current e"
  have g: "?g \<in> set (e_groups e)" using e by (simp add: enc_ok_def)
  then have "length (g_data ?g) < e_maxData e" "e_maxData e \<le> MaxDataShards" "e_maxData e \<le> m"
    using e by (simp_all add: enc_ok_def egroup_ok_def)
  then have l: "length (map (drop 2) (g_data ?g)) < MaxDataShards" and l2: "length (map (drop 2) (g_data ?g)) < m" by simp_all
  have "(g_groupID ?g, group_info ?g) \<in> set (inflight (e_groups e))" using g False by (auto simp: inflight_def)
  then have o: "s_open s (g_groupID ?g) = Some (g_epoch ?g, g_parity ?g, map (drop 2) (g_data ?g))"
    using s(1) by (simp add: refines_def group_info_def)
  have pk: "data_packet (appended f e) (length (g_data (e_groups e ! e_current e))) (data_shard f)
      = data_packet (info_group (g_groupID ?g) (g_epoch ?g, g_parity ?g, [])) (length (map (drop 2) (g_data ?g))) (data_shard f)"
    using False by (simp add: appended_def Let_def data_packet_def info_group_def)
  have i: "group_info (appended f e) = (g_epoch ?g, g_parity ?g, map (drop 2) (g_data ?g) @ [f])" "g_groupID (appended f e) = g_groupID ?g"
    using False by (simp_all add: appended_def Let_def group_info_def)
  from s_fills [OF o f l2 l, of lib] show ?thesis
    by (rule_tac that [of "s\<lparr>s_open := (s_open s)(g_groupID ?g \<mapsto> (g_epoch ?g, g_parity ?g, map (drop 2) (g_data ?g) @ [f])),
       s_trace := s_trace s @ [data_packet (info_group (g_groupID ?g) (g_epoch ?g, g_parity ?g, []))
         (length (map (drop 2) (g_data ?g))) (data_shard f)]\<rparr>"])
      (use False s in \<open>simp_all add: emits_def pk i r_into_rtranclp opened_encoder_def refines_def\<close>)
qed

lemma add_shard_sim:
  assumes e: "enc_ok m e" and s: "refines e s" "sender_ok lib m s" and lib: "rs_good lib m" and f: "frame_ok f"
    and p: "1 \<le> e_groupParity e" "e_groupParity e \<le> 8" and n: "s_next s < 2 ^ 64"
  obtains s' q ps where "simulated lib m s [] (add_shard lib f e) s' (q # ps)" "p_kind q = KindData" "p_payload q = data_shard f"
proof -
  let ?g = "appended f e" and ?i = "e_current e" and ?e = "opened_encoder e"
  let ?q = "data_packet ?g (length (g_data (e_groups e ! ?i))) (data_shard f)"
  note ap = appended_ok [OF e f p]
  have q: "p_kind ?q = KindData" "p_payload ?q = data_shard f" by (simp_all add: data_packet_def)
  have il: "?i < length (e_groups e)" "0 < e_interleave e" using e by (auto simp: enc_ok_def)
  have d: "distinct (map fst (inflight (e_groups e)))" using s by (simp add: refines_def)
  obtain s1 where s1: "emits lib m s [?q] s1" "s_open s1 = (s_open s)(g_groupID ?g \<mapsto> group_info ?g)"
    "e_nextGroupID ?e = of_nat (s_next s1)" "s_next s1 \<le> Suc (s_next s)"
    "g_data (e_groups e ! ?i) = [] \<Longrightarrow> s_open s (g_groupID ?g) = None"
    using append_step [OF e s f p n] by metis
  have new: "g_data (e_groups e ! ?i) = [] \<Longrightarrow> map_of (inflight (e_groups e)) (g_groupID ?g) = None"
    using s1(5) s by (simp add: refines_def)
  note up = inflight_update [OF il(1) d ap(7) new]
  have m1: "map_of (inflight ((e_groups e)[?i := ?g])) = s_open s1" "distinct (map fst (inflight ((e_groups e)[?i := ?g])))"
    using up(1,3) ap(1) s1(2) s(1) by (auto simp: refines_def)
  have sets: "\<forall>g \<in> set ((e_groups e)[?i := g']). egroup_ok (e_maxData e) (e_epoch e) g" if "egroup_ok (e_maxData e) (e_epoch e) g'" for g'
    using that e set_update_subset_insert [of "e_groups e" ?i g'] by (auto simp: enc_ok_def)
  have md: "e_maxData e \<le> m" "1 \<le> e_maxData e" using e unfolding enc_ok_def by blast+
  show ?thesis
  proof (cases "length (g_data ?g) = e_maxData e")
    case False
    then have ok: "egroup_ok (e_maxData e) (e_epoch e) ?g" using ap by (simp add: egroup_ok_def)
    have "add_shard lib f e = (?e\<lparr>e_groups := (e_groups e)[?i := ?g], e_current := (?i + 1) mod e_interleave e\<rparr>, Inr [marshalPacket ?q])"
      using False by (simp add: add_shard_unfold Let_def)
    with m1 s1 e sets [OF ok] il(2) have "simulated lib m s [] (add_shard lib f e) s1 [?q]"
      by (simp add: simulated_def enc_ok_def refines_def opened_encoder_def)
    with q that show ?thesis by blast
  next
    case True
    let ?c = "closing_packets lib ?g (map (drop 2) (g_data ?g))" and ?g' = "?g\<lparr>g_data := []\<rparr>"
    have "length (g_data ?g) \<le> m" using True md by simp
    then obtain c1 where c1: "codecs_ok c1" "flushGroup lib (e_codecs e) ?g = (c1, ?g', Inr (map marshalPacket ?c))"
      using flushGroup_ok [OF disjI2 ap(1) lib, of "e_codecs e"] ap e by (auto simp: enc_ok_def)
    have add: "add_shard lib f e = (?e\<lparr>e_codecs := c1, e_groups := (e_groups e)[?i := ?g'],
        e_current := (?i + 1) mod e_interleave e\<rparr>, Inr (marshalPacket ?q # map marshalPacket ?c))"
      using True c1(2) by (simp add: add_shard_unfold Let_def)
    have o: "s_open s1 (g_groupID ?g) = Some (group_info ?g)" using s1(2) by simp
    obtain s2 where s2: "emits lib m s1 ?c s2" "s_open s2 = (s_open s1)(g_groupID ?g := None)" "s_next s2 = s_next s1"
      using emits_close [OF o, of lib m] by (simp add: group_info_def closing_info)
    have "map_of (inflight ((e_groups e)[?i := ?g'])) = s_open s2" "distinct (map fst (inflight ((e_groups e)[?i := ?g'])))"
      using inflight_update(2,3) [of ?i "(e_groups e)[?i := ?g]" ?g'] il(1) m1 ap(1) s2(2) by auto
    moreover have "egroup_ok (e_maxData e) (e_epoch e) ?g'" using md by (simp add: egroup_ok_def holds_def)
    moreover have "emits lib m s (?q # ?c) s2" using emits_trans [OF s1(1) s2(1)] by simp
    ultimately have "simulated lib m s [] (add_shard lib f e) s2 (?q # ?c)"
      using s1 s2(3) e sets [of ?g'] il(2) c1(1) by (simp add: add simulated_def enc_ok_def refines_def opened_encoder_def)
    with q that show ?thesis by blast
  qed
qed

lemma target_bounds: "enc_ok m e \<Longrightarrow> e_minInterleave e \<le> target_interleave e \<and> target_interleave e \<le> MaxInterleave"
  by (auto simp: enc_ok_def target_interleave_def CurrentInterleave_def ctrl_ok_def fec_consts)

lemma pick_parity_ok:
  assumes "enc_ok m e" "refines e s" "0 \<le> p" "p \<le> 8"
  shows "enc_ok m (pick_parity p e)" "refines (pick_parity p e) s"
    "1 \<le> e_groupParity (pick_parity p e)" "e_groupParity (pick_parity p e) \<le> 8"
  using assms by (auto simp: pick_parity_def enc_ok_def refines_def Let_def)

lemma Add_unfold:
  "frame_ok f \<Longrightarrow> Encoder_Add lib f e =
     (case (if target_interleave e \<noteq> e_interleave e then setInterleave lib (target_interleave e) e else (e, Inr [])) of
        (e, Inl err) \<Rightarrow> (e, Inl err)
      | (e, Inr output) \<Rightarrow>
          let p = CurrentParity (e_controller e)
          in if p = 0 \<and> e_unprotected e < healthyProbeFrames
             then (e\<lparr>e_unprotected := e_unprotected e + 1\<rparr>, Inr (output @ [f]))
             else case (if e_lastParity e \<ge> 0 \<and> p \<noteq> e_lastParity e then next_epoch lib e else (e, Inr [])) of
               (e, Inl err) \<Rightarrow> (e, Inl err)
             | (e, Inr flushed) \<Rightarrow>
                 (case add_shard lib f (pick_parity p e) of
                    (e, Inl err) \<Rightarrow> (e, Inl err)
                  | (e, Inr added) \<Rightarrow> (e, Inr (output @ flushed @ added))))"
  by (simp add: Encoder_Add_def frame_ok_def not_less)

lemma simulated_emits:
  assumes "simulated lib m s raw res s' ps" "sender_ok lib m s"
  shows "sender_ok lib m s'" "emits lib m s ps s'" "enc_ok m (fst res)" "refines (fst res) s'"
    "snd res = Inr (map marshalPacket ps @ raw)"
  using assms sender_steps_ok by (auto simp: simulated_def emits_def)

lemma simulated_res: "simulated lib m s raw res s' ps \<Longrightarrow> res = (fst res, Inr (map marshalPacket ps @ raw))"
  by (cases res) (simp add: simulated_def)

lemma Add_sim:
  assumes e: "enc_ok m e" and s: "refines e s" "sender_ok lib m s" and lib: "rs_good lib m" and f: "frame_ok f"
    and n: "s_next s < 2 ^ 64"
  obtains s' ps raw where "simulated lib m s raw (Encoder_Add lib f e) s' ps"
    "raw = [f] \<or> raw = [] \<and> (\<exists>q \<in> set ps. p_kind q = KindData \<and> p_payload q = data_shard f)"
proof -
  let ?r1 = "if target_interleave e \<noteq> e_interleave e then setInterleave lib (target_interleave e) e else (e, Inr [])"
  obtain s1 ps1 where r1: "simulated lib m s [] ?r1 s1 ps1" "s_next s1 = s_next s"
  proof (cases "target_interleave e = e_interleave e")
    case True
    with e s that [of s "[]"] show ?thesis by (simp add: simulated_def)
  next
    case False
    obtain s1 ps1 where "simulated lib m s [] (setInterleave lib (target_interleave e) e) s1 ps1" "s_next s1 = s_next s"
      using setInterleave_sim [OF e s(1) lib] target_bounds [OF e] by metis
    with False that show ?thesis by simp
  qed
  define e1 where "e1 = fst (?r1)"
  have e1: "?r1 = (e1, Inr (map marshalPacket ps1))"
    using simulated_res [OF r1(1)] unfolding e1_def append_Nil2 .
  note m1 = simulated_emits [OF r1(1) s(2), unfolded e1 fst_conv snd_conv]
  define p where "p = CurrentParity (e_controller e1)"
  have p: "0 \<le> p" "p \<le> 8" using m1(3) by (auto simp: p_def CurrentParity_def enc_ok_def ctrl_ok_def fec_consts)
  show ?thesis
  proof (cases "p = 0 \<and> e_unprotected e1 < healthyProbeFrames")
    case True
    have "Encoder_Add lib f e = (e1\<lparr>e_unprotected := e_unprotected e1 + 1\<rparr>, Inr (map marshalPacket ps1 @ [f]))"
      unfolding Add_unfold [OF f] e1 using True by (simp add: p_def Let_def)
    with m1 r1(2) have "simulated lib m s [f] (Encoder_Add lib f e) s1 ps1"
      by (simp add: simulated_def enc_ok_def refines_def)
    with that show ?thesis by blast
  next
    case False
    let ?r2 = "if e_lastParity e1 \<ge> 0 \<and> p \<noteq> e_lastParity e1 then next_epoch lib e1 else (e1, Inr [])"
    obtain s2 ps2 where r2: "simulated lib m s1 [] ?r2 s2 ps2" "s_next s2 = s_next s"
    proof (cases "e_lastParity e1 \<ge> 0 \<and> p \<noteq> e_lastParity e1")
      case True
      obtain s2 ps2 where "simulated lib m s1 [] (next_epoch lib e1) s2 ps2" "s_next s2 = s_next s1"
        using next_epoch_sim [OF m1(3,4) lib] by metis
      with True that r1(2) show ?thesis by simp
    next
      case False
      with m1 r1(2) that [of s1 "[]"] show ?thesis by (auto simp: simulated_def)
    qed
    define e2 where "e2 = fst (?r2)"
    have e2: "?r2 = (e2, Inr (map marshalPacket ps2))"
      using simulated_res [OF r2(1)] unfolding e2_def append_Nil2 .
    note m2 = simulated_emits [OF r2(1) m1(1), unfolded e2 fst_conv snd_conv]
    note pp = pick_parity_ok [OF m2(3,4) p]
    obtain s3 q ps3 where r3: "simulated lib m s2 [] (add_shard lib f (pick_parity p e2)) s3 (q # ps3)"
      "p_kind q = KindData" "p_payload q = data_shard f"
      using add_shard_sim [OF pp(1,2) m2(1) lib f pp(3,4)] r2(2) n by metis
    obtain e3 where e3: "add_shard lib f (pick_parity p e2) = (e3, Inr (map marshalPacket (q # ps3)))"
      using simulated_res [OF r3(1)] unfolding append_Nil2 by blast
    have "Encoder_Add lib f e = (e3, Inr (map marshalPacket (ps1 @ ps2 @ q # ps3)))"
      unfolding Add_unfold [OF f] e1 using False e2 e3 by (auto simp: p_def Let_def)
    moreover have "emits lib m s (ps1 @ ps2 @ q # ps3) s3"
      using emits_trans m1(2) m2(2) r3(1) unfolding simulated_def by blast
    ultimately have "simulated lib m s [] (Encoder_Add lib f e) s3 (ps1 @ ps2 @ q # ps3)"
      using r3(1) r2(2) by (simp add: simulated_def e3)
    moreover have "q \<in> set (ps1 @ ps2 @ q # ps3)" by simp
    ultimately show ?thesis using r3(2,3) that by blast
  qed
qed

lemma Reconfigure_sim:
  assumes e: "enc_ok m e" and s: "refines e s" "sender_ok lib m s" and lib: "rs_good lib m"
    and d: "0 < maxData" "maxData \<le> int MaxDataShards" "nat maxData \<le> m" and i: "1 \<le> il" "il \<le> int MaxInterleave"
  obtains s' ps where "simulated lib m s [] (Reconfigure lib maxData il e) s' ps" "s_next s' = s_next s"
proof -
  obtain s' ps where f: "simulated lib m s [] (flushAll lib e) s' ps" "s_open s' = Map.empty" "s_next s' = s_next s"
    using flush_ok [OF e s(1) lib] by metis
  obtain e1 where e1: "flushAll lib e = (e1, Inr (map marshalPacket ps))"
    using simulated_res [OF f(1)] unfolding append_Nil2 by blast
  define e2 where "e2 = e1\<lparr>e_maxData := nat maxData, e_controller := SetDataShards maxData (e_controller e1),
     e_minInterleave := nat il\<rparr>"
  have r: "Reconfigure lib maxData il e = (initGroups (target_interleave e2) (e2\<lparr>e_interleave := target_interleave e2\<rparr>), Inr (map marshalPacket ps))"
    using d i by (simp add: Reconfigure_def e1 Let_def e2_def initGroups_def)
  have ok: "enc_ok m e1" "refines e1 s'" "emits lib m s ps s'" using f(1) by (simp_all add: simulated_def e1)
  then have "ctrl_ok (e_controller e1)" by (simp add: enc_ok_def)
  then have c: "ctrl_ok (SetDataShards maxData (e_controller e1))" by (rule SetDataShards_ok)
  have ds: "c_dataShards (SetDataShards maxData (e_controller e1)) = maxData" using d by (simp add: SetDataShards_def)
  have t: "target_interleave e2 \<le> MaxInterleave" "1 \<le> target_interleave e2" "nat il \<le> target_interleave e2"
    using i c by (auto simp: target_interleave_def e2_def CurrentInterleave_def ctrl_ok_def fec_consts)
  let ?e = "initGroups (target_interleave e2) (e2\<lparr>e_interleave := target_interleave e2\<rparr>)"
  have "\<forall>g \<in> set (replicate (target_interleave e2) empty_group). egroup_ok (nat maxData) (e_epoch e1) g"
    using initGroups_ok(1) d(1) by simp
  moreover have "1 \<le> nat maxData" "nat maxData \<le> MaxDataShards" "1 \<le> nat il" using d i by auto
  ultimately have "enc_ok m ?e"
    using ok(1) c ds d i t unfolding enc_ok_def initGroups_def by (simp add: e2_def)
  moreover have "refines ?e s'"
    using ok(2) f(2) initGroups_ok(2) by (simp add: refines_def initGroups_def e2_def)
  ultimately have "simulated lib m s [] (Reconfigure lib maxData il e) s' ps"
    using ok(3) f(3) by (simp add: simulated_def r)
  with f that show ?thesis by blast
qed

lemma phases_keep_shards [simp]:
  "c_dataShards (observe_loss F fb c) = c_dataShards c" "c_dataShards (observe_health fb c) = c_dataShards c"
  "c_dataShards (observe_unrecovered fb d c) = c_dataShards c" "c_dataShards (observe_recovered fb d c) = c_dataShards c"
  "c_dataShards (transport_react F l s c) = c_dataShards c" "c_dataShards (storeSnapshotsLocked F c) = c_dataShards c"
  by (simp_all add: observe_loss_def observe_health_def observe_unrecovered_def observe_recovered_def
      transport_react_def storeSnapshotsLocked_def Let_def)

lemma observe_keeps_shards:
  "c_dataShards (fst (Controller_Observe F fb c)) = c_dataShards c"
  "c_dataShards (fst (Controller_ObserveTransport F sent lost c)) = c_dataShards c"
  "c_dataShards (ObservePathRTT rtt c) = c_dataShards c"
  by (simp_all add: Observe_fst observe_body_def Controller_ObserveTransport_def transport_body_def
      ObservePathRTT_def Let_def case_prod_unfold)

lemma observing_ok:
  assumes "enc_ok m e" "refines e s"
  shows "enc_ok m (Encoder_Observe F fb e)" "refines (Encoder_Observe F fb e) s"
    "enc_ok m (Encoder_ObserveTransport F sent lost e)" "refines (Encoder_ObserveTransport F sent lost e) s"
    "enc_ok m (Encoder_ObservePathRTT rtt e)" "refines (Encoder_ObservePathRTT rtt e) s"
  using assms
  by (simp_all add: enc_ok_def refines_def Encoder_Observe_def Encoder_ObserveTransport_def Encoder_ObservePathRTT_def
      observe_keeps_shards Observe_ok ObserveTransport_ok ObservePathRTT_ok)

lemma NewEncoder_ok:
  assumes "ctrl_ok c" "e_maxData (NewEncoder n c) \<le> m"
  shows "enc_ok m (NewEncoder n c)" "refines (NewEncoder n c) sender_init"
proof -
  let ?n = "if n \<le> 0 \<or> n > int MaxDataShards then int DefaultDataShards else n"
  have "ctrl_ok (SetDataShards ?n c)" "c_dataShards (SetDataShards ?n c) = ?n" "1 \<le> nat ?n" "nat ?n \<le> MaxDataShards"
    using SetDataShards_ok [OF assms(1)] by (auto simp: SetDataShards_def fec_consts)
  then show "enc_ok m (NewEncoder n c)" "refines (NewEncoder n c) sender_init"
    using assms(2) initGroups_ok(1) [of "nat ?n" 1 1]
    by (auto simp: NewEncoder_def Let_def enc_ok_def initGroups_def refines_def sender_init_def inflight_def empty_group_def fec_consts)
qed

section \<open>Runs of the encoder\<close>

text \<open>A run with everything that was handed to the carrier.  \<open>SetInterleave\<close> is called on a fresh encoder
  only; a frame given to the encoder is never mistaken for one of its own packets.\<close>

inductive enc_run :: "rs_lib \<Rightarrow> 'f floats \<Rightarrow> nat \<Rightarrow> 'f Encoder \<Rightarrow> bytes list \<Rightarrow> bool" for lib F m where
  enc_new: "ctrl_reach F c \<Longrightarrow> e_maxData (NewEncoder n c) \<le> m \<Longrightarrow>
     enc_run lib F m (fst (SetInterleave lib il (NewEncoder n c))) []"
| enc_add: "enc_run lib F m e outs \<Longrightarrow> frame_ok f \<Longrightarrow> parsePacket f = NotFec \<Longrightarrow> Encoder_Add lib f e = (e', Inr out) \<Longrightarrow>
     enc_run lib F m e' (outs @ out)"
| enc_flush: "enc_run lib F m e outs \<Longrightarrow> Encoder_Flush lib e = (e', Inr out) \<Longrightarrow> enc_run lib F m e' (outs @ out)"
| enc_reconfigure: "enc_run lib F m e outs \<Longrightarrow> nat maxData \<le> m \<Longrightarrow> Reconfigure lib maxData il e = (e', Inr out) \<Longrightarrow>
     enc_run lib F m e' (outs @ out)"
| enc_observe: "enc_run lib F m e outs \<Longrightarrow> enc_run lib F m (Encoder_Observe F fb e) outs"
| enc_transport: "enc_run lib F m e outs \<Longrightarrow> enc_run lib F m (Encoder_ObserveTransport F sent lost e) outs"
| enc_rtt: "enc_run lib F m e outs \<Longrightarrow> enc_run lib F m (Encoder_ObservePathRTT rtt e) outs"

text \<open>The FEC packets among the datagrams handed to the carrier.\<close>

definition fec_packets :: "bytes list \<Rightarrow> packet list" where
  "fec_packets ds = List.map_filter (\<lambda>d. case parsePacket d of Parsed p \<Rightarrow> Some p | _ \<Rightarrow> None) ds"

lemma fec_packets_append: "fec_packets (xs @ ys) = fec_packets xs @ fec_packets ys"
  by (simp add: fec_packets_def map_filter_def)

lemma fec_packets_marshal:
  "\<forall>p \<in> set ps. length (p_payload p) \<le> MaxFrameSize + 2 \<Longrightarrow> fec_packets (map marshalPacket ps) = ps"
  by (induction ps) (simp_all add: fec_packets_def map_filter_def parse_marshalPacket)

lemma word_payloads:
  assumes lib: "rs_good lib m" and i: "info_ok m i" and q: "q \<in> set (group_word lib gid i)"
  shows "length (p_payload q) \<le> MaxFrameSize + 2"
proof -
  let ?fs = "snd (snd i)" and ?p = "fst (snd i)"
  have fs: "?fs \<noteq> []" "\<forall>f \<in> set ?fs. length (data_shard f) \<le> MaxFrameSize + 2" "1 \<le> ?p"
    using i by (auto simp: info_ok_def frame_ok_def)
  have i2: "length ?fs \<le> m" using i by (simp add: info_ok_def)
  have n: "shard_size (map data_shard ?fs) \<le> MaxFrameSize + 2" using fs(2) by (intro shard_size_le) simp
  note par = group_parity_mds(4) [OF lib fs(1) i2 fs(3)]
  consider (data) "q \<in> set (data_packets gid i)" | (parity) "q \<in> set (closing_packets lib (info_group gid i) ?fs)"
    using q by (auto simp: group_word_def)
  then show ?thesis
  proof cases
    case data
    then show ?thesis using fs(2) by (auto simp: data_packets_def data_packet_def enumerate_eq_zip dest: set_zip_rightD)
  next
    case parity
    then show ?thesis using par n
      by (auto simp: closing_packets_def Let_def parity_packet_def close_packet_def info_group_def enumerate_eq_zip
          dest: set_zip_rightD)
  qed
qed

lemma sender_counts: "sender_steps lib m s s' \<Longrightarrow> s_next s \<le> length (s_trace s) \<Longrightarrow> s_next s' \<le> length (s_trace s')"
proof (induction rule: rtranclp_induct)
  case (step y z)
  from step(2,3,4) show ?case by (cases rule: sender_step.cases) auto
qed

lemma known_stays:
  "sender_steps lib m s s' \<Longrightarrow> gid \<in> dom (s_open s) \<union> dom (s_closed s) \<Longrightarrow> gid \<in> dom (s_open s') \<union> dom (s_closed s')"
proof (induction rule: rtranclp_induct)
  case (step y z)
  from step(2,3,4) show ?case by (cases rule: sender_step.cases) auto
qed

lemma close_in_trace:
  assumes st: "sender_steps lib m s s'" "s_trace s' = s_trace s @ ps" and s: "sender_ok lib m s"
    and o: "s_open s gid = Some i" and o': "s_open s' gid = None"
  shows "\<exists>q \<in> set ps. p_kind q = KindClose"
proof -
  have s': "sender_ok lib m s'" using sender_steps_ok [OF st(1) s] .
  have "gid \<in> dom (s_open s) \<union> dom (s_closed s)" using o by (simp add: domI)
  from known_stays [OF st(1) this] o' have "gid \<in> dom (s_closed s')" by (simp add: domIff)
  then obtain i' where i': "s_closed s' gid = Some i'" using domD [of gid "s_closed s'"] by blast
  define q where "q = close_packet (info_group gid i') (length (snd (snd i'))) (int (repair_count (fst (snd i')) (length (snd (snd i')))))"
  have k: "p_kind q = KindClose" by (simp add: q_def close_packet_def)
  have "q \<in> set (group_word lib gid i')"
    by (simp add: group_word_def closing_packets_def Let_def q_def info_group_def)
  then have "q \<in> set (filter (\<lambda>p. p_groupID p = gid) (s_trace s'))" using sender_okD(5) [OF s' i'] by simp
  then have q: "q \<in> set (s_trace s @ ps)" "p_groupID q = gid" using st(2) by auto
  have "q \<notin> set (s_trace s)"
  proof
    assume "q \<in> set (s_trace s)"
    then have "q \<in> set (filter (\<lambda>p. p_groupID p = gid) (s_trace s))" using q(2) by simp
    then have "q \<in> set (data_packets gid i)" unfolding sender_okD(4) [OF s o] .
    with k show False by (auto simp: data_packets_def data_packet_def)
  qed
  with q(1) k show ?thesis by auto
qed

lemma closed_mono: "sender_steps lib m s s' \<Longrightarrow> sender_ok lib m s \<Longrightarrow> s_closed s gid = Some i \<Longrightarrow> s_closed s' gid = Some i"
proof (induction rule: rtranclp_induct)
  case (step y z)
  then have "sender_ok lib m y" "s_closed y gid = Some i" using sender_steps_ok by auto
  with step(2) show ?case by (cases rule: sender_step.cases) (auto dest: sender_okD(1))
qed

lemma trace_in_words:
  assumes s: "sender_ok lib m s" and q: "q \<in> set (s_trace s)"
  obtains i where "s_open s (p_groupID q) = Some i \<or> s_closed s (p_groupID q) = Some i" "info_ok m i"
    "q \<in> set (group_word lib (p_groupID q) i)"
proof -
  have "p_groupID q \<in> dom (s_open s) \<union> dom (s_closed s)" using s q unfolding sender_ok_def by blast
  then obtain i where i: "s_open s (p_groupID q) = Some i \<or> s_closed s (p_groupID q) = Some i" by blast
  have "q \<in> set (filter (\<lambda>p. p_groupID p = p_groupID q) (s_trace s))" using q by simp
  with i sender_okD(2-5) [OF s, of "p_groupID q" i] have "info_ok m i" "q \<in> set (group_word lib (p_groupID q) i)"
    by (auto simp del: set_filter simp add: group_word_def)
  with i that show ?thesis by blast
qed

lemma sender_init_ok: "sender_ok lib m sender_init"
  by (simp add: sender_ok_def sender_init_def)

definition run_ok :: "rs_lib \<Rightarrow> nat \<Rightarrow> 'f Encoder \<Rightarrow> bytes list \<Rightarrow> sender \<Rightarrow> bool" where
  "run_ok lib m e outs s \<longleftrightarrow> sender_steps lib m sender_init s \<and> refines e s \<and> enc_ok m e \<and> fec_packets outs = s_trace s"

lemma run_ok_sender: "run_ok lib m e outs s \<Longrightarrow> sender_ok lib m s \<and> s_next s \<le> length outs"
proof -
  assume r: "run_ok lib m e outs s"
  then have "sender_ok lib m s" using sender_steps_ok sender_init_ok by (auto simp: run_ok_def)
  moreover have "s_next s \<le> length (s_trace s)"
    using r sender_counts [of lib m sender_init s] by (simp add: run_ok_def sender_init_def)
  moreover have "length (s_trace s) \<le> length outs"
    using r by (metis fec_packets_def length_filter_le length_map map_filter_def run_ok_def)
  ultimately show ?thesis by simp
qed

lemma run_ok_step:
  assumes r: "run_ok lib m e outs s" and lib: "rs_good lib m"
    and sim: "simulated lib m s raw (e', Inr out) s' ps" and raw: "\<forall>f \<in> set raw. parsePacket f = NotFec"
  shows "run_ok lib m e' (outs @ out) s'"
proof -
  note em = simulated_emits [OF sim conjunct1 [OF run_ok_sender [OF r]], unfolded fst_conv snd_conv]
  have t: "s_trace s' = s_trace s @ ps" using em(2) by (simp add: emits_def)
  have "length (p_payload q) \<le> MaxFrameSize + 2" if "q \<in> set ps" for q
    using trace_in_words [OF em(1), of q] word_payloads [OF lib] that t by (metis UnI2 set_append)
  then have "fec_packets (map marshalPacket ps) = ps" by (simp add: fec_packets_marshal)
  moreover have "fec_packets raw = []" using raw by (induction raw) (simp_all add: fec_packets_def map_filter_def)
  ultimately have "fec_packets (outs @ out) = s_trace s'"
    using r em(5) t by (simp add: fec_packets_append run_ok_def)
  with r em show ?thesis by (auto simp: run_ok_def emits_def)
qed

lemma enc_ok_resize:
  assumes "enc_ok m e" "inflight (e_groups e) = []" "1 \<le> k" "k \<le> n" "n \<le> MaxInterleave"
  shows "enc_ok m (initGroups n (e\<lparr>e_minInterleave := k, e_interleave := n\<rparr>))"
    and "n = e_interleave e \<Longrightarrow> enc_ok m (e\<lparr>e_minInterleave := k\<rparr>)"
proof -
  have "1 \<le> e_maxData e" using assms(1) unfolding enc_ok_def by blast
  from initGroups_ok(1) [OF this, of n "e_epoch e"] assms(1,3-5)
  show "enc_ok m (initGroups n (e\<lparr>e_minInterleave := k, e_interleave := n\<rparr>))"
    unfolding enc_ok_def initGroups_def by simp
  show "n = e_interleave e \<Longrightarrow> enc_ok m (e\<lparr>e_minInterleave := k\<rparr>)"
    using assms(1,3-5) unfolding enc_ok_def by simp
qed

lemma SetInterleave_fresh:
  assumes e: "enc_ok m e" "refines e s" "inflight (e_groups e) = []" "e_interleave e = 1"
    and fl: "\<And>k. flushAll lib (e\<lparr>e_minInterleave := k\<rparr>) = (e\<lparr>e_minInterleave := k\<rparr>, Inr [])"
  shows "enc_ok m (fst (SetInterleave lib il e))" "refines (fst (SetInterleave lib il e)) s"
proof -
  define k where "k = min MaxInterleave (nat (max 1 il))"
  define t where "t = target_interleave (e\<lparr>e_minInterleave := k\<rparr>)"
  have k: "1 \<le> k" "k \<le> MaxInterleave" by (auto simp: k_def fec_consts)
  have "ctrl_ok (e_controller e)" using e(1) by (simp add: enc_ok_def)
  then have t: "k \<le> t" "t \<le> MaxInterleave"
    using k(2) by (auto simp: t_def target_interleave_def CurrentInterleave_def ctrl_ok_def fec_consts)
  have s: "fst (SetInterleave lib il e) =
     (if t = 1 then e\<lparr>e_minInterleave := k\<rparr> else initGroups t (e\<lparr>e_minInterleave := k, e_interleave := t\<rparr>))"
    using t k(1) fl e(4) by (auto simp: SetInterleave_def setInterleave_def Let_def k_def [symmetric] t_def [symmetric])
  note r = enc_ok_resize [OF e(1,3) k(1) t]
  show "enc_ok m (fst (SetInterleave lib il e))"
    using r e(4) unfolding s by (cases "t = 1") simp_all
  show "refines (fst (SetInterleave lib il e)) s"
    using e(2,3) initGroups_ok(2) [of t] unfolding s refines_def by (simp add: initGroups_def)
qed

lemma SetInterleave_new:
  assumes "ctrl_ok c" "e_maxData (NewEncoder n c) \<le> m"
  shows "enc_ok m (fst (SetInterleave lib il (NewEncoder n c)))" "refines (fst (SetInterleave lib il (NewEncoder n c))) sender_init"
proof -
  note ok = NewEncoder_ok [OF assms]
  have f: "inflight (e_groups (NewEncoder n c)) = []" "e_interleave (NewEncoder n c) = 1"
    by (simp_all add: NewEncoder_def Let_def initGroups_def inflight_def empty_group_def)
  have fl: "flushAll lib (NewEncoder n c\<lparr>e_minInterleave := k\<rparr>) = (NewEncoder n c\<lparr>e_minInterleave := k\<rparr>, Inr [])" for k
    by (simp add: flushAll_def NewEncoder_def Let_def initGroups_def flushGroup_def empty_group_def)
  show "enc_ok m (fst (SetInterleave lib il (NewEncoder n c)))" "refines (fst (SetInterleave lib il (NewEncoder n c))) sender_init"
    by (rule SetInterleave_fresh [OF ok f fl])+
qed

lemma enc_run_refines:
  "enc_run lib F m e outs \<Longrightarrow> rs_good lib m \<Longrightarrow> length outs < 2 ^ 64 \<Longrightarrow> \<exists>s. run_ok lib m e outs s"
proof (induction rule: enc_run.induct)
  case (enc_new c n il)
  from SetInterleave_new [OF ctrl_reach_ok [OF enc_new(1)] enc_new(2)] show ?case
    by (intro exI [of _ sender_init]) (simp add: run_ok_def fec_packets_def sender_init_def map_filter_def)
next
  case (enc_add e outs f e' out)
  then obtain s where r: "run_ok lib m e outs s" by auto
  note so = run_ok_sender [OF r]
  have "s_next s < 2 ^ 64" using so enc_add(7) by simp
  then obtain s' ps raw where "simulated lib m s raw (Encoder_Add lib f e) s' ps" "raw = [f] \<or> raw = []"
    using Add_sim [OF _ _ conjunct1 [OF so] enc_add(6,2)] r by (metis run_ok_def)
  with run_ok_step [OF r enc_add(6)] enc_add(3,4) show ?case by fastforce
next
  case (enc_flush e outs e' out)
  then obtain s where r: "run_ok lib m e outs s" by auto
  then obtain s' ps where "simulated lib m s [] (flushAll lib e) s' ps"
    using flush_ok [OF _ _ enc_flush(4)] by (metis run_ok_def)
  with run_ok_step [OF r enc_flush(4)] enc_flush(2) show ?case by (fastforce simp: Encoder_Flush_def)
next
  case (enc_reconfigure e outs maxData il e' out)
  then obtain s where r: "run_ok lib m e outs s" by auto
  have d: "0 < maxData" "maxData \<le> int MaxDataShards" "1 \<le> il" "il \<le> int MaxInterleave"
    using enc_reconfigure(3) by (auto simp: Reconfigure_def split: if_splits)
  then obtain s' ps where "simulated lib m s [] (Reconfigure lib maxData il e) s' ps"
    using Reconfigure_sim [OF _ _ conjunct1 [OF run_ok_sender [OF r]] enc_reconfigure(5) d(1,2) enc_reconfigure(2) d(3,4)] r
    by (metis run_ok_def)
  with run_ok_step [OF r enc_reconfigure(5)] enc_reconfigure(3) show ?case by fastforce
next
  case (enc_observe e outs fb)
  then show ?case using observing_ok(1,2) by (metis run_ok_def)
next
  case (enc_transport e outs sent lost)
  then show ?case using observing_ok(3,4) by (metis run_ok_def)
next
  case (enc_rtt e outs rtt)
  then show ?case using observing_ok(5,6) by (metis run_ok_def)
qed

section \<open>Properties of the encoder\<close>

text \<open>C3.  The encoder implements the abstract sender.  Whatever sequence of frames, flushes,
  reconfigurations and observations drives it, the FEC packets it hands to the carrier are a trace of the
  abstract sender: for every group identifier they are, in order, the data packets of one list of frames,
  followed, once the group is closed, by its parity shards and its close packet, and never anything else.\<close>

theorem encoder_emits_group_words:
  assumes "enc_run lib F m e outs" "rs_good lib m" "length outs < 2 ^ 64"
  shows "(\<exists>s. sender_steps lib m sender_init s \<and> fec_packets outs = s_trace s)
     \<and> (\<forall>gid. \<exists>i. let ps = filter (\<lambda>p. p_groupID p = gid) (fec_packets outs)
          in ps = [] \<or> info_ok m i \<and> (ps = data_packets gid i \<or> ps = group_word lib gid i))"
proof -
  obtain s where r: "run_ok lib m e outs s" using enc_run_refines [OF assms] by blast
  note s = conjunct1 [OF run_ok_sender [OF r]]
  have t: "fec_packets outs = s_trace s" using r by (simp add: run_ok_def)
  have "\<exists>i. let ps = filter (\<lambda>p. p_groupID p = gid) (fec_packets outs)
      in ps = [] \<or> info_ok m i \<and> (ps = data_packets gid i \<or> ps = group_word lib gid i)" for gid
  proof (cases "s_open s gid")
    case (Some i)
    then show ?thesis using sender_okD(2,4) [OF s Some] by (intro exI [of _ i]) (simp add: t)
  next
    case None
    then show ?thesis
      using sender_okD(3,5) [OF s, of gid "the (s_closed s gid)"] sender_okD(8) [OF s None]
      by (intro exI [of _ "the (s_closed s gid)"], cases "s_closed s gid") (simp_all add: t)
  qed
  with r show ?thesis by (auto simp: run_ok_def)
qed

definition unit_floats :: "unit floats" where
  "unit_floats = \<lparr>fl_lit = (\<lambda>_ _. ()), fl_of_int = (\<lambda>_. ()), fl_add = (\<lambda>_ _. ()), fl_sub = (\<lambda>_ _. ()),
     fl_mul = (\<lambda>_ _. ()), fl_div = (\<lambda>_ _. ()), fl_pow = (\<lambda>_ _. ()), fl_min = (\<lambda>_ _. ()), fl_max = (\<lambda>_ _. ()),
     fl_le = (\<lambda>_ _. True), fl_to_u64 = (\<lambda>_. 0)\<rparr>"

definition sample_encoder :: "unit Encoder" where
  "sample_encoder = fst (SetInterleave xor_lib 1 (NewEncoder 2 (NewController unit_floats)))"

definition sample_encoder1 :: "unit Encoder" where
  "sample_encoder1 = fst (Encoder_Add xor_lib [10, 20] sample_encoder)"

definition sample_out1 :: "bytes list" where
  "sample_out1 = projr (snd (Encoder_Add xor_lib [10, 20] sample_encoder))"

lemma sample_encoder_run: "enc_run xor_lib unit_floats 3 sample_encoder []"
  unfolding sample_encoder_def by (rule enc_new [OF ctrl_new]) (simp add: NewEncoder_def Let_def initGroups_def fec_consts)

lemma sample_frames: "frame_ok [10, 20]" "frame_ok [30]" "parsePacket [10, 20] = NotFec" "parsePacket [30] = NotFec"
  by (simp_all add: frame_ok_def fec_consts parsePacket_def)

lemma sample_encoder1_run: "enc_run xor_lib unit_floats 3 sample_encoder1 sample_out1"
proof -
  have "isl (snd (Encoder_Add xor_lib [10, 20] sample_encoder)) = False" by code_simp
  then have "Encoder_Add xor_lib [10, 20] sample_encoder = (sample_encoder1, Inr sample_out1)"
    by (cases "Encoder_Add xor_lib [10, 20] sample_encoder"; cases "snd (Encoder_Add xor_lib [10, 20] sample_encoder)")
      (simp_all add: sample_encoder1_def sample_out1_def)
  from enc_add [OF sample_encoder_run sample_frames(1,3) this] show ?thesis by simp
qed

theorem encoder_emits_group_words_witness:
  "length sample_out1 = 1 \<and> rs_good xor_lib 3
   \<and> (\<exists>s. sender_steps xor_lib 3 sender_init s \<and> fec_packets sample_out1 = s_trace s)"
proof -
  have "length sample_out1 = 1" by code_simp
  with encoder_emits_group_words [OF sample_encoder1_run xor_lib_good] xor_lib_good show ?thesis by simp
qed

text \<open>Adding a valid frame to a running encoder always succeeds, and the frame leaves at once:
  either as it is, on the healthy fast path, or as the data packet that carries it with its length.\<close>

theorem Add_emits_frame:
  assumes "enc_run lib F m e outs" "rs_good lib m" "length outs < 2 ^ 64" "frame_ok f"
  shows "\<exists>e' out. Encoder_Add lib f e = (e', Inr out)
     \<and> (f \<in> set out \<or> (\<exists>q. marshalPacket q \<in> set out \<and> p_kind q = KindData \<and> p_payload q = data_shard f))"
proof -
  obtain s where r: "run_ok lib m e outs s" using enc_run_refines [OF assms(1-3)] by blast
  note so = run_ok_sender [OF r]
  have "s_next s < 2 ^ 64" using so assms(3) by simp
  then obtain s' ps raw where s': "simulated lib m s raw (Encoder_Add lib f e) s' ps"
    "raw = [f] \<or> raw = [] \<and> (\<exists>q \<in> set ps. p_kind q = KindData \<and> p_payload q = data_shard f)"
    using Add_sim [OF _ _ conjunct1 [OF so] assms(2,4)] r by (metis run_ok_def)
  from simulated_res [OF s'(1)] s'(2) show ?thesis
    by (intro exI [of _ "fst (Encoder_Add lib f e)"] exI [of _ "map marshalPacket ps @ raw"]) auto
qed

theorem Add_emits_frame_witness:
  "\<exists>e' out. Encoder_Add xor_lib [30] sample_encoder1 = (e', Inr out)
     \<and> ([30] \<in> set out \<or> (\<exists>q. marshalPacket q \<in> set out \<and> p_kind q = KindData \<and> p_payload q = [0, 1, 30]))"
proof -
  have l: "length sample_out1 = 1" by code_simp
  have "data_shard [30] = [0, 1, 30]" by code_simp
  with Add_emits_frame [OF sample_encoder1_run xor_lib_good _ sample_frames(2)] l show ?thesis by simp
qed

text \<open>C28.  The state of a running encoder stays in range: between one and four groups in flight, each below
  its data shard limit, the epoch never zero and published, and the flush delay between the base delay
  and four times it.\<close>

theorem encoder_bounded:
  assumes "enc_run lib F m e outs" "rs_good lib m" "length outs < 2 ^ 64" "0 \<le> base"
  shows "1 \<le> e_interleave e \<and> e_interleave e \<le> 4 \<and> length (e_groups e) = e_interleave e \<and> e_current e < e_interleave e
     \<and> (\<forall>g \<in> set (e_groups e). length (g_data g) < e_maxData e) \<and> e_maxData e \<le> 32
     \<and> e_epoch e \<noteq> 0 \<and> e_epochSnapshot e = ucast (e_epoch e)
     \<and> base \<le> FlushDelay base e \<and> FlushDelay base e \<le> 4 * base"
proof -
  obtain s where "run_ok lib m e outs s" using enc_run_refines [OF assms(1-3)] by blast
  then have e: "enc_ok m e" by (simp add: run_ok_def)
  then have i: "1 \<le> e_minInterleave e" "e_minInterleave e \<le> e_interleave e" "e_interleave e \<le> 4"
    by (auto simp: enc_ok_def fec_consts)
  have "base * int (e_minInterleave e) div int (e_minInterleave e) \<le> base * int (e_interleave e) div int (e_minInterleave e)"
    using i assms(4) by (intro zdiv_mono1 mult_left_mono) auto
  moreover have "base * int (e_interleave e) div int (e_minInterleave e) \<le> base * 4 div 1"
    using i assms(4) by (intro order_trans [OF zdiv_mono2 [of _ 1] zdiv_mono1]) (auto intro: mult_left_mono)
  ultimately have "base \<le> FlushDelay base e \<and> FlushDelay base e \<le> 4 * base"
    using i assms(4) by (simp add: FlushDelay_def)
  with e i show ?thesis by (simp add: enc_ok_def egroup_ok_def fec_consts)
qed

theorem encoder_bounded_witness:
  "length (e_groups sample_encoder1) \<le> 4 \<and> FlushDelay 5 sample_encoder1 \<le> 20"
proof -
  have l: "length sample_out1 = 1" by code_simp
  then show ?thesis using encoder_bounded [OF sample_encoder1_run xor_lib_good, of 5] by simp
qed

text \<open>A flush never fails, leaves nothing pending and emits a close packet for every group that was.\<close>

theorem Flush_closes_all:
  assumes "enc_run lib F m e outs" "rs_good lib m" "length outs < 2 ^ 64"
  shows "\<exists>e' out. Encoder_Flush lib e = (e', Inr out) \<and> \<not> Encoder_Pending e'
     \<and> (Encoder_Pending e \<longrightarrow> (\<exists>q. marshalPacket q \<in> set out \<and> p_kind q = KindClose))"
proof -
  obtain s where r: "run_ok lib m e outs s" using enc_run_refines [OF assms] by blast
  then have e: "enc_ok m e" "refines e s" by (simp_all add: run_ok_def)
  obtain codecs' ps s' where f: "flushAll lib e =
      (e\<lparr>e_codecs := codecs', e_groups := map (\<lambda>g. g\<lparr>g_data := []\<rparr>) (e_groups e)\<rparr>, Inr (map marshalPacket ps))"
    "emits lib m s ps s'" "s_open s' = Map.empty"
    using flushAll_sim [OF e assms(2)] by metis
  have "\<exists>q \<in> set ps. p_kind q = KindClose" if p: "Encoder_Pending e"
  proof -
    obtain g where g: "g \<in> set (e_groups e)" "g_data g \<noteq> []" using p by (auto simp: Encoder_Pending_def list_ex_iff)
    then have "(g_groupID g, group_info g) \<in> set (inflight (e_groups e))" by (auto simp: inflight_def)
    then have o: "s_open s (g_groupID g) = Some (group_info g)" using e(2) by (simp add: refines_def)
    have st: "sender_steps lib m s s'" "s_trace s' = s_trace s @ ps" using f(2) by (auto simp: emits_def)
    show ?thesis using close_in_trace [OF st conjunct1 [OF run_ok_sender [OF r]] o] f(3) by simp
  qed
  with f(1) show ?thesis by (auto simp: Encoder_Flush_def Encoder_Pending_def list_ex_iff)
qed

theorem Flush_closes_all_witness:
  "\<exists>e' out. Encoder_Flush xor_lib sample_encoder1 = (e', Inr out) \<and> \<not> Encoder_Pending e'
     \<and> (\<exists>q. marshalPacket q \<in> set out \<and> p_kind q = KindClose)"
proof -
  have "length sample_out1 = 1" "Encoder_Pending sample_encoder1" by code_simp+
  with Flush_closes_all [OF sample_encoder1_run xor_lib_good] show ?thesis by auto
qed

end
