(* ===== verification/Fec_Decoder.thy ===== *)
theory Fec_Decoder
  imports Fec_Encoder
begin

text \<open>
  The FEC decoder of \<open>internal/transport/fec/decoder.go\<close>.  Shard maps and group maps are association
  lists; the expiry heap holds the creation time and the identifier of each group, the two fields
  its order reads, and neither changes after the group was pushed.  A decoder belongs to one session
  and is driven by one goroutine, so every method is one step.
\<close>

definition groupTTL :: duration where
  "groupTTL = 3 * second"

definition completionGrace :: duration where
  "completionGrace = 10 * millisecond"

definition maxReceiveGroups :: nat where
  "maxReceiveGroups = 1024"

definition maxCompletedGroups :: nat where
  "maxCompletedGroups = 4096"

lemmas dec_consts = groupTTL_def completionGrace_def maxReceiveGroups_def maxCompletedGroups_def

record receiveGroup =
  rg_created :: instant
  rg_epoch :: u16
  rg_groupID :: u64
  rg_k :: nat
  rg_r :: nat
  rg_data :: "(nat \<times> bytes) list"
  rg_parity :: "(nat \<times> bytes) list"
  rg_delivered :: u64
  rg_reconstructed :: u64
  rg_closed :: bool

record completedGroup =
  dg_finalized :: instant
  dg_epoch :: u16
  dg_k :: nat
  dg_delivered :: u64
  dg_reconstructed :: u64
  dg_missing :: u16
  dg_recovered :: u16

record Decoder =
  d_groups :: "(u64 \<times> receiveGroup) list"
  d_groupExpiry :: "(instant \<times> u64) pq"
  d_completed :: "(u64 \<times> completedGroup) list"
  d_codecs :: codecs
  d_lastGroupID :: u64
  d_nextExpiry :: "instant option"

record Result =
  res_handled :: bool
  res_frames :: "bytes list"
  res_send :: "Feedback list"
  res_observed :: "Feedback option"

datatype dec_error =
    WireError wire_error
  | InvalidFeedbackCounters
  | EpochChangedCompleted
  | TooManyGroups
  | EpochChangedGroup
  | InvalidDataShard
  | InvalidParityShard
  | InvalidDimensions
  | InconsistentDimensions
  | ShardTooShort
  | InvalidFrameLengthPrefix
  | NoCodec

definition NewDecoder :: Decoder where
  "NewDecoder = \<lparr>d_groups = [], d_groupExpiry = pq_empty, d_completed = [], d_codecs = [], d_lastGroupID = 0,
     d_nextExpiry = None\<rparr>"

definition decodeDataShard :: "bytes \<Rightarrow> dec_error + bytes" where
  "decodeDataShard shard =
     (if length shard < 2 then Inl ShardTooShort
      else let n = unat (get16 (subslice 0 2 shard))
           in if n = 0 \<or> n > length shard - 2 then Inl InvalidFrameLengthPrefix
              else Inr (subslice 2 (2 + n) shard))"

definition setDimensions :: "nat \<Rightarrow> nat \<Rightarrow> receiveGroup \<Rightarrow> dec_error + receiveGroup" where
  "setDimensions k r g =
     (if k = 0 \<or> k > MaxDataShards \<or> r > MaxParityShards then Inl InvalidDimensions
      else if rg_k g \<noteq> 0 \<and> (rg_k g \<noteq> k \<or> rg_r g \<noteq> r) then Inl InconsistentDimensions
      else Inr (g\<lparr>rg_k := k, rg_r := r\<rparr>))"

text \<open>How many of the first \<open>n\<close> slots of a shard map are filled.\<close>

definition count_present :: "nat \<Rightarrow> (nat \<times> bytes) list \<Rightarrow> nat" where
  "count_present n m = length (filter (\<lambda>i. map_of m i \<noteq> None) [0..<n])"

definition receive_less :: "instant \<times> u64 \<Rightarrow> instant \<times> u64 \<Rightarrow> bool" where
  "receive_less a b = (if fst a = fst b then snd a < snd b else fst a < fst b)"

definition removeGroup :: "receiveGroup \<Rightarrow> Decoder \<Rightarrow> Decoder" where
  "removeGroup g d =
     d\<lparr>d_groups := AList.delete (rg_groupID g) (d_groups d),
       d_groupExpiry := pq_remove receive_less (rg_created g, rg_groupID g) (d_groupExpiry d)\<rparr>"

definition scheduleExpiry :: "instant \<Rightarrow> Decoder \<Rightarrow> Decoder" where
  "scheduleExpiry u d =
     (case d_nextExpiry d of
        None \<Rightarrow> d\<lparr>d_nextExpiry := Some u\<rparr>
      | Some t \<Rightarrow> if u < t then d\<lparr>d_nextExpiry := Some u\<rparr> else d)"

text \<open>The search of \<open>limitCompleted\<close> for the oldest entry; the first of several wins.\<close>

fun oldest :: "(u64 \<times> completedGroup) list \<Rightarrow> (u64 \<times> instant) option \<Rightarrow> (u64 \<times> instant) option" where
  "oldest [] best = best"
| "oldest ((gid, c) # cs) best =
     oldest cs (case best of
                  None \<Rightarrow> Some (gid, dg_finalized c)
                | Some (b, u) \<Rightarrow> if dg_finalized c < u then Some (gid, dg_finalized c) else Some (b, u))"

definition limitCompleted :: "Decoder \<Rightarrow> Decoder" where
  "limitCompleted d =
     (if length (d_completed d) < maxCompletedGroups then d
      else case oldest (d_completed d) None of
             None \<Rightarrow> d
           | Some (gid, _) \<Rightarrow> d\<lparr>d_completed := AList.delete gid (d_completed d)\<rparr>)"

definition stalled_feedback :: "receiveGroup \<Rightarrow> Feedback" where
  "stalled_feedback g =
     \<lparr>fb_epoch = rg_epoch g, fb_groupID = rg_groupID g,
      fb_missing = of_nat (rg_k g - count_present (rg_k g) (rg_data g)), fb_recovered = 0, fb_total = of_nat (rg_k g)\<rparr>"

definition vanished_feedback :: "receiveGroup \<Rightarrow> Feedback" where
  "vanished_feedback g =
     \<lparr>fb_epoch = rg_epoch g, fb_groupID = rg_groupID g, fb_missing = 1, fb_recovered = 0, fb_total = 0\<rparr>"

text \<open>A heap entry always has its group (\<open>dec_ok\<close> below); the loop stops if it had none.\<close>

function fastExpire :: "instant \<Rightarrow> Decoder \<Rightarrow> Decoder \<times> Feedback list" where
  "fastExpire now d =
     (if pq_items (d_groupExpiry d) = [] then (d, [])
      else case map_of (d_groups d) (snd (pq_peek (d_groupExpiry d))) of
        None \<Rightarrow> (d, [])
      | Some g \<Rightarrow>
          if d_lastGroupID d - rg_groupID g < of_nat MaxInterleave \<or> now - rg_created g \<le> completionGrace
          then (d, [])
          else let fb = (if rg_k g > 0 then stalled_feedback g else vanished_feedback g);
                   (d', fbs) = fastExpire now (removeGroup g d)
               in (d', fb # fbs))"
  by pat_completeness auto
termination
  by (relation "measure (\<lambda>(now, d). length (pq_items (d_groupExpiry d)))") (auto simp: removeGroup_def)

declare fastExpire.simps [simp del]

text \<open>The two scans of \<open>expire\<close>, over the groups and over the completed groups.\<close>

definition expire_group :: "instant \<Rightarrow> Decoder \<times> Feedback list \<Rightarrow> u64 \<times> receiveGroup \<Rightarrow> Decoder \<times> Feedback list" where
  "expire_group now acc e =
     (let (d, fbs) = acc; g = snd e
      in if now - rg_created g > groupTTL
         then (removeGroup g d, if rg_k g > 0 then fbs @ [stalled_feedback g] else fbs)
         else (scheduleExpiry (rg_created g + groupTTL) d, fbs))"

definition done_feedback :: "u64 \<Rightarrow> completedGroup \<Rightarrow> Feedback" where
  "done_feedback gid c =
     \<lparr>fb_epoch = dg_epoch c, fb_groupID = gid, fb_missing = dg_missing c, fb_recovered = dg_recovered c,
      fb_total = of_nat (dg_k c)\<rparr>"

definition expire_completed :: "instant \<Rightarrow> Decoder \<times> Feedback list \<Rightarrow> u64 \<times> completedGroup \<Rightarrow> Decoder \<times> Feedback list" where
  "expire_completed now acc e =
     (let (d, fbs) = acc; (gid, c) = e
      in if now - dg_finalized c > groupTTL
         then (d\<lparr>d_completed := AList.delete gid (d_completed d)\<rparr>, fbs)
         else if now - dg_finalized c > completionGrace
         then (d\<lparr>d_completed := AList.delete gid (d_completed d)\<rparr>, fbs @ [done_feedback gid c])
         else (scheduleExpiry (dg_finalized c + completionGrace) d, fbs))"

definition expire :: "instant \<Rightarrow> Decoder \<Rightarrow> Decoder \<times> Feedback list" where
  "expire now d =
     (case d_nextExpiry d of
        None \<Rightarrow> (d, [])
      | Some t \<Rightarrow>
          if now \<le> t then (d, [])
          else let d = d\<lparr>d_nextExpiry := None\<rparr>;
                   acc = foldl (expire_group now) (d, []) (d_groups d)
               in foldl (expire_completed now) acc (d_completed d))"

definition Decoder_Expire :: "instant \<Rightarrow> Decoder \<Rightarrow> Decoder \<times> Feedback list" where
  "Decoder_Expire now d =
     (let (d, fast) = fastExpire now d; (d, slow) = expire now d in (d, fast @ slow))"

section \<open>Completing a group\<close>

definition longest :: "(nat \<times> bytes) list \<Rightarrow> nat" where
  "longest m = fold (\<lambda>e n. max n (length (snd e))) m 0"

definition slot :: "nat \<Rightarrow> (nat \<times> bytes) list \<Rightarrow> nat \<Rightarrow> bytes" where
  "slot n m i = (case map_of m i of None \<Rightarrow> [] | Some s \<Rightarrow> padShard s n)"

definition group_shards :: "nat \<Rightarrow> receiveGroup \<Rightarrow> bytes list" where
  "group_shards n g = map (slot n (rg_data g)) [0..<rg_k g] @ map (slot n (rg_parity g)) [0..<rg_r g]"

text \<open>The loop that takes the reconstructed shards over, for the indices still to do.\<close>

fun recover_loop :: "bytes list \<Rightarrow> nat list \<Rightarrow> receiveGroup \<Rightarrow> bytes list \<Rightarrow> receiveGroup \<times> (dec_error + bytes list)" where
  "recover_loop shards [] g frames = (g, Inr frames)"
| "recover_loop shards (i # is) g frames =
     (if map_of (rg_data g) i \<noteq> None then recover_loop shards is g frames
      else case decodeDataShard (shards ! i) of
        Inl e \<Rightarrow> (g, Inl e)
      | Inr frame \<Rightarrow>
          let g1 = g\<lparr>rg_data := AList.update i (shards ! i) (rg_data g),
                     rg_reconstructed := rg_reconstructed g OR push_bit i 1\<rparr>
          in if rg_delivered g1 AND push_bit i 1 = 0
             then recover_loop shards is (g1\<lparr>rg_delivered := rg_delivered g1 OR push_bit i 1\<rparr>) (frames @ [frame])
             else recover_loop shards is g1 frames)"

definition group_feedback :: "receiveGroup \<Rightarrow> nat \<Rightarrow> nat \<Rightarrow> Feedback" where
  "group_feedback g missing recovered =
     \<lparr>fb_epoch = rg_epoch g, fb_groupID = rg_groupID g, fb_missing = of_nat missing, fb_recovered = of_nat recovered,
      fb_total = of_nat (rg_k g)\<rparr>"

text \<open>\<open>tryComplete\<close>: the codec cache and the group after the call, and the error or the frames with the
  feedback, which is there exactly when the group is final.\<close>

definition tryComplete ::
  "rs_lib \<Rightarrow> codecs \<Rightarrow> receiveGroup \<Rightarrow> codecs \<times> receiveGroup \<times> (dec_error + bytes list \<times> Feedback option)" where
  "tryComplete lib codecs g =
     (if rg_k g = 0 then (codecs, g, Inr ([], None))
      else let original = count_present (rg_k g) (rg_data g);
               available = original + count_present (rg_r g) (rg_parity g);
               missing = rg_k g - original
      in if missing = 0
         then (codecs, g, Inr ([], if rg_closed g \<or> rg_r g = 0 then Some (group_feedback g missing 0) else None))
         else if available < rg_k g
         then (codecs, g, Inr ([], if rg_closed g \<and> rg_r g = 0 then Some (group_feedback g missing 0) else None))
         else let shardSize = max (longest (rg_data g)) (longest (rg_parity g));
                  shards = group_shards shardSize g;
                  (codecs, codec) = cachedCodec lib codecs (rg_k g) (rg_r g)
         in case codec of
              None \<Rightarrow> (codecs, g, Inl NoCodec)
            | Some codec \<Rightarrow>
                let (codecs, out) = codec_ReconstructData lib (rg_k g) (rg_r g) codec codecs shards
                in case out of
                     None \<Rightarrow> (codecs, g, Inr ([], if rg_closed g then Some (group_feedback g missing 0) else None))
                   | Some shards \<Rightarrow>
                       let (g', res) = recover_loop shards [0..<rg_k g] g []
                       in case res of
                            Inl e \<Rightarrow> (codecs, g', Inl e)
                          | Inr frames \<Rightarrow> (codecs, g', Inr (frames, Some (group_feedback g missing (length frames)))))"

section \<open>Handling a datagram\<close>

definition handleLateShard :: "completedGroup \<Rightarrow> packet \<Rightarrow> completedGroup \<times> bytes list" where
  "handleLateShard c p =
     (if p_kind p \<noteq> KindData \<or> unat (p_index p) \<ge> dg_k c \<or> length (p_payload p) < 3 then (c, [])
      else case decodeDataShard (p_payload p) of
        Inl _ \<Rightarrow> (c, [])
      | Inr frame \<Rightarrow>
          let bit = push_bit (unat (p_index p)) 1
          in if dg_reconstructed c AND bit \<noteq> 0
             then (c\<lparr>dg_missing := dg_missing c - 1, dg_recovered := dg_recovered c - 1,
                     dg_reconstructed := dg_reconstructed c AND NOT bit\<rparr>, [])
             else if dg_delivered c AND bit = 0
             then (c\<lparr>dg_delivered := dg_delivered c OR bit, dg_missing := dg_missing c - 1\<rparr>, [frame])
             else (c, []))"

text \<open>The switch of \<open>Handle\<close> on the kind of the packet: the group after it, and the error or the frame.\<close>

definition accept_data :: "packet \<Rightarrow> receiveGroup \<Rightarrow> receiveGroup \<times> (dec_error + bytes list)" where
  "accept_data p g =
     (if unat (p_index p) \<ge> MaxDataShards \<or> length (p_payload p) < 3 then (g, Inl InvalidDataShard)
      else let i = unat (p_index p);
               g = (if map_of (rg_data g) i = None then g\<lparr>rg_data := AList.update i (p_payload p) (rg_data g)\<rparr> else g)
      in if rg_delivered g AND push_bit i 1 = 0
         then (case decodeDataShard (the (map_of (rg_data g) i)) of
                 Inl e \<Rightarrow> (g, Inl e)
               | Inr frame \<Rightarrow> (g\<lparr>rg_delivered := rg_delivered g OR push_bit i 1\<rparr>, Inr [frame]))
         else (g, Inr []))"

definition accept_parity :: "packet \<Rightarrow> receiveGroup \<Rightarrow> receiveGroup \<times> (dec_error + bytes list)" where
  "accept_parity p g =
     (case setDimensions (unat (p_k p)) (unat (p_r p)) g of
        Inl e \<Rightarrow> (g, Inl e)
      | Inr g \<Rightarrow>
          if unat (p_index p) \<ge> rg_r g \<or> p_payload p = [] then (g, Inl InvalidParityShard)
          else if map_of (rg_parity g) (unat (p_index p)) = None
          then (g\<lparr>rg_parity := AList.update (unat (p_index p)) (p_payload p) (rg_parity g)\<rparr>, Inr [])
          else (g, Inr []))"

definition accept_close :: "packet \<Rightarrow> receiveGroup \<Rightarrow> receiveGroup \<times> (dec_error + bytes list)" where
  "accept_close p g =
     (case setDimensions (unat (p_k p)) (unat (p_r p)) g of
        Inl e \<Rightarrow> (g, Inl e)
      | Inr g \<Rightarrow> (g\<lparr>rg_closed := True\<rparr>, Inr []))"

definition accept :: "packet \<Rightarrow> receiveGroup \<Rightarrow> receiveGroup \<times> (dec_error + bytes list)" where
  "accept p g =
     (case p_kind p of
        KindData \<Rightarrow> accept_data p g
      | KindParity \<Rightarrow> accept_parity p g
      | KindClose \<Rightarrow> accept_close p g
      | KindFeedback \<Rightarrow> (g, Inr []))"

text \<open>What \<open>Handle\<close> does with the group it has: the group of the map is the one that was changed, also
  when an error is returned.\<close>

definition put_group :: "receiveGroup \<Rightarrow> Decoder \<Rightarrow> Decoder" where
  "put_group g d = d\<lparr>d_groups := AList.update (rg_groupID g) g (d_groups d)\<rparr>"

definition finalize :: "instant \<Rightarrow> receiveGroup \<Rightarrow> Feedback \<Rightarrow> Decoder \<Rightarrow> Decoder" where
  "finalize now g fb d =
     (let d = limitCompleted (removeGroup g d);
          c = \<lparr>dg_finalized = now, dg_epoch = rg_epoch g, dg_k = rg_k g, dg_delivered = rg_delivered g,
               dg_reconstructed = rg_reconstructed g, dg_missing = fb_missing fb, dg_recovered = fb_recovered fb\<rparr>
      in scheduleExpiry (now + completionGrace) (d\<lparr>d_completed := AList.update (rg_groupID g) c (d_completed d)\<rparr>))"

definition handle_group :: "rs_lib \<Rightarrow> instant \<Rightarrow> packet \<Rightarrow> receiveGroup \<Rightarrow> Decoder \<Rightarrow> Decoder \<times> bytes list \<times> dec_error option" where
  "handle_group lib now p g d =
     (if rg_epoch g \<noteq> p_epoch p then (d, [], Some EpochChangedGroup)
      else case accept p g of
        (g, Inl e) \<Rightarrow> (put_group g d, [], Some e)
      | (g, Inr frames) \<Rightarrow>
          let (codecs, g, res) = tryComplete lib (d_codecs d) g;
              d = put_group g d\<lparr>d_codecs := codecs\<rparr>
          in case res of
               Inl e \<Rightarrow> (d, frames, Some e)
             | Inr (recovered, None) \<Rightarrow> (d, frames @ recovered, None)
             | Inr (recovered, Some fb) \<Rightarrow> (finalize now g fb d, frames @ recovered, None))"

definition fresh_group :: "instant \<Rightarrow> packet \<Rightarrow> receiveGroup" where
  "fresh_group now p =
     \<lparr>rg_created = now, rg_epoch = p_epoch p, rg_groupID = p_groupID p, rg_k = 0, rg_r = 0, rg_data = [], rg_parity = [],
      rg_delivered = 0, rg_reconstructed = 0, rg_closed = False\<rparr>"

definition open_group :: "instant \<Rightarrow> packet \<Rightarrow> Decoder \<Rightarrow> Decoder" where
  "open_group now p d =
     scheduleExpiry (now + groupTTL)
       (d\<lparr>d_groups := AList.update (p_groupID p) (fresh_group now p) (d_groups d),
          d_groupExpiry := pq_push receive_less (now, p_groupID p) (d_groupExpiry d)\<rparr>)"

text \<open>The part of \<open>Handle\<close> after the expiry of stale groups, for a packet that is not feedback.\<close>

definition dispatch :: "rs_lib \<Rightarrow> instant \<Rightarrow> packet \<Rightarrow> Decoder \<Rightarrow> Decoder \<times> bytes list \<times> dec_error option" where
  "dispatch lib now p d =
     (case map_of (d_completed d) (p_groupID p) of
        Some c \<Rightarrow>
          if dg_epoch c \<noteq> p_epoch p then (d, [], Some EpochChangedCompleted)
          else let (c, frames) = handleLateShard c p
               in (d\<lparr>d_completed := AList.update (p_groupID p) c (d_completed d)\<rparr>, frames, None)
      | None \<Rightarrow>
          (case map_of (d_groups d) (p_groupID p) of
             Some g \<Rightarrow> handle_group lib now p g d
           | None \<Rightarrow>
               if length (d_groups d) \<ge> maxReceiveGroups then (d, [], Some TooManyGroups)
               else handle_group lib now p (fresh_group now p) (open_group now p d)))"

text \<open>The two expiry phases at the start of \<open>Handle\<close>, with the highest group identifier in between.\<close>

definition advance :: "instant \<Rightarrow> u64 \<Rightarrow> Decoder \<Rightarrow> Decoder \<times> Feedback list" where
  "advance now gid d =
     (let (d, slow) = expire now d;
          d = (if gid > d_lastGroupID d then d\<lparr>d_lastGroupID := gid\<rparr> else d);
          (d, fast) = fastExpire now d
      in (d, slow @ fast))"

definition no_result :: "bool \<Rightarrow> Result" where
  "no_result handled = \<lparr>res_handled = handled, res_frames = [], res_send = [], res_observed = None\<rparr>"

definition packet_feedback :: "packet \<Rightarrow> Feedback" where
  "packet_feedback p =
     \<lparr>fb_epoch = p_epoch p, fb_groupID = p_groupID p, fb_missing = p_index p, fb_recovered = p_r p, fb_total = p_k p\<rparr>"

definition Handle :: "rs_lib \<Rightarrow> instant \<Rightarrow> bytes \<Rightarrow> Decoder \<Rightarrow> Decoder \<times> Result \<times> dec_error option" where
  "Handle lib now data d =
     (case parsePacket data of
        Malformed e \<Rightarrow> (d, no_result True, Some (WireError e))
      | NotFec \<Rightarrow> (d, no_result False, None)
      | Parsed p \<Rightarrow>
          if p_kind p = KindFeedback
          then (if \<not> validFeedback (p_k p) (p_index p) (p_r p) then (d, no_result True, Some InvalidFeedbackCounters)
                else (d, no_result True\<lparr>res_observed := Some (packet_feedback p)\<rparr>, None))
          else let (d, send) = advance now (p_groupID p) d;
                   (d, frames, err) = dispatch lib now p d
          in (d, no_result True\<lparr>res_frames := frames, res_send := send\<rparr>, err))"

section \<open>The invariant of the decoder\<close>

interpretation rgroup: weak_order receive_less
  by unfold_locales (auto simp: receive_less_def split: if_splits)

definition slots_ok :: "nat \<Rightarrow> (nat \<times> bytes) list \<Rightarrow> bool" where
  "slots_ok n m \<longleftrightarrow> gomap_ok m \<and> set (keys m) \<subseteq> {..<n}"

lemma slots_ok_Nil [simp]: "slots_ok n []"
  by (simp add: slots_ok_def)

lemma slots_ok_update [simp]: "slots_ok n m \<Longrightarrow> i < n \<Longrightarrow> slots_ok n (AList.update i s m)"
  unfolding slots_ok_def keys_update by simp

lemma slots_ok_length: "slots_ok n m \<Longrightarrow> length m \<le> n"
  using card_mono [of "{..<n}" "set (keys m)"] distinct_card [of "keys m"] by (simp add: slots_ok_def gomap_ok_def)

definition rgroup_ok :: "receiveGroup \<Rightarrow> bool" where
  "rgroup_ok g \<longleftrightarrow> rg_k g \<le> MaxDataShards \<and> rg_r g \<le> MaxParityShards
     \<and> slots_ok MaxDataShards (rg_data g) \<and> slots_ok MaxParityShards (rg_parity g)"

definition expiry_entry :: "u64 \<times> receiveGroup \<Rightarrow> instant \<times> u64" where
  "expiry_entry e = (rg_created (snd e), fst e)"

text \<open>The map of groups and the heap hold the same groups.\<close>

definition groups_ok :: "Decoder \<Rightarrow> bool" where
  "groups_ok d \<longleftrightarrow> gomap_ok (d_groups d) \<and> (\<forall>e \<in> set (d_groups d). rg_groupID (snd e) = fst e \<and> rgroup_ok (snd e))
     \<and> pq_invar receive_less (d_groupExpiry d) \<and> pq_elems (d_groupExpiry d) = expiry_entry ` set (d_groups d)"

text \<open>A scan is scheduled no later than \<open>u\<close>.\<close>

definition scan_by :: "instant \<Rightarrow> Decoder \<Rightarrow> bool" where
  "scan_by u d = (case d_nextExpiry d of None \<Rightarrow> False | Some t \<Rightarrow> t \<le> u)"

definition timers_ok :: "Decoder \<Rightarrow> bool" where
  "timers_ok d \<longleftrightarrow> (\<forall>e \<in> set (d_groups d). scan_by (rg_created (snd e) + groupTTL) d)
     \<and> (\<forall>e \<in> set (d_completed d). scan_by (dg_finalized (snd e) + completionGrace) d)"

definition dec_ok :: "Decoder \<Rightarrow> bool" where
  "dec_ok d \<longleftrightarrow> groups_ok d \<and> timers_ok d \<and> gomap_ok (d_completed d) \<and> codecs_ok (d_codecs d)
     \<and> length (d_groups d) \<le> maxReceiveGroups \<and> length (d_completed d) \<le> maxCompletedGroups"

lemma dec_okD:
  assumes "dec_ok d"
  shows "groups_ok d" "timers_ok d" "gomap_ok (d_completed d)" "codecs_ok (d_codecs d)" "gomap_ok (d_groups d)"
    "length (d_groups d) \<le> maxReceiveGroups" "length (d_completed d) \<le> maxCompletedGroups"
  using assms by (auto simp: dec_ok_def groups_ok_def)

lemma NewDecoder_ok: "dec_ok NewDecoder"
  by (simp add: dec_ok_def groups_ok_def timers_ok_def NewDecoder_def rgroup.heap.invar_empty rgroup.heap.elems_empty)

lemma groups_okD:
  assumes "groups_ok d" "map_of (d_groups d) gid = Some g"
  shows "(gid, g) \<in> set (d_groups d)" "rg_groupID g = gid" "rgroup_ok g"
    "(rg_created g, gid) \<in> pq_elems (d_groupExpiry d)"
proof -
  show i: "(gid, g) \<in> set (d_groups d)" using assms(2) by (rule map_of_SomeD)
  show "rg_groupID g = gid" "rgroup_ok g" "(rg_created g, gid) \<in> pq_elems (d_groupExpiry d)"
    using assms(1) i by (force simp: groups_ok_def expiry_entry_def)+
qed

lemma gomap_delete_image:
  assumes "gomap_ok m" "(k, v) \<in> set m"
  shows "set (AList.delete k m) = set m - {(k, v)}"
  using assms by (auto simp: gomap_lookup_delete map_of_in_set split: if_splits)

lemma removeGroup_ok:
  assumes d: "groups_ok d" and g: "map_of (d_groups d) gid = Some g"
  shows "groups_ok (removeGroup g d)"
proof -
  note i = groups_okD [OF d g]
  have "expiry_entry ` (set (d_groups d) - {(gid, g)}) = expiry_entry ` set (d_groups d) - {(rg_created g, gid)}"
  proof (intro equalityI subsetI)
    fix x assume "x \<in> expiry_entry ` (set (d_groups d) - {(gid, g)})"
    then obtain e where e: "e \<in> set (d_groups d)" "e \<noteq> (gid, g)" "x = expiry_entry e" by blast
    obtain k h where "e = (k, h)" by (cases e)
    with e have h: "(k, h) \<in> set (d_groups d)" "(k, h) \<noteq> (gid, g)" "x = (rg_created h, k)"
      by (simp_all add: expiry_entry_def)
    with d i(1) have "k \<noteq> gid" by (auto simp: groups_ok_def map_of_in_set)
    with h show "x \<in> expiry_entry ` set (d_groups d) - {(rg_created g, gid)}" by (force simp: expiry_entry_def)
  next
    fix x assume "x \<in> expiry_entry ` set (d_groups d) - {(rg_created g, gid)}"
    then obtain e where e: "e \<in> set (d_groups d)" "x = expiry_entry e" "x \<noteq> (rg_created g, gid)" by blast
    then have "e \<noteq> (gid, g)" by (auto simp: expiry_entry_def)
    with e show "x \<in> expiry_entry ` (set (d_groups d) - {(gid, g)})" by blast
  qed
  moreover have sd: "set (AList.delete gid (d_groups d)) = set (d_groups d) - {(gid, g)}"
    using gomap_delete_image [OF _ i(1)] d unfolding groups_ok_def by blast
  moreover have q: "pq_invar receive_less (d_groupExpiry d)" "pq_elems (d_groupExpiry d) = expiry_entry ` set (d_groups d)"
    using d unfolding groups_ok_def by blast+
  note q rgroup.heap.invar_remove [OF q(1) i(4)] rgroup.heap.elems_remove [OF q(1) i(4)]
  moreover have "gomap_ok (AList.delete gid (d_groups d))" using d by (simp add: groups_ok_def)
  moreover have "\<forall>e \<in> set (AList.delete gid (d_groups d)). rg_groupID (snd e) = fst e \<and> rgroup_ok (snd e)"
    using d unfolding groups_ok_def sd by blast
  ultimately show ?thesis
    unfolding groups_ok_def removeGroup_def i(2) by simp
qed

lemma removeGroup_fields [simp]:
  "d_groups (removeGroup g d) = AList.delete (rg_groupID g) (d_groups d)"
  "d_completed (removeGroup g d) = d_completed d" "d_codecs (removeGroup g d) = d_codecs d"
  "d_lastGroupID (removeGroup g d) = d_lastGroupID d" "d_nextExpiry (removeGroup g d) = d_nextExpiry d"
  by (simp_all add: removeGroup_def)

lemma scheduleExpiry_fields [simp]:
  "d_groups (scheduleExpiry u d) = d_groups d" "d_groupExpiry (scheduleExpiry u d) = d_groupExpiry d"
  "d_completed (scheduleExpiry u d) = d_completed d" "d_codecs (scheduleExpiry u d) = d_codecs d"
  "d_lastGroupID (scheduleExpiry u d) = d_lastGroupID d"
  by (simp_all add: scheduleExpiry_def split: option.splits)

lemma groups_ok_schedule [simp]: "groups_ok (scheduleExpiry u d) = groups_ok d"
  by (simp add: groups_ok_def)

lemma scan_by_schedule: "scan_by v (scheduleExpiry u d) \<longleftrightarrow> u \<le> v \<or> scan_by v d"
  by (auto simp: scan_by_def scheduleExpiry_def split: option.splits)

lemma scan_by_cong: "d_nextExpiry d' = d_nextExpiry d \<Longrightarrow> scan_by v d' = scan_by v d"
  by (simp add: scan_by_def)

section \<open>The lazy scan expires exactly what a full scan would\<close>

definition group_stale :: "instant \<Rightarrow> receiveGroup \<Rightarrow> bool" where
  "group_stale now g \<longleftrightarrow> now - rg_created g > groupTTL"

definition done_stale :: "instant \<Rightarrow> completedGroup \<Rightarrow> bool" where
  "done_stale now c \<longleftrightarrow> now - dg_finalized c > completionGrace"

definition group_reports :: "instant \<Rightarrow> (u64 \<times> receiveGroup) list \<Rightarrow> Feedback list" where
  "group_reports now es = map (stalled_feedback \<circ> snd) (filter (\<lambda>e. group_stale now (snd e) \<and> rg_k (snd e) > 0) es)"

definition done_reports :: "instant \<Rightarrow> (u64 \<times> completedGroup) list \<Rightarrow> Feedback list" where
  "done_reports now es =
     map (\<lambda>e. done_feedback (fst e) (snd e))
       (filter (\<lambda>e. done_stale now (snd e) \<and> now - dg_finalized (snd e) \<le> groupTTL) es)"

lemma expire_group_step:
  "expire_group now (d, fbs) (gid, g) =
     (if group_stale now g then (removeGroup g d, if rg_k g > 0 then fbs @ [stalled_feedback g] else fbs)
      else (scheduleExpiry (rg_created g + groupTTL) d, fbs))"
  by (simp add: expire_group_def group_stale_def)

lemma expire_completed_step:
  "expire_completed now (d, fbs) (gid, c) =
     (if done_stale now c
      then (d\<lparr>d_completed := AList.delete gid (d_completed d)\<rparr>,
            if now - dg_finalized c \<le> groupTTL then fbs @ [done_feedback gid c] else fbs)
      else (scheduleExpiry (dg_finalized c + completionGrace) d, fbs))"
  by (simp add: expire_completed_def done_stale_def dec_consts)

lemma expire_groups_scan:
  assumes "foldl (expire_group now) (d, fbs) es = (d', fbs')"
    and "groups_ok d" "set es \<subseteq> set (d_groups d)" "distinct (keys es)"
  shows "groups_ok d' \<and> d_groups d' = filter (\<lambda>e. \<not> (e \<in> set es \<and> group_stale now (snd e))) (d_groups d)
     \<and> d_completed d' = d_completed d \<and> d_codecs d' = d_codecs d \<and> d_lastGroupID d' = d_lastGroupID d
     \<and> fbs' = fbs @ group_reports now es
     \<and> (\<forall>v. scan_by v d' \<longleftrightarrow> scan_by v d \<or> (\<exists>e \<in> set es. \<not> group_stale now (snd e) \<and> rg_created (snd e) + groupTTL \<le> v))"
  using assms
proof (induction es arbitrary: d fbs)
  case Nil
  then show ?case by (simp add: group_reports_def)
next
  case (Cons e es)
  obtain gid g where e: "e = (gid, g)" by force
  have m: "map_of (d_groups d) gid = Some g" using Cons.prems(2,3) e by (simp add: groups_ok_def map_of_in_set)
  note i = groups_okD [OF Cons.prems(2) m]
  have uniq: "x \<in> set (d_groups d) \<Longrightarrow> fst x = gid \<longleftrightarrow> x = e" for x
    using Cons.prems(2) m e by (cases x) (auto simp: groups_ok_def map_of_in_set)
  have ne: "e \<notin> set es" using Cons.prems(4) e by force
  show ?case
  proof (cases "group_stale now g")
    case True
    have del: "AList.delete gid (d_groups d) = filter (\<lambda>x. x \<noteq> e) (d_groups d)"
      unfolding AList.delete_eq
    proof (rule filter_cong [OF refl])
      fix x assume "x \<in> set (d_groups d)"
      from uniq [OF this] show "(case x of (k', u) \<Rightarrow> gid \<noteq> k') = (x \<noteq> e)" by (simp add: case_prod_unfold eq_commute [of gid])
    qed
    have s: "set es \<subseteq> set (d_groups (removeGroup g d))" using Cons.prems(3) ne del i(2) by auto
    have "foldl (expire_group now) (removeGroup g d, if rg_k g > 0 then fbs @ [stalled_feedback g] else fbs) es = (d', fbs')"
      using Cons.prems(1) True by (simp add: expire_group_step e)
    note ih = Cons.IH [OF this removeGroup_ok [OF Cons.prems(2) m] s distinct_tl [OF Cons.prems(4) [unfolded list.map], simplified]]
    have sc: "scan_by v (removeGroup g d) = scan_by v d" for v by (simp add: scan_by_def)
    have f: "filter (\<lambda>x. x \<noteq> e \<and> \<not> (x \<in> set es \<and> group_stale now (snd x))) (d_groups d)
        = filter (\<lambda>x. \<not> (x \<in> set (e # es) \<and> group_stale now (snd x))) (d_groups d)"
      by (rule filter_cong) (use True e in auto)
    from ih show ?thesis
      unfolding sc removeGroup_fields i(2) del filter_filter f using True by (simp add: e group_reports_def)
  next
    case False
    have "foldl (expire_group now) (scheduleExpiry (rg_created g + groupTTL) d, fbs) es = (d', fbs')"
      using Cons.prems(1) False by (simp add: expire_group_step e)
    note ih = Cons.IH [OF this]
    have f: "filter (\<lambda>x. \<not> (x \<in> set es \<and> group_stale now (snd x))) (d_groups d)
        = filter (\<lambda>x. \<not> (x \<in> set (e # es) \<and> group_stale now (snd x))) (d_groups d)"
      by (rule filter_cong) (use False e in auto)
    have s: "set es \<subseteq> set (d_groups d)" "distinct (keys es)" using Cons.prems(3,4) by simp_all
    from ih Cons.prems(2) s show ?thesis
      unfolding groups_ok_schedule scheduleExpiry_fields f scan_by_schedule using False by (auto simp: e group_reports_def)
  qed
qed

lemma expire_completed_scan:
  assumes "foldl (expire_completed now) (d, fbs) es = (d', fbs')"
    and "gomap_ok (d_completed d)" "set es \<subseteq> set (d_completed d)" "distinct (keys es)"
  shows "d_completed d' = filter (\<lambda>e. \<not> (e \<in> set es \<and> done_stale now (snd e))) (d_completed d)
     \<and> d_groups d' = d_groups d \<and> d_groupExpiry d' = d_groupExpiry d \<and> d_codecs d' = d_codecs d
     \<and> d_lastGroupID d' = d_lastGroupID d \<and> fbs' = fbs @ done_reports now es
     \<and> (\<forall>v. scan_by v d' \<longleftrightarrow> scan_by v d \<or> (\<exists>e \<in> set es. \<not> done_stale now (snd e) \<and> dg_finalized (snd e) + completionGrace \<le> v))"
  using assms
proof (induction es arbitrary: d fbs)
  case Nil
  then show ?case by (simp add: done_reports_def)
next
  case (Cons e es)
  obtain gid c where e: "e = (gid, c)" by force
  have uniq: "x \<in> set (d_completed d) \<Longrightarrow> fst x = gid \<longleftrightarrow> x = e" for x
    using Cons.prems(2,3) e by (cases x) (auto simp: map_of_in_set)
  have ne: "e \<notin> set es" using Cons.prems(4) e by force
  have s: "set es \<subseteq> set (d_completed d)" "distinct (keys es)" using Cons.prems(3,4) by simp_all
  show ?case
  proof (cases "done_stale now c")
    case True
    define d2 where "d2 = d\<lparr>d_completed := AList.delete gid (d_completed d)\<rparr>"
    have d2: "d_completed d2 = AList.delete gid (d_completed d)" "d_groups d2 = d_groups d" "d_groupExpiry d2 = d_groupExpiry d"
      "d_codecs d2 = d_codecs d" "d_lastGroupID d2 = d_lastGroupID d"
      by (simp_all add: d2_def)
    have del: "AList.delete gid (d_completed d) = filter (\<lambda>x. x \<noteq> e) (d_completed d)"
      unfolding AList.delete_eq
    proof (rule filter_cong [OF refl])
      fix x assume "x \<in> set (d_completed d)"
      from uniq [OF this] show "(case x of (k', u) \<Rightarrow> gid \<noteq> k') = (x \<noteq> e)" by (simp add: case_prod_unfold eq_commute [of gid])
    qed
    have s': "set es \<subseteq> set (d_completed d2)" using s(1) ne del d2(1) by auto
    have g': "gomap_ok (d_completed d2)" using Cons.prems(2) d2(1) by simp
    have "foldl (expire_completed now) (d2, if now - dg_finalized c \<le> groupTTL then fbs @ [done_feedback gid c] else fbs) es = (d', fbs')"
      using Cons.prems(1) True by (simp add: expire_completed_step e d2_def)
    note ih = Cons.IH [OF this g' s' s(2)]
    have sc: "scan_by v d2 = scan_by v d" for v by (simp add: scan_by_def d2_def)
    have f: "filter (\<lambda>x. x \<noteq> e \<and> \<not> (x \<in> set es \<and> done_stale now (snd x))) (d_completed d)
        = filter (\<lambda>x. \<not> (x \<in> set (e # es) \<and> done_stale now (snd x))) (d_completed d)"
      by (rule filter_cong) (use True e in auto)
    from ih show ?thesis
      unfolding sc d2 del filter_filter f using True by (simp add: e done_reports_def)
  next
    case False
    have "foldl (expire_completed now) (scheduleExpiry (dg_finalized c + completionGrace) d, fbs) es = (d', fbs')"
      using Cons.prems(1) False by (simp add: expire_completed_step e)
    note ih = Cons.IH [OF this]
    have f: "filter (\<lambda>x. \<not> (x \<in> set es \<and> done_stale now (snd x))) (d_completed d)
        = filter (\<lambda>x. \<not> (x \<in> set (e # es) \<and> done_stale now (snd x))) (d_completed d)"
      by (rule filter_cong) (use False e in auto)
    from ih Cons.prems(2) s show ?thesis
      unfolding scheduleExpiry_fields f scan_by_schedule using False by (auto simp: e done_reports_def)
  qed
qed

lemma filter_all: "(\<And>x. x \<in> set xs \<Longrightarrow> P x) \<Longrightarrow> filter P xs = xs"
  by (simp add: filter_id_conv)

lemma no_reports:
  "(\<And>e. e \<in> set gs \<Longrightarrow> \<not> group_stale now (snd e)) \<Longrightarrow> group_reports now gs = []"
  "(\<And>e. e \<in> set cs \<Longrightarrow> \<not> done_stale now (snd e)) \<Longrightarrow> done_reports now cs = []"
  by (auto simp: group_reports_def done_reports_def filter_empty_conv)

lemma expire_idle:
  assumes "timers_ok d" and "case d_nextExpiry d of None \<Rightarrow> True | Some t \<Rightarrow> now \<le> t"
  shows "e \<in> set (d_groups d) \<Longrightarrow> \<not> group_stale now (snd e)" "c \<in> set (d_completed d) \<Longrightarrow> \<not> done_stale now (snd c)"
  using assms unfolding timers_ok_def scan_by_def group_stale_def done_stale_def
  by (auto split: option.splits) (metis surj_pair)+

definition fresh :: "instant \<Rightarrow> Decoder \<Rightarrow> bool" where
  "fresh now d \<longleftrightarrow> (\<forall>e \<in> set (d_groups d). \<not> group_stale now (snd e)) \<and> (\<forall>e \<in> set (d_completed d). \<not> done_stale now (snd e))"

lemma expire_eager:
  assumes g: "groups_ok d" and t: "timers_ok d" and c: "gomap_ok (d_completed d)"
    and e: "expire now d = (d', fbs)"
  shows "groups_ok d'" "timers_ok d'"
    "d_groups d' = filter (\<lambda>e. \<not> group_stale now (snd e)) (d_groups d)"
    "d_completed d' = filter (\<lambda>e. \<not> done_stale now (snd e)) (d_completed d)"
    "d_codecs d' = d_codecs d" "d_lastGroupID d' = d_lastGroupID d"
    "fbs = group_reports now (d_groups d) @ done_reports now (d_completed d)"
proof -
  consider (idle) "case d_nextExpiry d of None \<Rightarrow> True | Some t \<Rightarrow> now \<le> t" | (scan) t where "d_nextExpiry d = Some t" "t < now"
    by (cases "d_nextExpiry d") force+
  then have "groups_ok d' \<and> timers_ok d' \<and> d_groups d' = filter (\<lambda>e. \<not> group_stale now (snd e)) (d_groups d)
    \<and> d_completed d' = filter (\<lambda>e. \<not> done_stale now (snd e)) (d_completed d)
    \<and> d_codecs d' = d_codecs d \<and> d_lastGroupID d' = d_lastGroupID d
    \<and> fbs = group_reports now (d_groups d) @ done_reports now (d_completed d)"
  proof cases
    case idle
    then have "d' = d" "fbs = []" using e by (auto simp: expire_def split: option.splits)
    with g t expire_idle [OF t idle] show ?thesis by (simp add: filter_all no_reports)
  next
    case scan
    let ?d = "d\<lparr>d_nextExpiry := None\<rparr>"
    obtain d1 fb1 where 1: "foldl (expire_group now) (?d, []) (d_groups d) = (d1, fb1)" by force
    with e scan have 2: "foldl (expire_completed now) (d1, fb1) (d_completed d) = (d', fbs)"
      by (simp add: expire_def Let_def)
    have g0: "groups_ok ?d" "distinct (keys (d_groups d))" "distinct (keys (d_completed d))"
      using g c by (simp_all add: groups_ok_def gomap_ok_def)
    note a = expire_groups_scan [OF 1 g0(1) _ g0(2), simplified]
    have fg: "filter (\<lambda>e. e \<in> set xs \<longrightarrow> \<not> P e) xs = filter (\<lambda>e. \<not> P e) xs" for P and xs :: "'z list"
      by (rule filter_cong) auto
    have c1: "d_completed d1 = d_completed d" using a by blast
    have "gomap_ok (d_completed d1)" "set (d_completed d) \<subseteq> set (d_completed d1)" using c c1 by simp_all
    note b = expire_completed_scan [OF 2 this g0(3), unfolded c1, simplified]
    have "groups_ok d1" "d_groups d' = d_groups d1" "d_groupExpiry d' = d_groupExpiry d1" using a b by blast+
    then have "groups_ok d'" by (simp add: groups_ok_def)
    moreover have "timers_ok d'"
      unfolding timers_ok_def
    proof (intro conjI ballI)
      fix e assume "e \<in> set (d_groups d')"
      then have "e \<in> set (d_groups d)" "\<not> group_stale now (snd e)" using a b by auto
      with b show "scan_by (rg_created (snd e) + groupTTL) d'" using a by blast
    next
      fix e assume "e \<in> set (d_completed d')"
      then have "e \<in> set (d_completed d)" "\<not> done_stale now (snd e)" using b by auto
      with b show "scan_by (dg_finalized (snd e) + completionGrace) d'" by blast
    qed
    ultimately show ?thesis using a b by (simp add: fg)
  qed
  then show "groups_ok d'" "timers_ok d'"
    "d_groups d' = filter (\<lambda>e. \<not> group_stale now (snd e)) (d_groups d)"
    "d_completed d' = filter (\<lambda>e. \<not> done_stale now (snd e)) (d_completed d)"
    "d_codecs d' = d_codecs d" "d_lastGroupID d' = d_lastGroupID d"
    "fbs = group_reports now (d_groups d) @ done_reports now (d_completed d)" by blast+
qed

section \<open>Groups overtaken by newer ones\<close>

lemma removeGroup_length:
  assumes "groups_ok d" "map_of (d_groups d) gid = Some g"
  shows "Suc (length (d_groups (removeGroup g d))) = length (d_groups d)"
  using length_delete_in [of "d_groups d" gid g] groups_okD(2) [OF assms] assms by (simp add: groups_ok_def)

lemma removeGroup_keeps:
  assumes "groups_ok d" "map_of (d_groups d) gid = Some g" "e \<in> set (d_groups d)" "snd e \<noteq> g"
  shows "e \<in> set (d_groups (removeGroup g d))"
  using assms groups_okD(2) [OF assms(1,2)] by (cases e) (auto simp: groups_ok_def gomap_lookup_delete map_of_in_set)

lemma count_present_le: "count_present n m \<le> n"
  unfolding count_present_def by (rule order_trans [OF length_filter_le]) simp

lemma of_nat_u16: "n < 65536 \<Longrightarrow> unat (of_nat n :: u16) = n"
  by (simp add: unat_of_nat)

lemma u16_le_of_nat: "a \<le> b \<Longrightarrow> b < 65536 \<Longrightarrow> (of_nat a :: u16) \<le> of_nat b"
  by (simp add: word_le_nat_alt of_nat_u16)

lemma valid_counts:
  assumes "b \<le> a" "a \<le> n" "n \<le> MaxDataShards"
  shows "validFeedback (of_nat n) (of_nat a) (of_nat b)"
proof (cases "n = 0")
  case False
  with assms have "(of_nat n :: u16) \<noteq> 0" using of_nat_u16 [of n] by (auto simp: fec_consts)
  with assms show ?thesis by (simp add: validFeedback_def fec_consts of_nat_u16 u16_le_of_nat)
qed (use assms in \<open>simp add: validFeedback_def\<close>)

lemma stalled_feedback_valid: "rgroup_ok g \<Longrightarrow> feedback_valid (stalled_feedback g)"
  unfolding feedback_valid_def stalled_feedback_def Feedback.simps
  using valid_counts [of 0 "rg_k g - count_present (rg_k g) (rg_data g)" "rg_k g"] by (simp add: rgroup_ok_def)

lemma vanished_feedback_valid: "feedback_valid (vanished_feedback g)"
  by (simp add: feedback_valid_def validFeedback_def vanished_feedback_def)

definition overtaken :: "instant \<Rightarrow> u64 \<Rightarrow> receiveGroup \<Rightarrow> bool" where
  "overtaken now newest g \<longleftrightarrow> newest - rg_groupID g \<ge> of_nat MaxInterleave \<and> now - rg_created g > completionGrace"

definition overtaken_report :: "receiveGroup \<Rightarrow> Feedback" where
  "overtaken_report g = (if rg_k g > 0 then stalled_feedback g else vanished_feedback g)"

lemma fastExpire_spec:
  "groups_ok d \<Longrightarrow> fastExpire now d = (d', fbs) \<Longrightarrow>
     groups_ok d' \<and> set (d_groups d') \<subseteq> set (d_groups d) \<and> length (d_groups d') + length fbs = length (d_groups d)
     \<and> d_completed d' = d_completed d \<and> d_codecs d' = d_codecs d \<and> d_lastGroupID d' = d_lastGroupID d
     \<and> d_nextExpiry d' = d_nextExpiry d \<and> list_all feedback_valid fbs
     \<and> (\<forall>e \<in> set (d_groups d). \<not> overtaken now (d_lastGroupID d) (snd e) \<longrightarrow> e \<in> set (d_groups d'))
     \<and> (\<forall>e \<in> set (d_groups d). e \<in> set (d_groups d') \<or> overtaken_report (snd e) \<in> set fbs)"
proof (induction now d arbitrary: d' fbs rule: fastExpire.induct)
  case (1 now d)
  let ?gid = "snd (pq_peek (d_groupExpiry d))"
  consider (stop) "fastExpire now d = (d, [])" | (drop) g where
    "pq_items (d_groupExpiry d) \<noteq> []" "map_of (d_groups d) ?gid = Some g" "overtaken now (d_lastGroupID d) g"
  proof (cases "pq_items (d_groupExpiry d) = [] \<or> map_of (d_groups d) ?gid = None")
    case True
    then show ?thesis by (intro that(1)) (auto simp: fastExpire.simps [of now d])
  next
    case False
    then obtain g where g: "pq_items (d_groupExpiry d) \<noteq> []" "map_of (d_groups d) ?gid = Some g" by auto
    show ?thesis
    proof (cases "overtaken now (d_lastGroupID d) g")
      case True
      with g show ?thesis by (rule that(2))
    next
      case False
      with g show ?thesis by (intro that(1)) (auto simp: fastExpire.simps [of now d] overtaken_def not_less not_le)
    qed
  qed
  then show ?case
  proof cases
    case stop
    with 1(2,3) show ?thesis by simp
  next
    case (drop g)
    obtain d2 fb2 where r: "fastExpire now (removeGroup g d) = (d2, fb2)" by force
    have c: "\<not> (d_lastGroupID d - rg_groupID g < of_nat MaxInterleave \<or> now - rg_created g \<le> completionGrace)"
      using drop(3) by (simp add: overtaken_def not_less)
    note ih = 1(1) [OF drop(1,2) c refl removeGroup_ok [OF 1(2) drop(2)] r]
    have f: "d' = d2" "fbs = overtaken_report g # fb2"
      using 1(3) drop(1,2) c r by (auto simp: fastExpire.simps [of now d] overtaken_report_def)
    have v: "feedback_valid (overtaken_report g)"
      using stalled_feedback_valid [OF groups_okD(3) [OF 1(2) drop(2)]] vanished_feedback_valid by (simp add: overtaken_report_def)
    have o: "e \<in> set (d_groups (removeGroup g d)) \<or> snd e = g" if "e \<in> set (d_groups d)" for e
      using removeGroup_keeps [OF 1(2) drop(2) that] by blast
    have k: "e \<in> set (d_groups (removeGroup g d))" if "e \<in> set (d_groups d)" "\<not> overtaken now (d_lastGroupID d) (snd e)" for e
      using removeGroup_keeps [OF 1(2) drop(2) that(1)] that(2) drop(3) by metis
    have s: "set (d_groups (removeGroup g d)) \<subseteq> set (d_groups d)"
      using 1(2) by (auto simp: groups_ok_def in_set_delete)
    show ?thesis
      using ih v k s o removeGroup_length [OF 1(2) drop(2)] unfolding f removeGroup_fields(2-) by (auto; fastforce)
  qed
qed

section \<open>Every operation keeps the invariant\<close>

lemma timers_ok_mono:
  assumes "timers_ok d" "d_nextExpiry d' = d_nextExpiry d"
    and "rg_created ` snd ` set (d_groups d') \<subseteq> rg_created ` snd ` set (d_groups d)" "set (d_completed d') \<subseteq> set (d_completed d)"
  shows "timers_ok d'"
  unfolding timers_ok_def scan_by_cong [OF assms(2)]
proof (intro conjI ballI)
  fix e assume "e \<in> set (d_groups d')"
  then obtain x where "x \<in> set (d_groups d)" "rg_created (snd e) = rg_created (snd x)" using assms(3) by blast
  with assms(1) show "scan_by (rg_created (snd e) + groupTTL) d" by (auto simp: timers_ok_def)
qed (use assms(1,4) in \<open>auto simp: timers_ok_def\<close>)

lemma advance_ok:
  assumes d: "dec_ok d" and a: "advance now gid d = (d', fbs)"
  shows "dec_ok d'" "fresh now d'" "d_completed d' = filter (\<lambda>e. \<not> done_stale now (snd e)) (d_completed d)"
    "set (d_groups d') \<subseteq> set (d_groups d)" "d_codecs d' = d_codecs d" "length (d_groups d') \<le> length (d_groups d)"
    "e \<in> set (d_groups d) \<Longrightarrow> now - rg_created (snd e) \<le> completionGrace \<Longrightarrow> e \<in> set (d_groups d')"
proof -
  obtain d1 f1 where 1: "expire now d = (d1, f1)" by force
  define d2 where "d2 = (if gid > d_lastGroupID d1 then d1\<lparr>d_lastGroupID := gid\<rparr> else d1)"
  obtain f2 where 2: "fastExpire now d2 = (d', f2)"
    using a 1 by (auto simp: advance_def d2_def Let_def split: prod.splits)
  note e1 = expire_eager [OF dec_okD(1-3) [OF d] 1]
  have s: "d_groups d2 = d_groups d1" "d_groupExpiry d2 = d_groupExpiry d1" "d_completed d2 = d_completed d1"
    "d_codecs d2 = d_codecs d1" "d_nextExpiry d2 = d_nextExpiry d1"
    by (simp_all add: d2_def)
  have g2: "groups_ok d2" using e1(1) s by (simp add: groups_ok_def)
  note f = fastExpire_spec [OF g2 2]
  have sub: "set (d_groups d') \<subseteq> set (d_groups d1)" using f unfolding s(1) by simp
  show c: "d_completed d' = filter (\<lambda>e. \<not> done_stale now (snd e)) (d_completed d)" using f s e1(4) by simp
  show "set (d_groups d') \<subseteq> set (d_groups d)" using sub e1(3) by auto
  have l1: "length (d_groups d1) \<le> length (d_groups d)" by (simp add: e1(3))
  show l: "length (d_groups d') \<le> length (d_groups d)" using f l1 unfolding s(1) by simp
  show "d_codecs d' = d_codecs d" using f s e1 by simp
  have lc: "length (d_completed d') \<le> length (d_completed d)" by (simp add: c)
  have "timers_ok d'" by (rule timers_ok_mono [OF e1(2)]) (use f s sub in auto)
  moreover have "gomap_ok (d_completed d')" unfolding c using dec_okD(3) [OF d] by simp
  ultimately show "dec_ok d'" using f s l lc e1(5) dec_okD [OF d] by (simp add: dec_ok_def)
  show "fresh now d'" unfolding fresh_def c using sub e1(3) by auto
  assume e: "e \<in> set (d_groups d)" "now - rg_created (snd e) \<le> completionGrace"
  then have "\<not> group_stale now (snd e)" "\<not> overtaken now (d_lastGroupID d2) (snd e)"
    by (auto simp: group_stale_def overtaken_def dec_consts)
  moreover have "e \<in> set (d_groups d1)" using calculation e(1) by (simp add: e1(3))
  ultimately show "e \<in> set (d_groups d')" using f unfolding s(1) by simp
qed

definition same_group :: "receiveGroup \<Rightarrow> receiveGroup \<Rightarrow> bool" where
  "same_group g g' \<longleftrightarrow> rg_groupID g' = rg_groupID g \<and> rg_created g' = rg_created g \<and> rg_epoch g' = rg_epoch g
     \<and> (rgroup_ok g \<longrightarrow> rgroup_ok g')"

lemma same_group_refl [simp]: "same_group g g"
  by (simp add: same_group_def)

lemma same_group_trans: "same_group a b \<Longrightarrow> same_group b c \<Longrightarrow> same_group a c"
  by (simp add: same_group_def)

lemma setDimensions_same: "setDimensions k r g = Inr g' \<Longrightarrow> same_group g g' \<and> rg_r g' \<le> MaxParityShards"
  by (auto simp: setDimensions_def same_group_def rgroup_ok_def split: if_splits)

lemma accept_same: "accept p g = (g', res) \<Longrightarrow> same_group g g'"
proof -
  assume a: "accept p g = (g', res)"
  have "same_group g (fst (accept_data p g))"
    by (auto simp: accept_data_def Let_def same_group_def rgroup_ok_def split: sum.splits)
  moreover have "same_group g (fst (accept_parity p g))"
  proof (cases "setDimensions (unat (p_k p)) (unat (p_r p)) g")
    case (Inr h)
    note s = setDimensions_same [OF Inr]
    show ?thesis
      using s by (auto simp: accept_parity_def Inr same_group_def rgroup_ok_def)
  qed (simp add: accept_parity_def)
  moreover have "same_group g (fst (accept_close p g))"
    by (auto simp: accept_close_def same_group_def rgroup_ok_def split: sum.splits dest: setDimensions_same)
  ultimately show ?thesis using a by (auto simp: accept_def split: Kind.splits)
qed

lemma recover_loop_same:
  "\<forall>i \<in> set is. i < MaxDataShards \<Longrightarrow> same_group g (fst (recover_loop shards is g frames))"
proof (induction "is" arbitrary: g frames)
  case (Cons i "is")
  define g1 where "g1 = g\<lparr>rg_data := AList.update i (shards ! i) (rg_data g), rg_reconstructed := rg_reconstructed g OR push_bit i 1\<rparr>"
  define g2 where "g2 = g1\<lparr>rg_delivered := rg_delivered g1 OR push_bit i 1\<rparr>"
  have s: "same_group g g1" "same_group g g2"
    using Cons.prems by (auto simp: same_group_def g1_def g2_def rgroup_ok_def)
  have "fst (recover_loop shards (i # is) g frames) \<in> {g} \<union> range (\<lambda>fs. fst (recover_loop shards is g fs))
     \<union> range (\<lambda>fs. fst (recover_loop shards is g1 fs)) \<union> range (\<lambda>fs. fst (recover_loop shards is g2 fs))"
    by (auto simp: g1_def g2_def Let_def split: sum.splits)
  with Cons.IH Cons.prems s show ?case by (auto intro: same_group_trans)
qed simp

lemma tryComplete_same:
  assumes "tryComplete lib codecs g = (codecs', g', res)" "rgroup_ok g" "codecs_ok codecs"
  shows "same_group g g' \<and> codecs_ok codecs'"
proof -
  note c = cachedCodec_ok [OF assms(3), of lib "rg_k g" "rg_r g"]
  have r: "same_group g (fst (recover_loop shards [0..<rg_k g] g []))" for shards
    by (rule recover_loop_same) (use assms(2) in \<open>auto simp: rgroup_ok_def\<close>)
  have "codecs_ok (fst (codec_ReconstructData lib (rg_k g) (rg_r g) x (fst (cachedCodec lib codecs (rg_k g) (rg_r g))) shards))"
    if "snd (cachedCodec lib codecs (rg_k g) (rg_r g)) = Some x" for x shards
    using codec_ReconstructData_ok c that by blast
  with assms c r show ?thesis
    by (auto simp: tryComplete_def Let_def case_prod_unfold split: if_splits option.splits sum.splits)
qed

lemma put_group_ok:
  assumes d: "groups_ok d" and g: "map_of (d_groups d) (rg_groupID g) = Some g" and s: "same_group g g'"
  shows "groups_ok (put_group g' d)" "map_of (d_groups (put_group g' d)) (rg_groupID g) = Some g'"
    "length (d_groups (put_group g' d)) = length (d_groups d)"
    "rg_created ` snd ` set (d_groups (put_group g' d)) \<subseteq> rg_created ` snd ` set (d_groups d)"
proof -
  note i = groups_okD [OF d g]
  have u: "e \<in> set (d_groups (put_group g' d)) \<longleftrightarrow> e = (rg_groupID g, g') \<or> e \<in> set (d_groups d) \<and> fst e \<noteq> rg_groupID g" for e
    using d s by (cases e) (auto simp: put_group_def same_group_def groups_ok_def in_set_update)
  have o: "e \<in> set (d_groups d) \<Longrightarrow> fst e = rg_groupID g \<Longrightarrow> e = (rg_groupID g, g)" for e
    using d g by (cases e) (auto simp: groups_ok_def map_of_in_set)
  have ent: "expiry_entry (rg_groupID g, g') = expiry_entry (rg_groupID g, g)" using s by (simp add: same_group_def expiry_entry_def)
  have "expiry_entry ` set (d_groups (put_group g' d)) = expiry_entry ` set (d_groups d)"
  proof (intro equalityI image_subsetI)
    fix e assume "e \<in> set (d_groups (put_group g' d))"
    then have "e = (rg_groupID g, g') \<or> e \<in> set (d_groups d)" unfolding u by blast
    then show "expiry_entry e \<in> expiry_entry ` set (d_groups d)" using ent i(1) by (metis imageI)
  next
    fix e assume e: "e \<in> set (d_groups d)"
    show "expiry_entry e \<in> expiry_entry ` set (d_groups (put_group g' d))"
    proof (cases "fst e = rg_groupID g")
      case True
      with o [OF e] ent u show ?thesis by (metis imageI)
    next
      case False
      with e u show ?thesis by blast
    qed
  qed
  moreover have "\<forall>e \<in> set (d_groups (put_group g' d)). rg_groupID (snd e) = fst e \<and> rgroup_ok (snd e)"
    using d i s u unfolding groups_ok_def same_group_def by fastforce
  moreover have "gomap_ok (d_groups (put_group g' d))" "d_groupExpiry (put_group g' d) = d_groupExpiry d"
    using d by (simp_all add: put_group_def groups_ok_def)
  ultimately show "groups_ok (put_group g' d)" using d unfolding groups_ok_def by simp
  show "map_of (d_groups (put_group g' d)) (rg_groupID g) = Some g'" "length (d_groups (put_group g' d)) = length (d_groups d)"
    using s g by (simp_all add: put_group_def same_group_def gomap_lookup_update length_update_old [OF g])
  show "rg_created ` snd ` set (d_groups (put_group g' d)) \<subseteq> rg_created ` snd ` set (d_groups d)"
    using u i(1) s by (force simp: same_group_def)
qed

lemma put_group_fields [simp]:
  "d_groupExpiry (put_group g d) = d_groupExpiry d" "d_completed (put_group g d) = d_completed d"
  "d_codecs (put_group g d) = d_codecs d" "d_lastGroupID (put_group g d) = d_lastGroupID d"
  "d_nextExpiry (put_group g d) = d_nextExpiry d"
  by (simp_all add: put_group_def)

lemma put_group_dec_ok:
  assumes "dec_ok d" "map_of (d_groups d) (rg_groupID g) = Some g" "same_group g g'"
  shows "dec_ok (put_group g' d)"
proof -
  note p = put_group_ok [OF dec_okD(1) [OF assms(1)] assms(2,3)]
  have "timers_ok (put_group g' d)" by (rule timers_ok_mono [OF dec_okD(2) [OF assms(1)] _ p(4)]) simp_all
  then show ?thesis using p dec_okD [OF assms(1)] by (simp add: dec_ok_def)
qed

text \<open>Eviction of a completed group: the oldest one goes, and only when the limit is reached.\<close>

lemma oldest_some: "oldest cs (Some b) \<noteq> None"
  by (induction cs "Some b" arbitrary: b rule: oldest.induct) (auto split: prod.splits)

lemma oldest_spec:
  "oldest cs best = Some (gid, u) \<Longrightarrow> best = Some (gid, u) \<or> (\<exists>c. (gid, c) \<in> set cs \<and> dg_finalized c = u)"
  by (induction cs best rule: oldest.induct) (auto split: option.splits if_splits prod.splits)

lemma oldest_least:
  "oldest cs best = Some (gid, u) \<Longrightarrow> (\<forall>e \<in> set cs. u \<le> dg_finalized (snd e)) \<and> (\<forall>b v. best = Some (b, v) \<longrightarrow> u \<le> v)"
  by (induction cs best rule: oldest.induct) (force split: option.splits if_splits prod.splits)+

lemma limitCompleted_fields [simp]:
  "d_groups (limitCompleted d) = d_groups d" "d_groupExpiry (limitCompleted d) = d_groupExpiry d"
  "d_codecs (limitCompleted d) = d_codecs d" "d_lastGroupID (limitCompleted d) = d_lastGroupID d"
  "d_nextExpiry (limitCompleted d) = d_nextExpiry d"
  by (auto simp: limitCompleted_def split: option.splits)

lemma limitCompleted_ok:
  assumes "gomap_ok (d_completed d)" "length (d_completed d) \<le> maxCompletedGroups"
  shows "gomap_ok (d_completed (limitCompleted d))" "length (d_completed (limitCompleted d)) < maxCompletedGroups"
    "set (d_completed (limitCompleted d)) \<subseteq> set (d_completed d)"
    "length (d_completed d) < maxCompletedGroups \<Longrightarrow> limitCompleted d = d"
proof -
  show "limitCompleted d = d" if "length (d_completed d) < maxCompletedGroups" using that by (simp add: limitCompleted_def)
  have "gomap_ok (d_completed (limitCompleted d)) \<and> length (d_completed (limitCompleted d)) < maxCompletedGroups
     \<and> set (d_completed (limitCompleted d)) \<subseteq> set (d_completed d)"
  proof (cases "length (d_completed d) < maxCompletedGroups")
    case False
    then have "d_completed d \<noteq> []" by (auto simp: dec_consts)
    then obtain e cs where "d_completed d = e # cs" by (cases "d_completed d") auto
    then obtain gid u where o: "oldest (d_completed d) None = Some (gid, u)"
      using oldest_some [of cs "(fst e, dg_finalized (snd e))"] by (cases e) auto
    then obtain c where "(gid, c) \<in> set (d_completed d)" using oldest_spec by blast
    then have "map_of (d_completed d) gid = Some c" using assms(1) by (simp add: map_of_in_set)
    note l = length_delete_in [OF assms(1) this]
    have "set (AList.delete gid (d_completed d)) \<subseteq> set (d_completed d)" using assms(1) by (auto simp: in_set_delete)
    then show ?thesis using False o l assms by (simp add: limitCompleted_def)
  qed (use assms in \<open>simp add: limitCompleted_def\<close>)
  then show "gomap_ok (d_completed (limitCompleted d))" "length (d_completed (limitCompleted d)) < maxCompletedGroups"
    "set (d_completed (limitCompleted d)) \<subseteq> set (d_completed d)" by blast+
qed

lemma entry_of_delete: "e \<in> set (AList.delete k m) \<Longrightarrow> e \<in> set m"
  by (simp add: AList.delete_eq)

lemma entry_of_update: "gomap_ok m \<Longrightarrow> e \<in> set (AList.update k v m) \<Longrightarrow> e = (k, v) \<or> e \<in> set m \<and> fst e \<noteq> k"
  by (induction e) (auto simp: map_of_in_set gomap_lookup_update split: if_splits)

lemma length_update_le: "length (AList.update k v m) \<le> Suc (length m)"
  by (cases "map_of m k") (simp_all add: length_update_new length_update_old)

lemma finalize_ok:
  assumes d: "dec_ok d" and g: "map_of (d_groups d) (rg_groupID g) = Some g"
  shows "dec_ok (finalize now g fb d)"
proof -
  define d1 where "d1 = removeGroup g d"
  define d2 where "d2 = limitCompleted d1"
  define c where "c = \<lparr>dg_finalized = now, dg_epoch = rg_epoch g, dg_k = rg_k g, dg_delivered = rg_delivered g,
               dg_reconstructed = rg_reconstructed g, dg_missing = fb_missing fb, dg_recovered = fb_recovered fb\<rparr>"
  define d3 where "d3 = d2\<lparr>d_completed := AList.update (rg_groupID g) c (d_completed d2)\<rparr>"
  have f: "finalize now g fb d = scheduleExpiry (now + completionGrace) d3"
    by (simp add: finalize_def d1_def d2_def d3_def c_def Let_def)
  note dd = dec_okD [OF d]
  note g1 = removeGroup_ok [OF dd(1) g]
  have l2: "gomap_ok (d_completed d2)" "length (d_completed d2) < maxCompletedGroups" "set (d_completed d2) \<subseteq> set (d_completed d)"
    unfolding d2_def using limitCompleted_ok [of d1] dd(3,7) by (simp_all add: d1_def)
  have s: "d_groups d3 = AList.delete (rg_groupID g) (d_groups d)" "d_groupExpiry d3 = d_groupExpiry d1" "d_codecs d3 = d_codecs d"
    "d_nextExpiry d3 = d_nextExpiry d" "d_completed d3 = AList.update (rg_groupID g) c (d_completed d2)"
    by (simp_all add: d3_def d2_def d1_def)
  have "groups_ok d3" using g1 s(1,2) by (simp add: groups_ok_def d1_def)
  moreover have "timers_ok (finalize now g fb d)"
    unfolding timers_ok_def f scheduleExpiry_fields scan_by_schedule scan_by_cong [OF s(4)]
  proof (intro conjI ballI)
    fix e assume "e \<in> set (d_groups d3)"
    then have "e \<in> set (d_groups d)" unfolding s(1) by (rule entry_of_delete)
    with dd(2) show "now + completionGrace \<le> rg_created (snd e) + groupTTL \<or> scan_by (rg_created (snd e) + groupTTL) d"
      by (simp add: timers_ok_def)
  next
    fix e assume "e \<in> set (d_completed d3)"
    then have "snd e = c \<or> e \<in> set (d_completed d)"
      using entry_of_update [OF l2(1)] l2(3) unfolding s(5) by fastforce
    with dd(2) show "now + completionGrace \<le> dg_finalized (snd e) + completionGrace \<or> scan_by (dg_finalized (snd e) + completionGrace) d"
      by (auto simp: timers_ok_def c_def)
  qed
  moreover have "length (d_groups d3) \<le> maxReceiveGroups" using dd(6) s(1) length_delete_le [of "rg_groupID g" "d_groups d"] by simp
  moreover have "length (d_completed d3) \<le> maxCompletedGroups" using length_update_le [of "rg_groupID g" c "d_completed d2"] l2(2) s(5) by simp
  ultimately show ?thesis using l2(1) dd(4) s by (simp add: f dec_ok_def)
qed

lemma open_group_ok:
  assumes d: "dec_ok d" and n: "map_of (d_groups d) (p_groupID p) = None" "length (d_groups d) < maxReceiveGroups"
  shows "dec_ok (open_group now p d)" "map_of (d_groups (open_group now p d)) (p_groupID p) = Some (fresh_group now p)"
proof -
  define d1 where "d1 = d\<lparr>d_groups := AList.update (p_groupID p) (fresh_group now p) (d_groups d),
          d_groupExpiry := pq_push receive_less (now, p_groupID p) (d_groupExpiry d)\<rparr>"
  have o: "open_group now p d = scheduleExpiry (now + groupTTL) d1" by (simp add: open_group_def d1_def)
  note dd = dec_okD [OF d]
  have q: "pq_invar receive_less (d_groupExpiry d)" "pq_elems (d_groupExpiry d) = expiry_entry ` set (d_groups d)"
    using dd(1) unfolding groups_ok_def by blast+
  have "(now, p_groupID p) \<notin> pq_elems (d_groupExpiry d)"
    using n(1) dd(5) unfolding q(2) expiry_entry_def by (auto simp: map_of_in_set)
  note q1 = rgroup.heap.invar_push [OF q(1) this] rgroup.heap.elems_push [OF q(1) this]
  have u: "e \<in> set (d_groups d1) \<longleftrightarrow> e = (p_groupID p, fresh_group now p) \<or> e \<in> set (d_groups d)" for e
    using n(1) dd(5) by (cases e) (auto simp: d1_def gomap_lookup_update map_of_in_set split: if_splits)
  have su: "set (d_groups d1) = insert (p_groupID p, fresh_group now p) (set (d_groups d))" using u by blast
  have "expiry_entry ` set (d_groups d1) = insert (now, p_groupID p) (expiry_entry ` set (d_groups d))"
    unfolding su by (simp add: expiry_entry_def fresh_group_def)
  moreover have "\<forall>e \<in> set (d_groups d1). rg_groupID (snd e) = fst e \<and> rgroup_ok (snd e)"
    using dd(1) unfolding su groups_ok_def by (simp add: fresh_group_def rgroup_ok_def)
  ultimately have "groups_ok d1" using q1 q(2) dd(5) by (simp add: groups_ok_def d1_def)
  moreover have "timers_ok (open_group now p d)"
  proof -
    have "d_nextExpiry d1 = d_nextExpiry d" "d_completed d1 = d_completed d" by (simp_all add: d1_def)
    then show ?thesis
      using dd(2) unfolding timers_ok_def o scheduleExpiry_fields scan_by_schedule scan_by_cong [OF \<open>d_nextExpiry d1 = _\<close>] su
      by (auto simp: fresh_group_def)
  qed
  moreover have "length (d_groups d1) \<le> maxReceiveGroups" using n by (simp add: d1_def length_update_new)
  ultimately show "dec_ok (open_group now p d)" using dd by (simp add: o dec_ok_def) (simp add: d1_def)
  show "map_of (d_groups (open_group now p d)) (p_groupID p) = Some (fresh_group now p)"
    by (simp add: o d1_def gomap_lookup_update)
qed

lemma handle_group_ok:
  assumes d: "dec_ok d" and g: "map_of (d_groups d) (rg_groupID g) = Some g"
  shows "dec_ok (fst (handle_group lib now p g d))"
proof (cases "rg_epoch g = p_epoch p")
  case True
  obtain g1 res1 where a: "accept p g = (g1, res1)" by force
  note s1 = accept_same [OF a]
  note ok = groups_okD(3) [OF dec_okD(1) [OF d] g]
  show ?thesis
  proof (cases res1)
    case (Inl e)
    with True a put_group_dec_ok [OF d g s1] show ?thesis by (simp add: handle_group_def)
  next
    case (Inr frames)
    obtain codecs g2 res2 where t: "tryComplete lib (d_codecs d) g1 = (codecs, g2, res2)" by (metis prod_cases3)
    have "rgroup_ok g1" using s1 ok by (simp add: same_group_def)
    note s2 = tryComplete_same [OF t this dec_okD(4) [OF d]]
    have s: "same_group g g2" using s1 s2 same_group_trans by blast
    define d2 where "d2 = put_group g2 d\<lparr>d_codecs := codecs\<rparr>"
    have "dec_ok (put_group g2 d)" by (rule put_group_dec_ok [OF d g s])
    then have d2: "dec_ok d2"
      using s2 by (simp add: d2_def dec_ok_def groups_ok_def timers_ok_def scan_by_def)
    have "map_of (d_groups d2) (rg_groupID g2) = Some g2"
      using put_group_ok(2) [OF dec_okD(1) [OF d] g s] s by (simp add: d2_def same_group_def)
    note f = finalize_ok [OF d2 this]
    show ?thesis
      using True a Inr t d2 f by (auto simp: handle_group_def d2_def [symmetric] Let_def split: sum.splits prod.splits option.splits)
  qed
qed (simp add: handle_group_def d)

lemma dispatch_ok:
  assumes d: "dec_ok d"
  shows "dec_ok (fst (dispatch lib now p d))"
proof (cases "map_of (d_completed d) (p_groupID p)")
  case (Some c)
  note dd = dec_okD [OF d]
  define c' where "c' = fst (handleLateShard c p)"
  have f: "dg_finalized c' = dg_finalized c"
    by (simp add: c'_def handleLateShard_def Let_def split: sum.splits)
  define d' where "d' = d\<lparr>d_completed := AList.update (p_groupID p) c' (d_completed d)\<rparr>"
  have "timers_ok d'"
    unfolding timers_ok_def
  proof (intro conjI ballI)
    fix e assume "e \<in> set (d_completed d')"
    then have "e = (p_groupID p, c') \<or> e \<in> set (d_completed d)"
      using entry_of_update [OF dd(3), of e "p_groupID p" c'] by (auto simp: d'_def)
    moreover have "(p_groupID p, c) \<in> set (d_completed d)" using Some by (rule map_of_SomeD)
    ultimately have "scan_by (dg_finalized (snd e) + completionGrace) d"
      using dd(2) f unfolding timers_ok_def by (metis snd_conv)
    then show "scan_by (dg_finalized (snd e) + completionGrace) d'" by (simp add: scan_by_def d'_def)
  qed (use dd(2) in \<open>auto simp: timers_ok_def scan_by_def d'_def\<close>)
  then have "dec_ok d'" using d Some by (simp add: dec_ok_def groups_ok_def d'_def length_update_old)
  with Some d show ?thesis by (simp add: dispatch_def d'_def c'_def case_prod_unfold Let_def)
next
  case None
  note g = handle_group_ok [OF d]
  show ?thesis
  proof (cases "map_of (d_groups d) (p_groupID p)")
    case (Some h)
    with g [of h] groups_okD(2) [OF dec_okD(1) [OF d] Some] None show ?thesis by (simp add: dispatch_def)
  next
    case n: None
    have i: "rg_groupID (fresh_group now p) = p_groupID p" by (simp add: fresh_group_def)
    show ?thesis
    proof (cases "length (d_groups d) < maxReceiveGroups")
      case True
      note o = open_group_ok [OF d n True, of now]
      have "dec_ok (fst (handle_group lib now p (fresh_group now p) (open_group now p d)))"
        by (rule handle_group_ok [OF o(1)]) (simp add: i o(2))
      with None n True show ?thesis by (simp add: dispatch_def)
    qed (use None n d in \<open>simp add: dispatch_def\<close>)
  qed
qed

lemma Handle_ok: "dec_ok d \<Longrightarrow> dec_ok (fst (Handle lib now data d))"
proof -
  assume d: "dec_ok d"
  have "dec_ok (fst (dispatch lib now p (fst (advance now gid d))))" for p gid
    by (rule dispatch_ok [OF advance_ok(1) [OF d surjective_pairing]])
  with d show ?thesis by (simp add: Handle_def case_prod_unfold Let_def split: parsed.splits)
qed

lemma Expire_ok:
  assumes d: "dec_ok d" and a: "Decoder_Expire now d = (d', fbs)"
  shows "dec_ok d'" "fresh now d'"
proof -
  obtain d1 f1 f2 where 1: "fastExpire now d = (d1, f1)" "expire now d1 = (d', f2)"
    using a by (auto simp: Decoder_Expire_def split: prod.splits)
  note dd = dec_okD [OF d]
  note f = fastExpire_spec [OF dd(1) 1(1)]
  have t1: "timers_ok d1" by (rule timers_ok_mono [OF dd(2)]) (use f in auto)
  have g1: "groups_ok d1" "gomap_ok (d_completed d1)" using f dd(3) by simp_all
  note e = expire_eager [OF g1(1) t1 g1(2) 1(2)]
  have "length (d_groups d') \<le> length (d_groups d1)" "length (d_completed d') \<le> length (d_completed d1)" by (simp_all add: e)
  moreover have "gomap_ok (d_completed d')" using g1(2) by (simp add: e(4))
  ultimately show "dec_ok d'" using e(1,2,5) f dd by (simp add: dec_ok_def)
  show "fresh now d'" by (simp add: fresh_def e)
qed

inductive dec_reach :: "rs_lib \<Rightarrow> Decoder \<Rightarrow> bool" for lib where
  dec_new: "dec_reach lib NewDecoder"
| dec_handle: "dec_reach lib d \<Longrightarrow> dec_reach lib (fst (Handle lib now data d))"
| dec_expire: "dec_reach lib d \<Longrightarrow> dec_reach lib (fst (Decoder_Expire now d))"

lemma dec_reach_ok: "dec_reach lib d \<Longrightarrow> dec_ok d"
  by (induction rule: dec_reach.induct) (auto simp: NewDecoder_ok Handle_ok intro: Expire_ok(1) [OF _ surjective_pairing])

section \<open>Packets of other groups\<close>

text \<open>The two maps at one identifier, and how fast they grow.\<close>

definition undisturbed :: "u64 \<Rightarrow> Decoder \<Rightarrow> Decoder \<Rightarrow> bool" where
  "undisturbed gid d d' \<longleftrightarrow> map_of (d_groups d') gid = map_of (d_groups d) gid \<and> map_of (d_completed d') gid = map_of (d_completed d) gid"

definition grows :: "Decoder \<Rightarrow> Decoder \<Rightarrow> bool" where
  "grows d d' \<longleftrightarrow> length (d_groups d') \<le> Suc (length (d_groups d)) \<and> length (d_completed d') \<le> Suc (length (d_completed d))"

lemma finalize_maps:
  "d_groups (finalize now g fb d) = AList.delete (rg_groupID g) (d_groups d)"
  "d_completed (finalize now g fb d) = AList.update (rg_groupID g)
     \<lparr>dg_finalized = now, dg_epoch = rg_epoch g, dg_k = rg_k g, dg_delivered = rg_delivered g,
      dg_reconstructed = rg_reconstructed g, dg_missing = fb_missing fb, dg_recovered = fb_recovered fb\<rparr>
     (d_completed (limitCompleted (removeGroup g d)))"
  by (simp_all add: finalize_def Let_def)

lemma limitCompleted_room: "length (d_completed d) < maxCompletedGroups \<Longrightarrow> limitCompleted d = d"
  by (simp add: limitCompleted_def)

lemma limitCompleted_length: "length (d_completed (limitCompleted d)) \<le> length (d_completed d)"
  by (auto simp: limitCompleted_def length_delete_le split: option.splits)

lemma finalize_grows:
  "length (d_groups (finalize now g fb d)) \<le> length (d_groups d)"
  "length (d_completed (finalize now g fb d)) \<le> Suc (length (d_completed d))"
  unfolding finalize_maps
   apply (rule length_delete_le)
  apply (rule order_trans [OF length_update_le])
  using limitCompleted_length [of "removeGroup g d"] by simp

text \<open>What \<open>handle_group\<close> does after the switch: the group it stores and whether it is final.\<close>

lemma handle_group_cases:
  assumes d: "dec_ok d" and g: "map_of (d_groups d) (rg_groupID g) = Some g"
  obtains "fst (handle_group lib now p g d) = d"
  | g' codecs where "same_group g g'" "fst (handle_group lib now p g d) = put_group g' d\<lparr>d_codecs := codecs\<rparr>"
  | g' codecs fb where "same_group g g'" "fst (handle_group lib now p g d) = finalize now g' fb (put_group g' d\<lparr>d_codecs := codecs\<rparr>)"
proof (cases "rg_epoch g = p_epoch p")
  case True
  obtain g1 res1 where a: "accept p g = (g1, res1)" by force
  note s1 = accept_same [OF a]
  note ok = groups_okD(3) [OF dec_okD(1) [OF d] g]
  show ?thesis
  proof (cases res1)
    case (Inl e)
    with True a s1 show ?thesis using that(2) [of g1 "d_codecs d"] by (simp add: handle_group_def put_group_def)
  next
    case (Inr frames)
    obtain codecs g2 res2 where t: "tryComplete lib (d_codecs d) g1 = (codecs, g2, res2)" by (metis prod_cases3)
    have "rgroup_ok g1" using s1 ok by (simp add: same_group_def)
    note s2 = tryComplete_same [OF t this dec_okD(4) [OF d]]
    have s: "same_group g g2" using s1 s2 same_group_trans by blast
    consider (stay) "fst (handle_group lib now p g d) = put_group g2 d\<lparr>d_codecs := codecs\<rparr>"
      | (final) fb where "fst (handle_group lib now p g d) = finalize now g2 fb (put_group g2 d\<lparr>d_codecs := codecs\<rparr>)"
    proof (cases "isl res2 \<or> snd (projr res2) = None")
      case stay: True
      show ?thesis
        by (rule that(1)) (use True a Inr t stay in \<open>auto simp: handle_group_def Let_def split: sum.splits prod.splits option.splits\<close>)
    next
      case False
      then obtain fs fb where "res2 = Inr (fs, Some fb)" by (cases res2) auto
      with True a Inr t show ?thesis by (intro that(2) [of fb]) (simp add: handle_group_def)
    qed
    then show ?thesis using that(2,3) s by cases blast+
  qed
qed (use that(1) in \<open>simp add: handle_group_def\<close>)

lemma handle_group_others:
  assumes d: "dec_ok d" and g: "map_of (d_groups d) (rg_groupID g) = Some g"
  shows "length (d_groups (fst (handle_group lib now p g d))) \<le> length (d_groups d)"
    "length (d_completed (fst (handle_group lib now p g d))) \<le> Suc (length (d_completed d))"
    "gid \<noteq> rg_groupID g \<Longrightarrow> length (d_completed d) < maxCompletedGroups \<Longrightarrow> undisturbed gid d (fst (handle_group lib now p g d))"
proof -
  let ?d' = "fst (handle_group lib now p g d)"
  have "length (d_groups ?d') \<le> length (d_groups d) \<and> length (d_completed ?d') \<le> Suc (length (d_completed d))
     \<and> (gid \<noteq> rg_groupID g \<longrightarrow> length (d_completed d) < maxCompletedGroups \<longrightarrow> undisturbed gid d ?d')"
  proof (rule handle_group_cases [OF d g, of lib now p])
    assume "?d' = d"
    then show ?thesis by (simp add: undisturbed_def)
  next
    fix g' codecs
    assume s: "same_group g g'" and e: "?d' = put_group g' d\<lparr>d_codecs := codecs\<rparr>"
    show ?thesis
      unfolding e using put_group_ok(3) [OF dec_okD(1) [OF d] g s] s
      by (auto simp: undisturbed_def put_group_def same_group_def gomap_lookup_update)
  next
    fix g' codecs fb
    assume s: "same_group g g'" and e: "?d' = finalize now g' fb (put_group g' d\<lparr>d_codecs := codecs\<rparr>)"
    define d2 where "d2 = put_group g' d\<lparr>d_codecs := codecs\<rparr>"
    have l: "length (d_groups d2) = length (d_groups d)" "d_completed d2 = d_completed d"
      using put_group_ok(3) [OF dec_okD(1) [OF d] g s] by (simp_all add: d2_def)
    have "undisturbed gid d (finalize now g' fb d2)" if "gid \<noteq> rg_groupID g" "length (d_completed d) < maxCompletedGroups"
      using that s l(2) unfolding undisturbed_def finalize_maps
      by (simp add: gomap_lookup_update gomap_lookup_delete limitCompleted_room same_group_def) (simp add: d2_def put_group_def gomap_lookup_update)
    with l finalize_grows [of now g' fb d2] show ?thesis unfolding e d2_def [symmetric] by simp
  qed
  then show "length (d_groups ?d') \<le> length (d_groups d)" "length (d_completed ?d') \<le> Suc (length (d_completed d))"
    "gid \<noteq> rg_groupID g \<Longrightarrow> length (d_completed d) < maxCompletedGroups \<Longrightarrow> undisturbed gid d ?d'"
    by blast+
qed

lemma open_group_maps:
  "d_groups (open_group now p d) = AList.update (p_groupID p) (fresh_group now p) (d_groups d)"
  "d_completed (open_group now p d) = d_completed d"
  by (simp_all add: open_group_def)

lemma fresh_group_id [simp]: "rg_groupID (fresh_group now p) = p_groupID p"
  by (simp add: fresh_group_def)

lemma dispatch_others:
  assumes d: "dec_ok d"
  shows "grows d (fst (dispatch lib now p d))"
    "gid \<noteq> p_groupID p \<Longrightarrow> length (d_completed d) < maxCompletedGroups \<Longrightarrow> undisturbed gid d (fst (dispatch lib now p d))"
proof -
  have "grows d (fst (dispatch lib now p d))
     \<and> (gid \<noteq> p_groupID p \<longrightarrow> length (d_completed d) < maxCompletedGroups \<longrightarrow> undisturbed gid d (fst (dispatch lib now p d)))"
  proof (cases "map_of (d_completed d) (p_groupID p)")
    case (Some c)
    then show ?thesis
      by (simp add: dispatch_def case_prod_unfold Let_def grows_def undisturbed_def length_update_old gomap_lookup_update)
  next
    case n: None
    show ?thesis
    proof (cases "map_of (d_groups d) (p_groupID p)")
      case (Some g)
      have i: "rg_groupID g = p_groupID p" by (rule groups_okD(2) [OF dec_okD(1) [OF d] Some])
      with Some have "map_of (d_groups d) (rg_groupID g) = Some g" by simp
      from handle_group_others(1,2) [OF d this, of lib now p] handle_group_others(3) [OF d this, of gid lib now p] n Some i show ?thesis by (simp add: dispatch_def grows_def)
    next
      case n2: None
      show ?thesis
      proof (cases "length (d_groups d) < maxReceiveGroups")
        case True
        note o = open_group_ok [OF d n2 True, of now]
        have g: "map_of (d_groups (open_group now p d)) (rg_groupID (fresh_group now p)) = Some (fresh_group now p)"
          using o(2) by simp
        have "undisturbed gid d (fst (handle_group lib now p (fresh_group now p) (open_group now p d)))"
          if "gid \<noteq> p_groupID p" "length (d_completed d) < maxCompletedGroups"
          using handle_group_others(3) [OF o(1) g, of gid lib now p] that
          by (simp add: open_group_maps undisturbed_def gomap_lookup_update)
        with handle_group_others(1,2) [OF o(1) g, of lib now p] n n2 True show ?thesis
          by (simp add: dispatch_def grows_def open_group_maps length_update_new [OF n2])
      qed (use n n2 in \<open>simp add: dispatch_def grows_def undisturbed_def\<close>)
    qed
  qed
  then show "grows d (fst (dispatch lib now p d))"
    "gid \<noteq> p_groupID p \<Longrightarrow> length (d_completed d) < maxCompletedGroups \<Longrightarrow> undisturbed gid d (fst (dispatch lib now p d))"
    by blast+
qed

text \<open>The state of one group at a time when it cannot have expired yet.\<close>

definition current :: "instant \<Rightarrow> u64 \<Rightarrow> Decoder \<Rightarrow> bool" where
  "current now gid d \<longleftrightarrow> (\<forall>g. map_of (d_groups d) gid = Some g \<longrightarrow> now - rg_created g \<le> completionGrace)
     \<and> (\<forall>c. map_of (d_completed d) gid = Some c \<longrightarrow> now - dg_finalized c \<le> completionGrace)"

lemma map_of_subset:
  assumes "gomap_ok m" "gomap_ok m'" "set m' \<subseteq> set m" "\<And>v. map_of m k = Some v \<Longrightarrow> (k, v) \<in> set m'"
  shows "map_of m' k = map_of m k"
proof (cases "map_of m k")
  case None
  then have "k \<notin> fst ` set m" by (simp add: map_of_eq_None_iff)
  then have "k \<notin> fst ` set m'" using assms(3) by auto
  then have "map_of m' k = None" by (simp add: map_of_eq_None_iff)
  with None show ?thesis by simp
next
  case (Some v)
  then show ?thesis using assms(2,4) by (simp add: map_of_in_set)
qed

lemma advance_others:
  fixes k :: u64
  assumes d: "dec_ok d" and c: "current now gid d"
  defines "d' \<equiv> fst (advance now k d)"
  shows "undisturbed gid d d'" "length (d_groups d') \<le> length (d_groups d)" "length (d_completed d') \<le> length (d_completed d)"
proof -
  obtain fbs where "advance now k d = (d', fbs)" unfolding d'_def by (metis prod.collapse)
  note a = advance_ok [OF d this]
  show "length (d_groups d') \<le> length (d_groups d)" "length (d_completed d') \<le> length (d_completed d)"
    using a(6) by (simp_all add: a(3))
  have "map_of (d_groups d') gid = map_of (d_groups d) gid"
  proof (rule map_of_subset [OF dec_okD(5) [OF d] dec_okD(5) [OF a(1)] a(4)])
    fix v assume v: "map_of (d_groups d) gid = Some v"
    show "(gid, v) \<in> set (d_groups d')"
      by (rule a(7) [OF map_of_SomeD [OF v]]) (use c v in \<open>simp add: current_def\<close>)
  qed
  moreover have "map_of (d_completed d') gid = map_of (d_completed d) gid"
  proof (rule map_of_subset [OF dec_okD(3) [OF d] dec_okD(3) [OF a(1)]])
    fix v assume v: "map_of (d_completed d) gid = Some v"
    with c have "\<not> done_stale now v" by (simp add: current_def done_stale_def not_less)
    with map_of_SomeD [OF v] show "(gid, v) \<in> set (d_completed d')" by (simp add: a(3))
  qed (auto simp: a(3))
  ultimately show "undisturbed gid d d'" by (simp add: undisturbed_def)
qed

definition group_of :: "bytes \<Rightarrow> u64 option" where
  "group_of b = (case parsePacket b of Parsed p \<Rightarrow> if p_kind p = KindFeedback then None else Some (p_groupID p) | _ \<Rightarrow> None)"

lemma Handle_others:
  assumes d: "dec_ok d" and c: "current now gid d"
  shows "grows d (fst (Handle lib now b d))"
    "group_of b \<noteq> Some gid \<Longrightarrow> length (d_completed d) < maxCompletedGroups \<Longrightarrow> undisturbed gid d (fst (Handle lib now b d))"
proof -
  have "grows d (fst (Handle lib now b d))
     \<and> (group_of b \<noteq> Some gid \<longrightarrow> length (d_completed d) < maxCompletedGroups \<longrightarrow> undisturbed gid d (fst (Handle lib now b d)))"
  proof (cases "group_of b")
    case None
    then have "fst (Handle lib now b d) = d"
      by (auto simp: group_of_def Handle_def split: parsed.splits if_splits)
    then show ?thesis by (simp add: grows_def undisturbed_def)
  next
    case (Some k)
    then obtain p where p: "parsePacket b = Parsed p" "p_kind p \<noteq> KindFeedback" "p_groupID p = k"
      by (auto simp: group_of_def split: parsed.splits if_splits)
    define d1 where "d1 = fst (advance now k d)"
    have h: "fst (Handle lib now b d) = fst (dispatch lib now p d1)"
      using p by (simp add: Handle_def d1_def case_prod_unfold Let_def)
    note a = advance_others [OF d c, of k, folded d1_def]
    have "dec_ok d1" unfolding d1_def by (rule advance_ok(1) [OF d surjective_pairing])
    note o = dispatch_others(1) [OF this, of lib now p] dispatch_others(2) [OF this, of gid p lib now]
    have "undisturbed gid d (fst (dispatch lib now p d1))" if "k \<noteq> gid" "length (d_completed d) < maxCompletedGroups"
      using a(1,3) o(2) that p(3) by (auto simp: undisturbed_def)
    with a(2,3) o(1) Some show ?thesis by (auto simp: h grows_def)
  qed
  then show "grows d (fst (Handle lib now b d))"
    "group_of b \<noteq> Some gid \<Longrightarrow> length (d_completed d) < maxCompletedGroups \<Longrightarrow> undisturbed gid d (fst (Handle lib now b d))"
    by blast+
qed

section \<open>Properties of the decoder\<close>

text \<open>C14.  Whatever datagrams arrive and whenever, the state of a decoder stays bounded and coherent: at most 1024 groups
  and 4096 completed ones, at most 32 data and 8 parity shards in a group, and the expiry heap holds every
  group once and nothing else.\<close>

theorem decoder_bounded:
  assumes "dec_reach lib d"
  shows "length (d_groups d) \<le> 1024 \<and> length (d_completed d) \<le> 4096 \<and> distinct (keys (d_groups d)) \<and> distinct (keys (d_completed d))
     \<and> (\<forall>(gid, g) \<in> set (d_groups d). rg_groupID g = gid \<and> length (rg_data g) \<le> 32 \<and> length (rg_parity g) \<le> 8)
     \<and> distinct (pq_items (d_groupExpiry d)) \<and> set (pq_items (d_groupExpiry d)) = (\<lambda>(gid, g). (rg_created g, gid)) ` set (d_groups d)"
proof -
  note d = dec_reach_ok [OF assms]
  have g: "\<forall>e \<in> set (d_groups d). rg_groupID (snd e) = fst e \<and> rgroup_ok (snd e)" and q: "pq_invar receive_less (d_groupExpiry d)"
    "pq_elems (d_groupExpiry d) = expiry_entry ` set (d_groups d)"
    using dec_okD(1) [OF d] unfolding groups_ok_def by blast+
  have "\<forall>(gid, g) \<in> set (d_groups d). rg_groupID g = gid \<and> length (rg_data g) \<le> 32 \<and> length (rg_parity g) \<le> 8"
    using g by (force simp: rgroup_ok_def fec_consts dest: slots_ok_length)
  moreover have "distinct (pq_items (d_groupExpiry d))" using q(1) by (simp add: pq_invar_def pq_coherent_def)
  moreover have "set (pq_items (d_groupExpiry d)) = (\<lambda>(gid, g). (rg_created g, gid)) ` set (d_groups d)"
    using q(2) by (simp add: pq_elems_def expiry_entry_def case_prod_unfold)
  ultimately show ?thesis using dec_okD(3,5-7) [OF d] by (simp add: dec_consts gomap_ok_def)
qed

definition sample_close_packet :: bytes where
  "sample_close_packet = marshalPacket \<lparr>p_kind = KindClose, p_epoch = 1, p_groupID = 9, p_index = 0, p_k = 2, p_r = 1, p_payload = []\<rparr>"

definition sample_decoder :: Decoder where
  "sample_decoder = fst (Handle xor_lib 0 sample_close_packet NewDecoder)"

lemma sample_decoder_reach: "dec_reach xor_lib sample_decoder"
  unfolding sample_decoder_def by (intro dec_reach.intros)

theorem decoder_bounded_witness: "length (d_groups sample_decoder) = 1 \<and> distinct (pq_items (d_groupExpiry sample_decoder))"
proof -
  have "length (d_groups sample_decoder) = 1" by code_simp
  with decoder_bounded [OF sample_decoder_reach] show ?thesis by simp
qed

text \<open>What a scan of everything on every call would do, which the recorded next deadline saves.\<close>

definition full_scan :: "instant \<Rightarrow> Decoder \<Rightarrow> (u64 \<times> receiveGroup) list \<times> (u64 \<times> completedGroup) list \<times> Feedback list" where
  "full_scan now d =
     (filter (\<lambda>e. \<not> group_stale now (snd e)) (d_groups d), filter (\<lambda>e. \<not> done_stale now (snd e)) (d_completed d),
      group_reports now (d_groups d) @ done_reports now (d_completed d))"

text \<open>C29.  The scan for expired groups that is skipped until the recorded deadline gives at every instant, in the
  groups it leaves and in the reports it makes, exactly what a scan of all groups gives.\<close>

theorem expire_is_full_scan:
  assumes "dec_reach lib d"
  shows "(d_groups (fst (expire now d)), d_completed (fst (expire now d)), snd (expire now d)) = full_scan now d"
proof -
  note d = dec_okD [OF dec_reach_ok [OF assms]]
  show ?thesis using expire_eager [OF d(1-3) surjective_pairing, of now] by (simp add: full_scan_def)
qed

theorem expire_is_full_scan_witness: "snd (expire 3000000001 sample_decoder) = snd (snd (full_scan 3000000001 sample_decoder))
   \<and> length (snd (expire 3000000001 sample_decoder)) = 1"
proof -
  have "length (snd (snd (full_scan 3000000001 sample_decoder))) = 1" by code_simp
  moreover note expire_is_full_scan [OF sample_decoder_reach, of 3000000001]
  ultimately show ?thesis by (metis prod.sel(2))
qed



definition bad_shard_run :: "(instant \<times> bytes) list" where
  "bad_shard_run =
     [(0, marshalPacket \<lparr>p_kind = KindData, p_epoch = 1, p_groupID = 4, p_index = 0, p_k = 0, p_r = 0, p_payload = [0, 5, 1]\<rparr>),
      (1, marshalPacket \<lparr>p_kind = KindClose, p_epoch = 1, p_groupID = 4, p_index = 0, p_k = 1, p_r = 0, p_payload = []\<rparr>),
      (2, marshalPacket \<lparr>p_kind = KindData, p_epoch = 1, p_groupID = 4, p_index = 0, p_k = 0, p_r = 0, p_payload = [0, 1, 7]\<rparr>)]"


end
