(* ===== verification/Fec_Recovery.thy ===== *)
theory Fec_Recovery
  imports Fec_Decoder
begin

text \<open>
  What the decoder makes of the packets of one group: it passes every frame on exactly once, whatever the
  order, the repetitions and the other groups in between, as soon as as many shards arrived as the group
  has frames.
\<close>

section \<open>The shards of a group at the receiver\<close>

lemma bit_mark:
  fixes w :: u64
  assumes "i < 64"
  shows "w AND push_bit i 1 = 0 \<longleftrightarrow> \<not> bit w i" "bit (w OR push_bit i 1) j \<longleftrightarrow> bit w j \<or> j = i"
    "bit (w AND NOT (push_bit i 1)) j \<longleftrightarrow> bit w j \<and> j \<noteq> i"
    "w AND 2 ^ i = 0 \<longleftrightarrow> \<not> bit w i" "bit (w OR 2 ^ i) j \<longleftrightarrow> bit w j \<or> j = i"
    "bit (w AND NOT (2 ^ i)) j \<longleftrightarrow> bit w j \<and> j \<noteq> i"
  using assms
  by (auto simp: and_exp_eq_0_iff_not_bit bit_or_iff bit_and_iff bit_not_iff bit_exp_iff dest: bit_imp_le_length)

text \<open>The dimensions of a group with its parameters: epoch, parity level and frames.\<close>

abbreviation dim_k :: "group_info \<Rightarrow> nat" where
  "dim_k i \<equiv> length (snd (snd i))"

definition dim_r :: "group_info \<Rightarrow> nat" where
  "dim_r i = repair_count (fst (snd i)) (dim_k i)"

definition frame_at :: "group_info \<Rightarrow> nat \<Rightarrow> bytes" where
  "frame_at i j = snd (snd i) ! j"

definition parity_shard :: "rs_lib \<Rightarrow> group_info \<Rightarrow> nat \<Rightarrow> bytes" where
  "parity_shard lib i j = group_parity lib (dim_r i) (snd (snd i)) ! j"

definition data_pkt :: "u64 \<Rightarrow> group_info \<Rightarrow> nat \<Rightarrow> packet" where
  "data_pkt gid i j = data_packet (info_group gid i) j (data_shard (frame_at i j))"

definition parity_pkt :: "rs_lib \<Rightarrow> u64 \<Rightarrow> group_info \<Rightarrow> nat \<Rightarrow> packet" where
  "parity_pkt lib gid i j = parity_packet (info_group gid i) (dim_k i) (int (dim_r i)) (j, parity_shard lib i j)"

definition close_pkt :: "u64 \<Rightarrow> group_info \<Rightarrow> packet" where
  "close_pkt gid i = close_packet (info_group gid i) (dim_k i) (int (dim_r i))"

definition group_fine :: "rs_lib \<Rightarrow> nat \<Rightarrow> group_info \<Rightarrow> bool" where
  "group_fine lib m i \<longleftrightarrow> rs_good lib m \<and> info_ok m i"

lemma group_fineD:
  assumes "group_fine lib m i"
  shows "0 < dim_k i" "dim_k i \<le> 32" "0 < dim_r i" "dim_r i \<le> 8" "j < dim_k i \<Longrightarrow> frame_ok (frame_at i j)"
    "length (group_parity lib (dim_r i) (snd (snd i))) = dim_r i"
proof -
  have i: "info_ok m i" "rs_good lib m" using assms by (simp_all add: group_fine_def)
  then show k: "0 < dim_k i" "dim_k i \<le> 32" by (simp_all add: info_ok_def fec_consts)
  have p: "1 \<le> fst (snd i)" using i by (simp add: info_ok_def)
  have k1: "1 \<le> dim_k i" using k(1) by linarith
  note r = repair_dims [OF p k1]
  show "0 < dim_r i" "dim_r i \<le> 8" using r by (simp_all add: dim_r_def)
  show "j < dim_k i \<Longrightarrow> frame_ok (frame_at i j)" using i by (simp add: info_ok_def frame_at_def)
  show "length (group_parity lib (dim_r i) (snd (snd i))) = dim_r i"
    unfolding dim_r_def by (rule group_parity_mds(3) [OF i(2) _ _ p]) (use i in \<open>auto simp: info_ok_def\<close>)
qed

lemma group_word_packets:
  assumes "group_fine lib m i"
  shows "group_word lib gid i = map (data_pkt gid i) [0..<dim_k i] @ map (parity_pkt lib gid i) [0..<dim_r i] @ [close_pkt gid i]"
proof -
  have "data_packets gid i = map (data_pkt gid i) [0..<dim_k i]"
    by (rule nth_equalityI) (simp_all add: data_packets_def nth_enumerate_eq data_pkt_def frame_at_def)
  moreover have "map (parity_packet (info_group gid i) (dim_k i) (int (dim_r i))) (enumerate 0 (group_parity lib (dim_r i) (snd (snd i))))
     = map (parity_pkt lib gid i) [0..<dim_r i]"
    using group_fineD(6) [OF assms]
    by (intro nth_equalityI) (simp_all add: nth_enumerate_eq parity_pkt_def parity_shard_def)
  ultimately show ?thesis
    by (simp add: group_word_def closing_packets_def Let_def close_pkt_def dim_r_def info_group_def)
qed

text \<open>What the receiver holds after the data shards \<open>D\<close>, the parity shards \<open>P\<close> and perhaps the close packet.\<close>

definition receives :: "rs_lib \<Rightarrow> u64 \<Rightarrow> group_info \<Rightarrow> nat set \<Rightarrow> nat set \<Rightarrow> bool \<Rightarrow> receiveGroup \<Rightarrow> bool" where
  "receives lib gid i D P cl g \<longleftrightarrow> rg_groupID g = gid \<and> rg_epoch g = fst i \<and> D \<subseteq> {..<dim_k i} \<and> P \<subseteq> {..<dim_r i}
     \<and> (\<forall>j. map_of (rg_data g) j = (if j \<in> D then Some (data_shard (frame_at i j)) else None))
     \<and> (\<forall>j. map_of (rg_parity g) j = (if j \<in> P then Some (parity_shard lib i j) else None))
     \<and> (\<forall>j. bit (rg_delivered g) j \<longleftrightarrow> j \<in> D) \<and> rg_reconstructed g = 0 \<and> rg_closed g = cl
     \<and> rg_k g = (if P = {} \<and> \<not> cl then 0 else dim_k i) \<and> rg_r g = (if P = {} \<and> \<not> cl then 0 else dim_r i)"

lemma receivesD:
  assumes "receives lib gid i D P cl g"
  shows "rg_groupID g = gid" "rg_epoch g = fst i" "D \<subseteq> {..<dim_k i}" "P \<subseteq> {..<dim_r i}"
    "map_of (rg_data g) j = (if j \<in> D then Some (data_shard (frame_at i j)) else None)"
    "map_of (rg_parity g) j = (if j \<in> P then Some (parity_shard lib i j) else None)"
    "bit (rg_delivered g) j \<longleftrightarrow> j \<in> D" "rg_reconstructed g = 0" "rg_closed g = cl"
    "rg_k g = (if P = {} \<and> \<not> cl then 0 else dim_k i)" "rg_r g = (if P = {} \<and> \<not> cl then 0 else dim_r i)"
  using assms unfolding receives_def by blast+

lemma decode_data_shard: "frame_ok f \<Longrightarrow> decodeDataShard (data_shard f @ zs) = Inr f"
  by (auto simp: frame_ok_def decodeDataShard_def data_shard_def fec_consts Let_def subslice_def unat_of_nat)

lemma receives_data:
  assumes i: "group_fine lib m i" and g: "receives lib gid i D P cl g" and j: "j < dim_k i"
  shows "\<exists>g'. accept (data_pkt gid i j) g = (g', Inr (if j \<in> D then [] else [frame_at i j])) \<and> receives lib gid i (insert j D) P cl g'"
proof -
  note k = group_fineD [OF i] and r = receivesD [OF g]
  have j64: "j < 64" "j < 32" using j k(2) by simp_all
  then have u: "unat (of_nat j :: u16) = j" by (simp add: unat_of_nat)
  have f: "frame_ok (frame_at i j)" using j by (rule k(5))
  then have l: "\<not> length (data_shard (frame_at i j)) < 3" by (simp add: frame_ok_def)
  have p: "p_kind (data_pkt gid i j) = KindData" "p_index (data_pkt gid i j) = of_nat j"
    "p_payload (data_pkt gid i j) = data_shard (frame_at i j)"
    by (simp_all add: data_pkt_def data_packet_def)
  show ?thesis
  proof (cases "j \<in> D")
    case True
    then have "accept (data_pkt gid i j) g = (g, Inr [])"
      using l j64 r(5,7) [of j] by (simp add: accept_def accept_data_def p u fec_consts bit_mark Let_def)
    with True g show ?thesis by (simp add: insert_absorb)
  next
    case False
    define g' where "g' = g\<lparr>rg_data := AList.update j (data_shard (frame_at i j)) (rg_data g), rg_delivered := rg_delivered g OR push_bit j 1\<rparr>"
    have "accept (data_pkt gid i j) g = (g', Inr [frame_at i j])"
      using l j64 r(5,7) [of j] False decode_data_shard [OF f, of "[]"]
      by (simp add: accept_def accept_data_def p u fec_consts bit_mark Let_def gomap_lookup_update g'_def)
    moreover have "receives lib gid i (insert j D) P cl g'"
      using g j unfolding receives_def g'_def by (auto simp: gomap_lookup_update bit_mark [OF j64(1)])
    ultimately show ?thesis using False by simp
  qed
qed

lemma receives_dims:
  assumes i: "group_fine lib m i" and g: "receives lib gid i D P cl g"
  shows "setDimensions (dim_k i) (dim_r i) g = Inr (g\<lparr>rg_k := dim_k i, rg_r := dim_r i\<rparr>)"
  using group_fineD [OF i] receivesD [OF g] by (auto simp: setDimensions_def fec_consts)

lemma receives_parity:
  assumes i: "group_fine lib m i" and g: "receives lib gid i D P cl g" and j: "j < dim_r i"
    and ne: "parity_shard lib i j \<noteq> []"
  shows "\<exists>g'. accept (parity_pkt lib gid i j) g = (g', Inr []) \<and> receives lib gid i D (insert j P) cl g'"
proof -
  note k = group_fineD [OF i] and r = receivesD [OF g]
  have u: "unat (of_nat j :: u16) = j" "unat (of_nat (dim_k i) :: u16) = dim_k i" "unat (of_int (int (dim_r i)) :: u16) = dim_r i"
    using j k by (simp_all add: unat_of_nat)
  have p: "p_kind (parity_pkt lib gid i j) = KindParity" "p_index (parity_pkt lib gid i j) = of_nat j"
    "p_payload (parity_pkt lib gid i j) = parity_shard lib i j" "p_k (parity_pkt lib gid i j) = of_nat (dim_k i)"
    "p_r (parity_pkt lib gid i j) = of_int (int (dim_r i))"
    by (simp_all add: parity_pkt_def parity_packet_def)
  define g1 where "g1 = g\<lparr>rg_k := dim_k i, rg_r := dim_r i\<rparr>"
  define g2 where "g2 = (if j \<in> P then g1 else g1\<lparr>rg_parity := AList.update j (parity_shard lib i j) (rg_parity g1)\<rparr>)"
  have "accept (parity_pkt lib gid i j) g = (g2, Inr [])"
    unfolding accept_def p Kind.case accept_parity_def u receives_dims [OF i g]
    using j ne r(6) [of j] by (simp add: g2_def g1_def)
  moreover have "receives lib gid i D (insert j P) cl g2"
    using g j unfolding receives_def g2_def g1_def by (auto simp: gomap_lookup_update)
  ultimately show ?thesis by blast
qed

lemma receives_close:
  assumes i: "group_fine lib m i" and g: "receives lib gid i D P cl g"
  shows "\<exists>g'. accept (close_pkt gid i) g = (g', Inr []) \<and> receives lib gid i D P True g'"
proof -
  note k = group_fineD [OF i]
  have u: "unat (of_nat (dim_k i) :: u16) = dim_k i" "unat (of_int (int (dim_r i)) :: u16) = dim_r i"
    using k by (simp_all add: unat_of_nat)
  have p: "p_kind (close_pkt gid i) = KindClose" "p_k (close_pkt gid i) = of_nat (dim_k i)"
    "p_r (close_pkt gid i) = of_int (int (dim_r i))"
    by (simp_all add: close_pkt_def close_packet_def)
  have "accept (close_pkt gid i) g = (g\<lparr>rg_k := dim_k i, rg_r := dim_r i, rg_closed := True\<rparr>, Inr [])"
    unfolding accept_def p Kind.case accept_close_def u receives_dims [OF i g] by simp
  moreover have "receives lib gid i D P True (g\<lparr>rg_k := dim_k i, rg_r := dim_r i, rg_closed := True\<rparr>)"
    using g unfolding receives_def by auto
  ultimately show ?thesis by blast
qed

section \<open>Reconstruction\<close>

lemma padded_nth:
  assumes "j < dim_k i"
  shows "padded (snd (snd i)) ! j = padShard (data_shard (frame_at i j)) (shard_size (map data_shard (snd (snd i))))"
    "length (data_shard (frame_at i j)) \<le> shard_size (map data_shard (snd (snd i)))"
  using assms shard_size_ge [of "data_shard (frame_at i j)" "map data_shard (snd (snd i))"]
  by (simp_all add: padded_def Let_def frame_at_def)

lemma decode_padded:
  assumes "group_fine lib m i" "j < dim_k i"
  shows "decodeDataShard (padded (snd (snd i)) ! j) = Inr (frame_at i j)"
  using padded_nth [OF assms(2)] decode_data_shard [OF group_fineD(5) [OF assms]] by (simp add: padShard_append)

lemma recover_loop_frames:
  assumes "\<And>j. j < n \<Longrightarrow> decodeDataShard (shards ! j) = Inr (f j)" "n \<le> 64"
  shows "distinct is \<Longrightarrow> \<forall>j \<in> set is. j < n \<and> (map_of (rg_data g) j \<noteq> None \<longleftrightarrow> j \<in> D) \<and> (bit (rg_delivered g) j \<longleftrightarrow> j \<in> D) \<Longrightarrow>
     \<exists>g'. recover_loop shards is g frames = (g', Inr (frames @ map f (filter (\<lambda>j. j \<notin> D) is)))
       \<and> rg_groupID g' = rg_groupID g \<and> rg_epoch g' = rg_epoch g \<and> rg_k g' = rg_k g
       \<and> (\<forall>j. bit (rg_delivered g') j \<longleftrightarrow> bit (rg_delivered g) j \<or> j \<in> set is)
       \<and> (\<forall>j. bit (rg_reconstructed g') j \<longleftrightarrow> bit (rg_reconstructed g) j \<or> j \<in> set is \<and> j \<notin> D)"
proof (induction "is" arbitrary: g frames)
  case Nil
  then show ?case by simp
next
  case (Cons x xs)
  have x: "x < n" "x < 64" "map_of (rg_data g) x \<noteq> None \<longleftrightarrow> x \<in> D" "bit (rg_delivered g) x \<longleftrightarrow> x \<in> D"
    using Cons.prems(2) assms(2) by auto
  show ?case
  proof (cases "x \<in> D")
    case True
    with Cons.IH [of g frames] Cons.prems x show ?thesis by auto
  next
    case False
    define g2 where "g2 = g\<lparr>rg_data := AList.update x (shards ! x) (rg_data g), rg_reconstructed := rg_reconstructed g OR push_bit x 1,
       rg_delivered := rg_delivered g OR push_bit x 1\<rparr>"
    have e: "recover_loop shards (x # xs) g frames = recover_loop shards xs g2 (frames @ [f x])"
      using False x assms(1) [OF x(1)] by (simp add: g2_def Let_def bit_mark)
    have d: "distinct xs" using Cons.prems(1) by simp
    have h: "\<forall>j \<in> set xs. j < n \<and> (map_of (rg_data g2) j \<noteq> None \<longleftrightarrow> j \<in> D) \<and> (bit (rg_delivered g2) j \<longleftrightarrow> j \<in> D)"
      using Cons.prems x(2) by (auto simp: g2_def gomap_lookup_update bit_mark)
    from Cons.IH [OF d h, of "frames @ [f x]"] False x(2,4) show ?thesis
      unfolding e by (auto simp: g2_def bit_mark)
  qed
qed

lemma count_present_card:
  assumes "\<And>j. map_of m j \<noteq> None \<longleftrightarrow> j \<in> S" "S \<subseteq> {..<n}"
  shows "count_present n m = card S"
proof -
  have "set (filter (\<lambda>j. map_of m j \<noteq> None) [0..<n]) = S" using assms by auto
  then show ?thesis unfolding count_present_def by (metis distinct_card distinct_filter distinct_upt)
qed

lemma longest_ge: "e \<in> set m \<Longrightarrow> length (snd e) \<le> longest m"
proof -
  have "e \<in> set m \<or> length (snd e) \<le> a \<Longrightarrow> length (snd e) \<le> fold (\<lambda>e n. max n (length (snd e))) m a" for a
    by (induction m arbitrary: a) (force simp: le_max_iff_disj)+
  then show "e \<in> set m \<Longrightarrow> length (snd e) \<le> longest m" by (simp add: longest_def)
qed

lemma longest_le: "\<forall>e \<in> set m. length (snd e) \<le> n \<Longrightarrow> longest m \<le> n"
proof -
  have "\<forall>e \<in> set m. length (snd e) \<le> n \<Longrightarrow> a \<le> n \<Longrightarrow> fold (\<lambda>e n. max n (length (snd e))) m a \<le> n" for a
    by (induction m arbitrary: a) auto
  then show "\<forall>e \<in> set m. length (snd e) \<le> n \<Longrightarrow> longest m \<le> n" by (simp add: longest_def)
qed

lemma parity_shards:
  assumes "group_fine lib m i"
  defines "n \<equiv> shard_size (map data_shard (snd (snd i)))"
  shows "0 < n" "j < dim_r i \<Longrightarrow> length (parity_shard lib i j) = n"
    "survivors (dim_k i) (padded (snd (snd i)) @ group_parity lib (dim_r i) (snd (snd i))) shards \<Longrightarrow>
       \<exists>out. rs_reconstruct lib c (dim_k i) (dim_r i) shards = Some out \<and> take (dim_k i) out = padded (snd (snd i))"
    "rs_new lib (dim_k i) (dim_r i)"
proof -
  have i: "info_ok m i" "rs_good lib m" using assms by (simp_all add: group_fine_def)
  then have f: "snd (snd i) \<noteq> []" "dim_k i \<le> m" "1 \<le> fst (snd i)" by (simp_all add: info_ok_def)
  show "0 < n" unfolding n_def by (rule shard_size_pos [OF f(1)])
  note p = group_parity_mds [OF i(2) f]
  show "length (parity_shard lib i j) = n" if "j < dim_r i"
    using p(3,4) that unfolding parity_shard_def dim_r_def n_def by simp
  show "survivors (dim_k i) (padded (snd (snd i)) @ group_parity lib (dim_r i) (snd (snd i))) shards \<Longrightarrow>
       \<exists>out. rs_reconstruct lib c (dim_k i) (dim_r i) shards = Some out \<and> take (dim_k i) out = padded (snd (snd i))"
    unfolding dim_r_def by (rule p(5))
  show "rs_new lib (dim_k i) (dim_r i)" unfolding dim_r_def by (rule p(1))
qed

text \<open>The shards handed to the codec are survivors of the codeword.\<close>

lemma group_shards_survive:
  assumes i: "group_fine lib m i" and g: "receives lib gid i D P cl g" and ok: "rgroup_ok g"
    and p: "P \<noteq> {}" and enough: "dim_k i \<le> card D + card P"
  defines "n \<equiv> max (longest (rg_data g)) (longest (rg_parity g))"
  shows "survivors (dim_k i) (padded (snd (snd i)) @ group_parity lib (dim_r i) (snd (snd i))) (group_shards n g)"
proof -
  define s where "s = shard_size (map data_shard (snd (snd i)))"
  note r = receivesD [OF g] and ps = parity_shards [OF i, folded s_def]
  have gm: "gomap_ok (rg_data g)" "gomap_ok (rg_parity g)" using ok by (simp_all add: rgroup_ok_def slots_ok_def)
  have "longest (rg_data g) \<le> s"
  proof (rule longest_le, rule ballI)
    fix e assume "e \<in> set (rg_data g)"
    then have "map_of (rg_data g) (fst e) = Some (snd e)" using gm(1) by (simp add: map_of_in_set [symmetric])
    then have "fst e \<in> D" "snd e = data_shard (frame_at i (fst e))" using r(5) [of "fst e"] by (auto split: if_splits)
    then show "length (snd e) \<le> s" using padded_nth(2) [of "fst e" i] r(3) by (auto simp: s_def)
  qed
  moreover have "longest (rg_parity g) \<le> s"
  proof (rule longest_le, rule ballI)
    fix e assume "e \<in> set (rg_parity g)"
    then have "map_of (rg_parity g) (fst e) = Some (snd e)" using gm(2) by (simp add: map_of_in_set [symmetric])
    then have "fst e \<in> P" "snd e = parity_shard lib i (fst e)" using r(6) [of "fst e"] by (auto split: if_splits)
    then show "length (snd e) \<le> s" using ps(2) [of "fst e"] r(4) by auto
  qed
  moreover obtain j where j: "j \<in> P" using p by blast
  then have "(j, parity_shard lib i j) \<in> set (rg_parity g)" using r(6) [of j] by (intro map_of_SomeD) simp
  then have "s \<le> longest (rg_parity g)" using longest_ge ps(2) [of j] r(4) j by fastforce
  ultimately have n: "n = s" by (simp add: n_def)
  define hd where "hd j = (if j \<in> D then padded (snd (snd i)) ! j else [])" for j
  define hp where "hp j = (if j \<in> P then parity_shard lib i j else [])" for j
  have kr: "rg_k g = dim_k i" "rg_r g = dim_r i" using p r(10,11) by simp_all
  have "slot n (rg_data g) j = hd j" if "j < dim_k i" for j
    using r(5) [of j] padded_nth(1) [OF that] by (simp add: slot_def hd_def n s_def)
  moreover have "slot n (rg_parity g) j = hp j" if "j < dim_r i" for j
    using r(6) [of j] ps(2) [OF that] by (simp add: slot_def hp_def n padShard_def)
  ultimately have sh: "group_shards n g = map hd [0..<dim_k i] @ map hp [0..<dim_r i]"
    unfolding group_shards_def kr by simp
  have "length (padded (snd (snd i)) ! j) = s" if "j < dim_k i" for j
    using padded_nth [OF that] by (simp add: s_def)
  then have "set (filter (\<lambda>j. hd j \<noteq> []) [0..<dim_k i]) = D" using r(3) ps(1) by (force simp: hd_def)
  then have cd: "length (filter (\<lambda>j. hd j \<noteq> []) [0..<dim_k i]) = card D" by (metis distinct_card distinct_filter distinct_upt)
  have "set (filter (\<lambda>j. hp j \<noteq> []) [0..<dim_r i]) = P" using r(4) ps(1,2) by (force simp: hp_def)
  then have cp: "length (filter (\<lambda>j. hp j \<noteq> []) [0..<dim_r i]) = card P" by (metis distinct_card distinct_filter distinct_upt)
  have pl: "length (padded (snd (snd i))) = dim_k i" by (simp add: padded_def Let_def)
  have cnt: "length (filter (\<lambda>s. s \<noteq> []) (group_shards n g)) = card D + card P"
    unfolding sh by (simp add: filter_map comp_def cd cp)
  have "group_shards n g ! x = [] \<or> group_shards n g ! x = (padded (snd (snd i)) @ group_parity lib (dim_r i) (snd (snd i))) ! x"
    if "x < dim_k i + dim_r i" for x
    using that pl unfolding sh by (auto simp: nth_append hd_def hp_def parity_shard_def)
  moreover have "length (group_shards n g) = dim_k i + dim_r i" by (simp add: sh)
  ultimately show ?thesis
    unfolding survivors_def cnt using enough group_fineD(6) [OF i] pl by simp
qed

text \<open>The three outcomes of \<open>tryComplete\<close> on the packets of one group.\<close>

lemma present_counts:
  assumes g: "receives lib gid i D P cl g" and kr: "rg_k g = dim_k i" "rg_r g = dim_r i"
  shows "count_present (rg_k g) (rg_data g) = card D" "count_present (rg_r g) (rg_parity g) = card P"
    "card D \<le> dim_k i" "card D = dim_k i \<longleftrightarrow> D = {..<dim_k i}"
proof -
  note r = receivesD [OF g]
  show "count_present (rg_k g) (rg_data g) = card D" unfolding kr by (rule count_present_card) (use r(3,5) in auto)
  show "count_present (rg_r g) (rg_parity g) = card P" unfolding kr by (rule count_present_card) (use r(4,6) in auto)
  show "card D \<le> dim_k i" using card_mono [OF _ r(3)] by simp
  show "card D = dim_k i \<longleftrightarrow> D = {..<dim_k i}" using r(3) card_subset_eq [of "{..<dim_k i}" D] by auto
qed

lemma tryComplete_waits:
  assumes i: "group_fine lib m i" and g: "receives lib gid i D P cl g"
    and w: "P = {} \<and> \<not> cl \<or> card D + card P < dim_k i \<or> D = {..<dim_k i} \<and> \<not> cl"
  shows "tryComplete lib codecs g = (codecs, g, Inr ([], None))"
proof (cases "P = {} \<and> \<not> cl")
  case True
  then show ?thesis using receivesD(10) [OF g] by (simp add: tryComplete_def)
next
  case False
  with receivesD(10,11) [OF g] have kr: "rg_k g = dim_k i" "rg_r g = dim_r i" by auto
  note c = present_counts [OF g kr] and k = group_fineD [OF i]
  from w False c have "card D + card P < dim_k i \<or> card D = dim_k i \<and> \<not> cl" by auto
  then show ?thesis
    unfolding tryComplete_def c(1,2) Let_def using kr k receivesD(9) [OF g] by auto
qed

lemma tryComplete_full:
  assumes i: "group_fine lib m i" and g: "receives lib gid i {..<dim_k i} P True g"
  shows "tryComplete lib codecs g = (codecs, g, Inr ([], Some (group_feedback g 0 0)))"
proof -
  from receivesD(10,11) [OF g] have kr: "rg_k g = dim_k i" "rg_r g = dim_r i" by auto
  note c = present_counts [OF g kr] and k = group_fineD [OF i]
  show ?thesis unfolding tryComplete_def c(1,2) Let_def using kr k receivesD(9) [OF g] by auto
qed

lemma tryComplete_recovers:
  assumes i: "group_fine lib m i" and g: "receives lib gid i D P cl g" and ok: "rgroup_ok g"
    and e: "dim_k i \<le> card D + card P" "D \<noteq> {..<dim_k i}"
  shows "\<exists>codecs' g'. tryComplete lib codecs g =
       (codecs', g', Inr (map (frame_at i) (filter (\<lambda>j. j \<notin> D) [0..<dim_k i]),
          Some (group_feedback g (dim_k i - card D) (dim_k i - card D))))
     \<and> rg_groupID g' = gid \<and> rg_epoch g' = fst i \<and> rg_k g' = dim_k i
     \<and> (\<forall>j. bit (rg_delivered g') j \<longleftrightarrow> j < dim_k i) \<and> (\<forall>j. bit (rg_reconstructed g') j \<longleftrightarrow> j < dim_k i \<and> j \<notin> D)"
proof -
  note k = group_fineD [OF i] and r = receivesD [OF g]
  have "card D < dim_k i" using e(2) r(3) psubset_card_mono [of "{..<dim_k i}" D] by auto
  with e(1) have p: "P \<noteq> {}" by auto
  with r(10,11) have kr: "rg_k g = dim_k i" "rg_r g = dim_r i" by auto
  note c = present_counts [OF g kr]
  define n where "n = max (longest (rg_data g)) (longest (rg_parity g))"
  note sv = group_shards_survive [OF i g ok p e(1), folded n_def]
  have "\<exists>codecs1 co. cachedCodec lib codecs (dim_k i) (dim_r i) = (codecs1, Some co)"
    using parity_shards(4) [OF i] by (simp add: cachedCodec_def Let_def split: option.splits)
  then obtain codecs1 co where cc: "cachedCodec lib codecs (dim_k i) (dim_r i) = (codecs1, Some co)" by blast
  have "\<exists>f. \<forall>x. rs_reconstruct lib x (dim_k i) (dim_r i) (group_shards n g) = Some (f x) \<and> take (dim_k i) (f x) = padded (snd (snd i))"
    using parity_shards(3) [OF i sv] by metis
  then obtain codecs2 out where out: "codec_ReconstructData lib (dim_k i) (dim_r i) co codecs1 (group_shards n g) = (codecs2, Some out)"
    "take (dim_k i) out = padded (snd (snd i))"
    using codec_ReconstructData_mds by (metis prod.collapse)
  have dec: "decodeDataShard (out ! j) = Inr (frame_at i j)" if "j < dim_k i" for j
    using decode_padded [OF i that] that out(2) by (metis nth_take)
  have k64: "dim_k i \<le> 64" using k(2) by simp
  have h: "\<forall>j \<in> set [0..<dim_k i]. j < dim_k i \<and> (map_of (rg_data g) j \<noteq> None \<longleftrightarrow> j \<in> D) \<and> (bit (rg_delivered g) j \<longleftrightarrow> j \<in> D)"
    using r(5,7) by auto
  obtain g' where g': "recover_loop out [0..<dim_k i] g [] = (g', Inr (map (frame_at i) (filter (\<lambda>j. j \<notin> D) [0..<dim_k i])))"
    "rg_groupID g' = rg_groupID g" "rg_epoch g' = rg_epoch g" "rg_k g' = rg_k g"
    "\<And>j. bit (rg_delivered g') j \<longleftrightarrow> bit (rg_delivered g) j \<or> j \<in> set [0..<dim_k i]"
    "\<And>j. bit (rg_reconstructed g') j \<longleftrightarrow> bit (rg_reconstructed g) j \<or> j \<in> set [0..<dim_k i] \<and> j \<notin> D"
    using recover_loop_frames [OF dec k64 distinct_upt h, of "[]"] by auto
  have "set (filter (\<lambda>j. j \<notin> D) [0..<dim_k i]) = {..<dim_k i} - D" by auto
  then have len: "length (filter (\<lambda>j. j \<notin> D) [0..<dim_k i]) = dim_k i - card D"
    using distinct_card [of "filter (\<lambda>j. j \<notin> D) [0..<dim_k i]"] card_Diff_subset [OF finite_subset [OF r(3)] r(3)] by simp
  have "tryComplete lib codecs g = (codecs2, g', Inr (map (frame_at i) (filter (\<lambda>j. j \<notin> D) [0..<dim_k i]),
          Some (group_feedback g (dim_k i - card D) (dim_k i - card D))))"
    unfolding tryComplete_def Let_def kr c(1,2) [unfolded kr] n_def [symmetric] cc prod.case option.case out(1) g'(1) sum.case
    using \<open>card D < dim_k i\<close> e(1) k(1) by (simp add: len)
  moreover have "rg_groupID g' = gid" "rg_epoch g' = fst i" "rg_k g' = dim_k i" using g' r kr by simp_all
  moreover have "bit (rg_delivered g') j \<longleftrightarrow> j < dim_k i" "bit (rg_reconstructed g') j \<longleftrightarrow> j < dim_k i \<and> j \<notin> D" for j
    using g'(5,6) [of j] r(3,7,8) by auto
  ultimately show ?thesis by blast
qed

section \<open>The state of the decoder for one group\<close>

text \<open>The shards among a set of packets.\<close>

definition data_in :: "u64 \<Rightarrow> group_info \<Rightarrow> packet set \<Rightarrow> nat set" where
  "data_in gid i S = {j. j < dim_k i \<and> data_pkt gid i j \<in> S}"

definition parity_in :: "rs_lib \<Rightarrow> u64 \<Rightarrow> group_info \<Rightarrow> packet set \<Rightarrow> nat set" where
  "parity_in lib gid i S = {j. j < dim_r i \<and> parity_pkt lib gid i j \<in> S}"

lemma packets_differ:
  assumes "group_fine lib m i"
  shows "data_pkt gid i j \<noteq> parity_pkt lib gid i j'" "data_pkt gid i j \<noteq> close_pkt gid i" "parity_pkt lib gid i j \<noteq> close_pkt gid i"
    "j < dim_k i \<Longrightarrow> j' < dim_k i \<Longrightarrow> data_pkt gid i j = data_pkt gid i j' \<Longrightarrow> j = j'"
    "j < dim_r i \<Longrightarrow> j' < dim_r i \<Longrightarrow> parity_pkt lib gid i j = parity_pkt lib gid i j' \<Longrightarrow> j = j'"
proof -
  have u: "a = b" if "(of_nat a :: u16) = of_nat b" "a < 64" "b < 64" for a b
    using arg_cong [OF that(1), of unat] that(2,3) by (simp add: unat_of_nat)
  note k = group_fineD [OF assms]
  show "data_pkt gid i j \<noteq> parity_pkt lib gid i j'" "data_pkt gid i j \<noteq> close_pkt gid i" "parity_pkt lib gid i j \<noteq> close_pkt gid i"
    by (simp_all add: data_pkt_def parity_pkt_def close_pkt_def data_packet_def parity_packet_def close_packet_def)
  show "j < dim_k i \<Longrightarrow> j' < dim_k i \<Longrightarrow> data_pkt gid i j = data_pkt gid i j' \<Longrightarrow> j = j'"
    using k(2) by (intro u) (simp_all add: data_pkt_def data_packet_def)
  show "j < dim_r i \<Longrightarrow> j' < dim_r i \<Longrightarrow> parity_pkt lib gid i j = parity_pkt lib gid i j' \<Longrightarrow> j = j'"
    using k(4) by (intro u) (simp_all add: parity_pkt_def parity_packet_def)
qed

lemma shards_insert:
  assumes i: "group_fine lib m i"
  shows "j < dim_k i \<Longrightarrow> data_in gid i (insert (data_pkt gid i j) S) = insert j (data_in gid i S)"
    "parity_in lib gid i (insert (data_pkt gid i j) S) = parity_in lib gid i S"
    "data_in gid i (insert (parity_pkt lib gid i j) S) = data_in gid i S"
    "j < dim_r i \<Longrightarrow> parity_in lib gid i (insert (parity_pkt lib gid i j) S) = insert j (parity_in lib gid i S)"
    "data_in gid i (insert (close_pkt gid i) S) = data_in gid i S"
    "parity_in lib gid i (insert (close_pkt gid i) S) = parity_in lib gid i S"
  using packets_differ(1-3) [OF i, THEN not_sym] packets_differ(1-3) [OF i]
  by (auto simp: data_in_def parity_in_def dest: packets_differ(4,5) [OF i])

definition settled :: "group_info \<Rightarrow> nat set \<Rightarrow> completedGroup \<Rightarrow> bool" where
  "settled i D c \<longleftrightarrow> dg_epoch c = fst i \<and> dg_k c = dim_k i \<and> D \<subseteq> {..<dim_k i}
     \<and> (\<forall>j. bit (dg_delivered c) j \<longleftrightarrow> j < dim_k i) \<and> (\<forall>j. bit (dg_reconstructed c) j \<longleftrightarrow> j < dim_k i \<and> j \<notin> D)
     \<and> dg_missing c = of_nat (dim_k i - card D) \<and> dg_recovered c = of_nat (dim_k i - card D)"

datatype phase = Unseen | Gathering receiveGroup | Settled completedGroup

text \<open>The two maps and the frames passed on so far, after the packets \<open>S\<close> of the group.\<close>

definition in_phase :: "u64 \<Rightarrow> Decoder \<Rightarrow> phase \<Rightarrow> bool" where
  "in_phase gid d ph \<longleftrightarrow>
     (case ph of
        Unseen \<Rightarrow> map_of (d_groups d) gid = None \<and> map_of (d_completed d) gid = None
      | Gathering g \<Rightarrow> map_of (d_groups d) gid = Some g \<and> map_of (d_completed d) gid = None
      | Settled c \<Rightarrow> map_of (d_groups d) gid = None \<and> map_of (d_completed d) gid = Some c)"

definition phase_ok :: "rs_lib \<Rightarrow> u64 \<Rightarrow> group_info \<Rightarrow> instant \<Rightarrow> packet set \<Rightarrow> bytes multiset \<Rightarrow> phase \<Rightarrow> bool" where
  "phase_ok lib gid i t0 S dl ph \<longleftrightarrow>
     (let D = data_in gid i S; P = parity_in lib gid i S; cl = close_pkt gid i \<in> S
      in case ph of
           Unseen \<Rightarrow> D = {} \<and> P = {} \<and> \<not> cl \<and> dl = {#}
         | Gathering g \<Rightarrow> receives lib gid i D P cl g \<and> t0 \<le> rg_created g \<and> dl = image_mset (frame_at i) (mset_set D)
             \<and> (D = {..<dim_k i} \<and> \<not> cl \<or> card D + card P < dim_k i)
         | Settled c \<Rightarrow> settled i D c \<and> t0 \<le> dg_finalized c \<and> dl = mset (snd (snd i)))"

lemma frames_of_group: "image_mset (frame_at i) (mset_set {..<dim_k i}) = mset (snd (snd i))"
proof -
  have "mset (map (frame_at i) [0..<dim_k i]) = mset (snd (snd i))"
    unfolding frame_at_def by (simp only: map_nth)
  then show ?thesis by (simp add: lessThan_atLeast0)
qed

lemma frames_missing:
  assumes "D \<subseteq> {..<dim_k i}"
  shows "image_mset (frame_at i) (mset_set D) + mset (map (frame_at i) (filter (\<lambda>j. j \<notin> D) [0..<dim_k i])) = mset (snd (snd i))"
proof -
  have f: "finite D" using assms finite_subset by blast
  have "mset (filter (\<lambda>j. j \<notin> D) [0..<dim_k i]) = mset_set ({..<dim_k i} - D)"
    by (rule mset_set_set [THEN sym, THEN trans, rotated]) (auto intro: arg_cong [where f = mset_set])
  then have "mset_set D + mset (filter (\<lambda>j. j \<notin> D) [0..<dim_k i]) = mset_set {..<dim_k i}"
    using mset_set_Union [of D "{..<dim_k i} - D"] f assms by (simp add: Un_absorb1 Int_Diff)
  from arg_cong [OF this, of "image_mset (frame_at i)"] show ?thesis by (simp add: frames_of_group)
qed

section \<open>One packet of the group\<close>

lemma word_packet_fields:
  "pk \<in> set (group_word lib gid i) \<Longrightarrow> group_fine lib m i \<Longrightarrow> p_groupID pk = gid \<and> p_epoch pk = fst i \<and> p_kind pk \<noteq> KindFeedback"
  by (auto simp: group_word_packets data_pkt_def parity_pkt_def close_pkt_def data_packet_def parity_packet_def close_packet_def info_group_def)

lemma parity_shard_nonempty: "group_fine lib m i \<Longrightarrow> j < dim_r i \<Longrightarrow> parity_shard lib i j \<noteq> []"
  using parity_shards(1,2) by fastforce

lemma data_in_subset: "data_in gid i S \<subseteq> {..<dim_k i}" "finite (data_in gid i S)"
  by (auto simp: data_in_def)

lemma accept_word:
  assumes i: "group_fine lib m i" and pk: "pk \<in> set (group_word lib gid i)"
    and g: "receives lib gid i (data_in gid i S) (parity_in lib gid i S) (close_pkt gid i \<in> S) g"
  obtains g' fr where "accept pk g = (g', Inr fr)"
    "receives lib gid i (data_in gid i (insert pk S)) (parity_in lib gid i (insert pk S)) (close_pkt gid i \<in> insert pk S) g'"
    "image_mset (frame_at i) (mset_set (data_in gid i S)) + mset fr = image_mset (frame_at i) (mset_set (data_in gid i (insert pk S)))"
proof -
  note s = shards_insert [OF i] and ne = packets_differ(1-3) [OF i, of gid, THEN not_sym] 
  from pk consider (data) j where "j < dim_k i" "pk = data_pkt gid i j" | (parity) j where "j < dim_r i" "pk = parity_pkt lib gid i j"
    | (close) "pk = close_pkt gid i"
    unfolding group_word_packets [OF i] by auto
  then show ?thesis
  proof cases
    case data
    obtain g' where "accept pk g = (g', Inr (if j \<in> data_in gid i S then [] else [frame_at i j]))"
      "receives lib gid i (insert j (data_in gid i S)) (parity_in lib gid i S) (close_pkt gid i \<in> S) g'"
      using receives_data [OF i g data(1)] data(2) by blast
    moreover have "close_pkt gid i \<in> insert pk S \<longleftrightarrow> close_pkt gid i \<in> S" using ne data(2) by auto
    moreover have "image_mset (frame_at i) (mset_set (data_in gid i S)) + mset (if j \<in> data_in gid i S then [] else [frame_at i j])
        = image_mset (frame_at i) (mset_set (insert j (data_in gid i S)))"
      using data_in_subset(2) [of gid i S] by (simp add: insert_absorb)
    ultimately show ?thesis
      using s(1) [OF data(1), of gid S] s(2) [of gid j S] data(2) by (intro that) (assumption | simp)+
  next
    case parity
    obtain g' where "accept pk g = (g', Inr [])"
      "receives lib gid i (data_in gid i S) (insert j (parity_in lib gid i S)) (close_pkt gid i \<in> S) g'"
      using receives_parity [OF i g parity(1) parity_shard_nonempty [OF i parity(1)]] parity(2) by blast
    moreover have "close_pkt gid i \<in> insert pk S \<longleftrightarrow> close_pkt gid i \<in> S" using ne parity(2) by auto
    ultimately show ?thesis
      using s(3) [of gid j S] s(4) [OF parity(1), of gid S] parity(2) by (intro that) auto
  next
    case close
    obtain g' where "accept pk g = (g', Inr [])" "receives lib gid i (data_in gid i S) (parity_in lib gid i S) True g'"
      using receives_close [OF i g] close by blast
    then show ?thesis using s(5,6) [of gid S] close by (intro that) auto
  qed
qed

lemma finalized_phase:
  assumes "rg_groupID g = gid"
  shows "in_phase gid (finalize now g fb d)
     (Settled \<lparr>dg_finalized = now, dg_epoch = rg_epoch g, dg_k = rg_k g, dg_delivered = rg_delivered g,
      dg_reconstructed = rg_reconstructed g, dg_missing = fb_missing fb, dg_recovered = fb_recovered fb\<rparr>)"
  using assms by (simp add: in_phase_def finalize_maps gomap_lookup_update gomap_lookup_delete)

lemma gather_step:
  assumes i: "group_fine lib m i" and d: "dec_ok d" and pk: "pk \<in> set (group_word lib gid i)" and t: "t0 \<le> now"
    and ph: "in_phase gid d (Gathering g)" and tg: "t0 \<le> rg_created g"
    and g: "receives lib gid i (data_in gid i S) (parity_in lib gid i S) (close_pkt gid i \<in> S) g"
  shows "\<exists>d' fr ph'. handle_group lib now pk g d = (d', fr, None) \<and> in_phase gid d' ph'
     \<and> phase_ok lib gid i t0 (insert pk S) (image_mset (frame_at i) (mset_set (data_in gid i S)) + mset fr) ph'"
proof -
  define D where "D = data_in gid i (insert pk S)"
  define P where "P = parity_in lib gid i (insert pk S)"
  define cl where "cl \<longleftrightarrow> close_pkt gid i \<in> insert pk S"
  obtain g1 fr where a: "accept pk g = (g1, Inr fr)" "receives lib gid i D P cl g1"
    "image_mset (frame_at i) (mset_set (data_in gid i S)) + mset fr = image_mset (frame_at i) (mset_set D)"
    using accept_word [OF i pk g] unfolding D_def P_def cl_def by metis
  note s = accept_same [OF a(1)] and r = receivesD [OF a(2)]
  have m: "map_of (d_groups d) gid = Some g" "map_of (d_completed d) gid = None" using ph by (simp_all add: in_phase_def)
  have ok: "rgroup_ok g1" using groups_okD(3) [OF dec_okD(1) [OF d] m(1)] s by (simp add: same_group_def)
  have ep: "rg_epoch g = p_epoch pk" using word_packet_fields [OF pk i] receivesD(2) [OF g] by simp
  have Dk: "D \<subseteq> {..<dim_k i}" by (simp add: D_def data_in_subset)
  consider (full) "D = {..<dim_k i}" cl | (repair) "dim_k i \<le> card D + card P" "D \<noteq> {..<dim_k i}"
    | (waits) "D = {..<dim_k i} \<and> \<not> cl \<or> card D + card P < dim_k i"
    by linarith
  then show ?thesis
  proof cases
    case full
    define d1 where "d1 = put_group g1 d\<lparr>d_codecs := d_codecs d\<rparr>"
    have "handle_group lib now pk g d = (finalize now g1 (group_feedback g1 0 0) d1, fr, None)"
      using ep a(1) tryComplete_full [OF i, of gid P g1 "d_codecs d"] a(2) full by (simp add: handle_group_def d1_def)
    moreover note finalized_phase [OF r(1), of now "group_feedback g1 0 0" d1]
    moreover have "rg_k g1 = dim_k i" using r(10) full by simp
    then have "phase_ok lib gid i t0 (insert pk S) (image_mset (frame_at i) (mset_set D))
       (Settled \<lparr>dg_finalized = now, dg_epoch = rg_epoch g1, dg_k = rg_k g1, dg_delivered = rg_delivered g1,
        dg_reconstructed = rg_reconstructed g1, dg_missing = fb_missing (group_feedback g1 0 0),
        dg_recovered = fb_recovered (group_feedback g1 0 0)\<rparr>)"
      using r(2,7,8) t full frames_of_group by (simp add: phase_ok_def D_def [symmetric] settled_def group_feedback_def)
    ultimately show ?thesis using a(3) by metis
  next
    case repair
    let ?fs = "map (frame_at i) (filter (\<lambda>j. j \<notin> D) [0..<dim_k i])" and ?n = "dim_k i - card D"
    obtain codecs g2 where c: "tryComplete lib (d_codecs d) g1 = (codecs, g2, Inr (?fs, Some (group_feedback g1 ?n ?n)))"
      "rg_groupID g2 = gid" "rg_epoch g2 = fst i" "rg_k g2 = dim_k i"
      "\<And>j. bit (rg_delivered g2) j \<longleftrightarrow> j < dim_k i" "\<And>j. bit (rg_reconstructed g2) j \<longleftrightarrow> j < dim_k i \<and> j \<notin> D"
      using tryComplete_recovers [OF i a(2) ok repair, of "d_codecs d"] by blast
    define d1 where "d1 = put_group g2 d\<lparr>d_codecs := codecs\<rparr>"
    have "handle_group lib now pk g d = (finalize now g2 (group_feedback g1 ?n ?n) d1, fr @ ?fs, None)"
      using ep a(1) c(1) by (simp add: handle_group_def d1_def)
    moreover note finalized_phase [OF c(2), of now "group_feedback g1 ?n ?n" d1]
    moreover have "phase_ok lib gid i t0 (insert pk S) (mset (snd (snd i)))
       (Settled \<lparr>dg_finalized = now, dg_epoch = rg_epoch g2, dg_k = rg_k g2, dg_delivered = rg_delivered g2,
        dg_reconstructed = rg_reconstructed g2, dg_missing = fb_missing (group_feedback g1 ?n ?n),
        dg_recovered = fb_recovered (group_feedback g1 ?n ?n)\<rparr>)"
      using c(3-6) t Dk by (simp add: phase_ok_def D_def [symmetric] settled_def group_feedback_def)
    moreover have "image_mset (frame_at i) (mset_set (data_in gid i S)) + mset (fr @ ?fs) = mset (snd (snd i))"
      using frames_missing [OF Dk] a(3) by (simp add: union_assoc [symmetric])
    ultimately show ?thesis by metis
  next
    case waits
    define d1 where "d1 = put_group g1 d\<lparr>d_codecs := d_codecs d\<rparr>"
    have w: "P = {} \<and> \<not> cl \<or> card D + card P < dim_k i \<or> D = {..<dim_k i} \<and> \<not> cl" using waits by blast
    have "handle_group lib now pk g d = (d1, fr, None)"
      using ep a(1) tryComplete_waits [OF i a(2) w, of "d_codecs d"] by (simp add: handle_group_def d1_def)
    moreover have "in_phase gid d1 (Gathering g1)"
      using m r(1) by (simp add: in_phase_def d1_def put_group_def gomap_lookup_update)
    moreover have "phase_ok lib gid i t0 (insert pk S) (image_mset (frame_at i) (mset_set D)) (Gathering g1)"
      unfolding phase_ok_def D_def [symmetric] P_def [symmetric] cl_def [symmetric] Let_def
      using a(2) s tg waits by (simp add: same_group_def)
    ultimately show ?thesis using a(3) by metis
  qed
qed

lemma of_nat_pred: "0 < n \<Longrightarrow> (of_nat n :: u16) - 1 = of_nat (n - 1)"
  by (cases n) simp_all

lemma late_step:
  assumes i: "group_fine lib m i" and pk: "pk \<in> set (group_word lib gid i)" and c: "settled i (data_in gid i S) c"
  shows "snd (handleLateShard c pk) = [] \<and> settled i (data_in gid i (insert pk S)) (fst (handleLateShard c pk))
     \<and> dg_finalized (fst (handleLateShard c pk)) = dg_finalized c"
proof -
  note s = shards_insert [OF i] and k = group_fineD [OF i]
  from pk consider (data) j where "j < dim_k i" "pk = data_pkt gid i j" | (parity) j where "j < dim_r i" "pk = parity_pkt lib gid i j"
    | (close) "pk = close_pkt gid i"
    unfolding group_word_packets [OF i] by auto
  then show ?thesis
  proof cases
    case data
    define D where "D = data_in gid i S"
    have j: "j < 64" "unat (of_nat j :: u16) = j" using data(1) k(2) by (simp_all add: unat_of_nat)
    have f: "frame_ok (frame_at i j)" using data(1) by (rule k(5))
    then have l: "\<not> length (data_shard (frame_at i j)) < 3" by (simp add: frame_ok_def)
    have p: "p_kind pk = KindData" "unat (p_index pk) = j" "p_payload pk = data_shard (frame_at i j)"
      using j(2) by (simp_all add: data(2) data_pkt_def data_packet_def)
    have b: "bit (dg_delivered c) j" "bit (dg_reconstructed c) j \<longleftrightarrow> j \<notin> D" "dg_k c = dim_k i"
      using c data(1) by (simp_all add: settled_def D_def)
    have dec: "decodeDataShard (data_shard (frame_at i j)) = Inr (frame_at i j)" using decode_data_shard [OF f, of "[]"] by simp
    have D': "data_in gid i (insert pk S) = insert j D" using s(1) [OF data(1)] by (simp add: data(2) D_def)
    show ?thesis
    proof (cases "j \<in> D")
      case True
      then have "handleLateShard c pk = (c, [])"
        using b l data(1) by (simp add: handleLateShard_def p dec bit_mark(1) [OF j(1)] bit_mark(4) [OF j(1)] Let_def)
      with True c show ?thesis unfolding D' by (simp add: insert_absorb D_def)
    next
      case False
      define c' where "c' = c\<lparr>dg_missing := dg_missing c - 1, dg_recovered := dg_recovered c - 1,
         dg_reconstructed := dg_reconstructed c AND NOT (push_bit j 1)\<rparr>"
      have h: "handleLateShard c pk = (c', [])"
        using b False l data(1)
        by (simp add: handleLateShard_def p dec bit_mark(1) [OF j(1)] bit_mark(4) [OF j(1)] Let_def c'_def)
      have fin: "finite D" "D \<subseteq> {..<dim_k i}" by (simp_all add: D_def data_in_subset)
      then have "card (insert j D) \<le> dim_k i" using data(1) card_mono [of "{..<dim_k i}" "insert j D"] by simp
      then have n: "0 < dim_k i - card D" "dim_k i - card (insert j D) = dim_k i - card D - 1"
        using fin(1) False by simp_all
      have "settled i (insert j D) c'"
        using c data(1) unfolding settled_def c'_def D_def [symmetric] n(2)
        by (auto simp: of_nat_pred [OF n(1)] bit_mark(3,6) [OF j(1)] simp del: of_nat_diff of_nat_Suc)
      then show ?thesis unfolding D' h by (simp add: c'_def)
    qed
  next
    case parity
    then show ?thesis using c s(3) [of gid j S] by (simp add: handleLateShard_def parity_pkt_def parity_packet_def)
  next
    case close
    then show ?thesis using c s(5) [of gid S] by (simp add: handleLateShard_def close_pkt_def close_packet_def)
  qed
qed

text \<open>\<open>Handle\<close> on a packet of the group, at a time when the group cannot have expired.\<close>

lemma phase_current:
  "in_phase gid d ph \<Longrightarrow> phase_ok lib gid i t0 S dl ph \<Longrightarrow> now \<le> t0 + completionGrace \<Longrightarrow> current now gid d"
  by (cases ph) (auto simp: in_phase_def phase_ok_def current_def Let_def)

lemma dispatch_step:
  assumes i: "group_fine lib m i" and d: "dec_ok d" and pk: "pk \<in> set (group_word lib gid i)" and t: "t0 \<le> now"
    and room: "length (d_groups d) < maxReceiveGroups"
    and ph: "in_phase gid d ph" "phase_ok lib gid i t0 S dl ph"
  shows "\<exists>d' fr ph'. dispatch lib now pk d = (d', fr, None) \<and> in_phase gid d' ph' \<and> phase_ok lib gid i t0 (insert pk S) (dl + mset fr) ph'"
proof -
  note pf = word_packet_fields [OF pk i]
  show ?thesis
  proof (cases ph)
    case Unseen
    then have n: "map_of (d_groups d) gid = None" "map_of (d_completed d) gid = None" using ph(1) by (simp_all add: in_phase_def)
    have e: "data_in gid i S = {}" "parity_in lib gid i S = {}" "close_pkt gid i \<notin> S" "dl = {#}"
      using ph(2) Unseen by (simp_all add: phase_ok_def Let_def)
    define d1 where "d1 = open_group now pk d"
    define g where "g = fresh_group now pk"
    have n': "map_of (d_groups d) (p_groupID pk) = None" using n(1) pf by simp
    note o = open_group_ok [OF d n' room, of now, folded d1_def g_def]
    have ph1: "in_phase gid d1 (Gathering g)" using o(2) n(2) pf by (simp add: in_phase_def d1_def open_group_maps)
    have tg: "t0 \<le> rg_created g" using t by (simp add: g_def fresh_group_def)
    have r: "receives lib gid i (data_in gid i S) (parity_in lib gid i S) (close_pkt gid i \<in> S) g"
      using pf by (simp add: receives_def e g_def fresh_group_def)
    have "dispatch lib now pk d = handle_group lib now pk g d1"
      using n room pf by (simp add: dispatch_def g_def d1_def)
    with gather_step [OF i o(1) pk t ph1 tg r] e show ?thesis by simp
  next
    case (Gathering g)
    have p: "receives lib gid i (data_in gid i S) (parity_in lib gid i S) (close_pkt gid i \<in> S) g" "t0 \<le> rg_created g"
      "dl = image_mset (frame_at i) (mset_set (data_in gid i S))"
      using ph(2) Gathering by (simp_all add: phase_ok_def Let_def)
    have "dispatch lib now pk d = handle_group lib now pk g d"
      using ph(1) Gathering pf by (simp add: dispatch_def in_phase_def)
    with gather_step [OF i d pk t ph(1) [unfolded Gathering] p(2,1)] p(3) show ?thesis by simp
  next
    case (Settled c)
    have p: "settled i (data_in gid i S) c" "t0 \<le> dg_finalized c" "dl = mset (snd (snd i))"
      using ph(2) Settled by (simp_all add: phase_ok_def Let_def)
    note l = late_step [OF i pk p(1)]
    define c' where "c' = fst (handleLateShard c pk)"
    have h: "handleLateShard c pk = (c', [])" using l by (simp add: c'_def prod_eq_iff)
    define d' where "d' = d\<lparr>d_completed := AList.update gid c' (d_completed d)\<rparr>"
    have "dispatch lib now pk d = (d', [], None)"
      using ph(1) Settled pf p(1) h by (simp add: dispatch_def in_phase_def settled_def d'_def)
    moreover have "in_phase gid d' (Settled c')" using ph(1) Settled by (simp add: in_phase_def d'_def gomap_lookup_update)
    moreover have "phase_ok lib gid i t0 (insert pk S) (dl + mset []) (Settled c')"
      using l p by (simp add: phase_ok_def Let_def c'_def)
    ultimately show ?thesis by blast
  qed
qed

section \<open>A run of datagrams\<close>

text \<open>What a session passes on of one datagram: nothing after an error, the frames of an FEC packet, and
  any other datagram as it is.\<close>

definition handle_datagram :: "rs_lib \<Rightarrow> instant \<Rightarrow> bytes \<Rightarrow> Decoder \<Rightarrow> Decoder \<times> bytes list" where
  "handle_datagram lib now b d =
     (case Handle lib now b d of
        (d', res, Some e) \<Rightarrow> (d', [])
      | (d', res, None) \<Rightarrow> (d', if res_handled res then res_frames res else [b]))"

fun datagram_run :: "rs_lib \<Rightarrow> (instant \<times> bytes) list \<Rightarrow> Decoder \<Rightarrow> Decoder \<times> (bytes \<times> bytes list) list" where
  "datagram_run lib [] d = (d, [])"
| "datagram_run lib ((now, b) # as) d =
     (let (d1, frames) = handle_datagram lib now b d; (d2, out) = datagram_run lib as d1 in (d2, (b, frames) # out))"

text \<open>The frames that left through the packets of one group.\<close>

definition passed_on :: "u64 \<Rightarrow> (bytes \<times> bytes list) list \<Rightarrow> bytes list" where
  "passed_on gid out = concat (map snd (filter (\<lambda>e. group_of (fst e) = Some gid) out))"

lemma fst_handle_datagram: "fst (handle_datagram lib now b d) = fst (Handle lib now b d)"
  by (simp add: handle_datagram_def split: prod.splits option.splits)

lemma in_phase_undisturbed: "undisturbed gid d d' \<Longrightarrow> in_phase gid d' ph = in_phase gid d ph"
  by (auto simp: undisturbed_def in_phase_def split: phase.splits)

lemma own_packet:
  assumes i: "group_fine lib m i" and d: "dec_ok d" and pk: "pk \<in> set (group_word lib gid i)"
    and t: "t0 \<le> now" "now \<le> t0 + completionGrace" and room: "length (d_groups d) < maxReceiveGroups"
    and ph: "in_phase gid d ph" "phase_ok lib gid i t0 S dl ph"
  shows "\<exists>d' fr ph'. handle_datagram lib now (marshalPacket pk) d = (d', fr) \<and> in_phase gid d' ph'
     \<and> phase_ok lib gid i t0 (insert pk S) (dl + mset fr) ph'"
proof -
  have "length (p_payload pk) \<le> MaxFrameSize + 2" using word_payloads [of lib m i pk gid] i pk by (simp add: group_fine_def)
  note pp = parse_marshalPacket [OF this]
  note pf = word_packet_fields [OF pk i]
  note cur = phase_current [OF ph t(2)]
  obtain d1 send where a: "advance now gid d = (d1, send)" by force
  note ao = advance_others [OF d cur, of gid, unfolded a fst_conv]
  have "in_phase gid d1 ph" using in_phase_undisturbed [OF ao(1)] ph(1) by blast
  then obtain d' fr ph' where "dispatch lib now pk d1 = (d', fr, None)" "in_phase gid d' ph'"
    "phase_ok lib gid i t0 (insert pk S) (dl + mset fr) ph'"
    using dispatch_step [OF i advance_ok(1) [OF d a] pk t(1) _ _ ph(2)] room ao(2) by (meson le_less_trans)
  moreover from this(1) have "handle_datagram lib now (marshalPacket pk) d = (d', fr)"
    using pf a by (simp add: handle_datagram_def Handle_def pp no_result_def)
  ultimately show ?thesis by blast
qed

lemma group_of_packet: "pk \<in> set (group_word lib gid i) \<Longrightarrow> group_fine lib m i \<Longrightarrow> group_of (marshalPacket pk) = Some gid"
  using word_payloads [of lib m i pk gid] word_packet_fields [of pk lib gid i m]
  by (simp add: group_of_def parse_marshalPacket group_fine_def)

lemma word_marshal_inj:
  assumes "group_fine lib m i" "a \<in> set (group_word lib gid i)" "b \<in> set (group_word lib gid i)" "marshalPacket a = marshalPacket b"
  shows "a = b"
  using assms word_payloads [of lib m i a gid] word_payloads [of lib m i b gid] parse_marshalPacket
  by (metis group_fine_def parsed.inject(2))

text \<open>The datagrams of a run within one grace period that bring packets of the group and of others.\<close>

definition window_ok :: "rs_lib \<Rightarrow> u64 \<Rightarrow> group_info \<Rightarrow> instant \<Rightarrow> (instant \<times> bytes) list \<Rightarrow> bool" where
  "window_ok lib gid i t0 as \<longleftrightarrow>
     (\<forall>(t, b) \<in> set as. t0 \<le> t \<and> t \<le> t0 + completionGrace
        \<and> (group_of b = Some gid \<longrightarrow> b \<in> marshalPacket ` set (group_word lib gid i)))"

definition arrived_packets :: "rs_lib \<Rightarrow> u64 \<Rightarrow> group_info \<Rightarrow> (instant \<times> bytes) list \<Rightarrow> packet set" where
  "arrived_packets lib gid i as = {pk \<in> set (group_word lib gid i). marshalPacket pk \<in> snd ` set as}"

lemma run_phase:
  assumes i: "group_fine lib m i"
  shows "dec_ok d \<Longrightarrow> window_ok lib gid i t0 as \<Longrightarrow> length (d_groups d) + length as \<le> maxReceiveGroups \<Longrightarrow>
     length (d_completed d) + length as \<le> maxCompletedGroups \<Longrightarrow> in_phase gid d ph \<Longrightarrow> phase_ok lib gid i t0 S dl ph \<Longrightarrow>
     \<exists>ph'. in_phase gid (fst (datagram_run lib as d)) ph'
       \<and> phase_ok lib gid i t0 (S \<union> arrived_packets lib gid i as) (dl + mset (passed_on gid (snd (datagram_run lib as d)))) ph'"
proof (induction as arbitrary: d ph S dl)
  case Nil
  then show ?case by (auto simp: passed_on_def arrived_packets_def)
next
  case (Cons a as)
  obtain now b where a: "a = (now, b)" by force
  have t: "t0 \<le> now" "now \<le> t0 + completionGrace" and w: "window_ok lib gid i t0 as"
    and own: "group_of b = Some gid \<Longrightarrow> b \<in> marshalPacket ` set (group_word lib gid i)"
    using Cons.prems(2) by (auto simp: window_ok_def a)
  define d1 where "d1 = fst (handle_datagram lib now b d)"
  define fr where "fr = snd (handle_datagram lib now b d)"
  have h: "handle_datagram lib now b d = (d1, fr)" by (simp add: d1_def fr_def)
  have ok1: "dec_ok d1" unfolding d1_def fst_handle_datagram by (rule Handle_ok [OF Cons.prems(1)])
  have g1: "grows d d1"
    unfolding d1_def fst_handle_datagram by (rule Handle_others(1) [OF Cons.prems(1) phase_current [OF Cons.prems(5,6) t(2)]])
  have l1: "length (d_groups d1) + length as \<le> maxReceiveGroups" "length (d_completed d1) + length as \<le> maxCompletedGroups"
    using g1 Cons.prems(3,4) by (simp_all add: grows_def)
  note ih = Cons.IH [OF ok1 w l1]
  have run: "fst (datagram_run lib (a # as) d) = fst (datagram_run lib as d1)"
    "passed_on gid (snd (datagram_run lib (a # as) d)) =
       (if group_of b = Some gid then fr else []) @ passed_on gid (snd (datagram_run lib as d1))"
    by (simp_all add: a h case_prod_unfold Let_def passed_on_def)
  show ?case
  proof (cases "group_of b = Some gid")
    case True
    then obtain pk where pk: "pk \<in> set (group_word lib gid i)" "b = marshalPacket pk" using own by blast
    have room: "length (d_groups d) < maxReceiveGroups" using Cons.prems(3) by simp
    obtain ph' where "in_phase gid d1 ph'" "phase_ok lib gid i t0 (insert pk S) (dl + mset fr) ph'"
      using own_packet [OF i Cons.prems(1) pk(1) t room Cons.prems(5,6)] h pk(2) by auto
    from ih [OF this] obtain ph2 where p2: "in_phase gid (fst (datagram_run lib as d1)) ph2"
      "phase_ok lib gid i t0 (insert pk S \<union> arrived_packets lib gid i as) (dl + mset fr + mset (passed_on gid (snd (datagram_run lib as d1)))) ph2"
      by blast
    have "arrived_packets lib gid i (a # as) = insert pk (arrived_packets lib gid i as)"
      using pk word_marshal_inj [OF i, of _ gid pk] by (auto simp: arrived_packets_def a)
    then show ?thesis using p2 True unfolding run by (auto simp: union_assoc)
  next
    case False
    have "undisturbed gid d d1"
      unfolding d1_def fst_handle_datagram
      by (rule Handle_others(2) [OF Cons.prems(1) phase_current [OF Cons.prems(5,6) t(2)] False]) (use Cons.prems(4) in simp)
    then have "in_phase gid d1 ph" using in_phase_undisturbed Cons.prems(5) by blast
    moreover have "arrived_packets lib gid i (a # as) = arrived_packets lib gid i as"
      using False group_of_packet [OF _ i] by (auto simp: arrived_packets_def a)
    ultimately show ?thesis using ih [OF _ Cons.prems(6)] False unfolding run by simp
  qed
qed

text \<open>The shards that arrived, counted as packets.\<close>

definition shards_arrived :: "rs_lib \<Rightarrow> u64 \<Rightarrow> group_info \<Rightarrow> (instant \<times> bytes) list \<Rightarrow> nat" where
  "shards_arrived lib gid i as = card {pk \<in> arrived_packets lib gid i as. p_kind pk \<noteq> KindClose}"

lemma pkt_kinds: "p_kind (data_pkt gid i j) = KindData" "p_kind (parity_pkt lib gid i j) = KindParity" "p_kind (close_pkt gid i) = KindClose"
  by (simp_all add: data_pkt_def parity_pkt_def close_pkt_def data_packet_def parity_packet_def close_packet_def)

lemma shards_arrived_split:
  assumes i: "group_fine lib m i"
  shows "shards_arrived lib gid i as = card (data_in gid i (arrived_packets lib gid i as)) + card (parity_in lib gid i (arrived_packets lib gid i as))"
proof -
  let ?S = "arrived_packets lib gid i as"
  let ?A = "data_pkt gid i ` data_in gid i ?S" and ?B = "parity_pkt lib gid i ` parity_in lib gid i ?S"
  note pd = packets_differ(1) [OF i]
  have "{pk \<in> ?S. p_kind pk \<noteq> KindClose} = ?A \<union> ?B"
    unfolding arrived_packets_def group_word_packets [OF i] data_in_def parity_in_def
    by (auto simp: pkt_kinds packets_differ(2,3) [OF i])
  moreover have "card (?A \<union> ?B) = card ?A + card ?B"
    using pd by (intro card_Un_disjoint) (auto simp: data_in_def parity_in_def)
  moreover have "card ?A = card (data_in gid i ?S)" 
    by (rule card_image, rule inj_onI, rule packets_differ(4) [OF i, of _ _ gid]) (simp_all add: data_in_def)
  moreover have "card ?B = card (parity_in lib gid i ?S)" 
    by (rule card_image, rule inj_onI, rule packets_differ(5) [OF i, of _ _ gid]) (simp_all add: parity_in_def)
  ultimately show ?thesis by (simp add: shards_arrived_def)
qed

lemma run_from_unseen:
  assumes i: "group_fine lib m i" and d: "dec_ok d" and w: "window_ok lib gid i t0 as"
    and room: "length (d_groups d) + length as \<le> maxReceiveGroups" "length (d_completed d) + length as \<le> maxCompletedGroups"
    and new: "map_of (d_groups d) gid = None" "map_of (d_completed d) gid = None"
  shows "\<exists>ph. in_phase gid (fst (datagram_run lib as d)) ph
     \<and> phase_ok lib gid i t0 (arrived_packets lib gid i as) (mset (passed_on gid (snd (datagram_run lib as d)))) ph"
proof -
  have 1: "in_phase gid d Unseen" using new by (simp add: in_phase_def)
  have 2: "phase_ok lib gid i t0 {} {#} Unseen" by (simp add: phase_ok_def data_in_def parity_in_def)
  show ?thesis using run_phase [OF i d w room 1 2] by simp
qed

text \<open>C1.  Forward error correction loses nothing and repeats nothing.  For any frames of a group and the packets
  the encoder makes of them, let datagrams arrive within one grace period at a decoder that runs already: packets
  of the group in any order, any number of times, with any other datagrams in between.  As soon as as many distinct
  data and parity shards arrived as the group has frames, every frame was passed on exactly once, and never
  is a frame passed on that was not sent, or twice.\<close>

theorem fec_recovers_frames:
  assumes "rs_good lib m" "info_ok m i" "dec_reach lib d"
    and "map_of (d_groups d) gid = None" "map_of (d_completed d) gid = None"
    and "length (d_groups d) + length as \<le> maxReceiveGroups" "length (d_completed d) + length as \<le> maxCompletedGroups"
    and "window_ok lib gid i t0 as"
  defines "frames \<equiv> passed_on gid (snd (datagram_run lib as d))"
  shows "mset frames \<subseteq># mset (snd (snd i)) \<and> (length (snd (snd i)) \<le> shards_arrived lib gid i as \<longrightarrow> mset frames = mset (snd (snd i)))"
proof -
  have i: "group_fine lib m i" using assms(1,2) by (simp add: group_fine_def)
  let ?S = "arrived_packets lib gid i as"
  obtain ph where p: "phase_ok lib gid i t0 ?S (mset frames) ph"
    using run_from_unseen [OF i dec_reach_ok [OF assms(3)] assms(8,6,7,4,5)] unfolding frames_def by blast
  define D where "D = data_in gid i ?S"
  have sub: "image_mset (frame_at i) (mset_set D) \<subseteq># mset (snd (snd i))"
    unfolding frames_of_group [symmetric] D_def by (intro image_mset_subseteq_mono subset_imp_msubset_mset_set) (simp_all add: data_in_subset)
  show ?thesis
  proof (cases ph)
    case Unseen
    with p group_fineD(1) [OF i] show ?thesis by (auto simp: phase_ok_def Let_def shards_arrived_split [OF i])
  next
    case (Gathering g)
    with p have f: "mset frames = image_mset (frame_at i) (mset_set D)"
      "D = {..<dim_k i} \<or> card D + card (parity_in lib gid i ?S) < dim_k i"
      by (auto simp: phase_ok_def Let_def D_def)
    then have "mset frames = mset (snd (snd i))" if "dim_k i \<le> shards_arrived lib gid i as"
      using that frames_of_group [of i] unfolding shards_arrived_split [OF i] D_def [symmetric] by simp
    with f(1) sub show ?thesis by simp
  next
    case (Settled c)
    with p have "mset frames = mset (snd (snd i))" by (simp add: phase_ok_def Let_def)
    then show ?thesis by simp
  qed
qed

definition sample_info :: group_info where
  "sample_info = (1, 1, [[10, 20], [30]])"

definition sample_arrivals :: "(instant \<times> bytes) list" where
  "sample_arrivals =
     [(0, marshalPacket (group_word xor_lib 7 sample_info ! 2)), (5, [1, 2, 3]),
      (9, marshalPacket (group_word xor_lib 7 sample_info ! 1)), (9, marshalPacket (group_word xor_lib 7 sample_info ! 1))]"

lemma sample_info_ok: "info_ok 3 sample_info"
  by (simp add: info_ok_def sample_info_def frame_ok_def fec_consts)

lemma sample_window: "window_ok xor_lib 7 sample_info 0 sample_arrivals"
proof -
  have "length (group_word xor_lib 7 sample_info) = 4" "completionGrace = 10000000" by code_simp+
  moreover have "group_of [1, 2, 3] = None" by code_simp
  ultimately show ?thesis by (auto simp: window_ok_def sample_arrivals_def)
qed

theorem fec_recovers_frames_witness:
  "mset (passed_on 7 (snd (datagram_run xor_lib sample_arrivals NewDecoder))) = {#[10, 20], [30]#}"
proof -
  have r: "length sample_arrivals = 4" by (simp add: sample_arrivals_def)
  have s: "2 \<le> shards_arrived xor_lib 7 sample_info sample_arrivals" by code_simp
  show ?thesis
    using fec_recovers_frames [OF xor_lib_good sample_info_ok dec_new _ _ _ _ sample_window] r s
    by (simp add: NewDecoder_def dec_consts sample_info_def)
qed

text \<open>C15.  Loss is reported as it was.  When enough shards of a group arrived and either a data shard is
  missing or the close packet came, the group waits out the grace period with a valid report that counts exactly
  the data shards that never arrived, all of them recovered: a shard that was only late is not reported.\<close>

theorem reported_loss_exact:
  assumes "rs_good lib m" "info_ok m i" "dec_reach lib d"
    and "map_of (d_groups d) gid = None" "map_of (d_completed d) gid = None"
    and "length (d_groups d) + length as \<le> maxReceiveGroups" "length (d_completed d) + length as \<le> maxCompletedGroups"
    and "window_ok lib gid i t0 as" "dim_k i \<le> shards_arrived lib gid i as"
    and "close_pkt gid i \<in> arrived_packets lib gid i as \<or> data_in gid i (arrived_packets lib gid i as) \<noteq> {..<dim_k i}"
  shows "\<exists>c. map_of (d_completed (fst (datagram_run lib as d))) gid = Some c
     \<and> feedback_valid (done_feedback gid c) \<and> unat (fb_total (done_feedback gid c)) = dim_k i
     \<and> unat (fb_missing (done_feedback gid c)) = dim_k i - card (data_in gid i (arrived_packets lib gid i as))
     \<and> fb_recovered (done_feedback gid c) = fb_missing (done_feedback gid c)"
proof -
  have i: "group_fine lib m i" using assms(1,2) by (simp add: group_fine_def)
  note k = group_fineD [OF i]
  let ?S = "arrived_packets lib gid i as"
  define D where "D = data_in gid i ?S"
  obtain ph where p: "in_phase gid (fst (datagram_run lib as d)) ph" "\<exists>dl. phase_ok lib gid i t0 ?S dl ph"
    using run_from_unseen [OF i dec_reach_ok [OF assms(3)] assms(8,6,7,4,5)] by blast
  have "\<exists>c. ph = Settled c"
  proof (cases ph)
    case Unseen
    with p(2) k(1) assms(9) show ?thesis by (auto simp: phase_ok_def Let_def shards_arrived_split [OF i])
  next
    case (Gathering g)
    with p(2) have "data_in gid i ?S = {..<dim_k i} \<and> close_pkt gid i \<notin> ?S \<or> card (data_in gid i ?S) + card (parity_in lib gid i ?S) < dim_k i"
      by (simp add: phase_ok_def Let_def)
    with assms(9,10) show ?thesis by (auto simp: shards_arrived_split [OF i])
  qed simp
  then obtain c where c: "ph = Settled c" by blast
  have s: "settled i D c" using p(2) c by (auto simp: phase_ok_def Let_def D_def)
  then have f: "done_feedback gid c = \<lparr>fb_epoch = fst i, fb_groupID = gid, fb_missing = of_nat (dim_k i - card D),
     fb_recovered = of_nat (dim_k i - card D), fb_total = of_nat (dim_k i)\<rparr>"
    by (simp add: done_feedback_def settled_def)
  have "feedback_valid (done_feedback gid c)"
    unfolding f feedback_valid_def Feedback.simps by (rule valid_counts) (use k(2) in \<open>simp_all add: fec_consts\<close>)
  moreover have "unat (fb_missing (done_feedback gid c)) = dim_k i - card D" "unat (fb_total (done_feedback gid c)) = dim_k i"
    "fb_recovered (done_feedback gid c) = fb_missing (done_feedback gid c)"
    unfolding f Feedback.simps using k(2) by (intro of_nat_u16, simp)+ simp
  moreover have "map_of (d_completed (fst (datagram_run lib as d))) gid = Some c" using p(1) c by (simp add: in_phase_def)
  ultimately show ?thesis unfolding D_def by (intro exI [of _ c]) blast
qed

theorem reported_loss_exact_witness:
  "\<exists>c. map_of (d_completed (fst (datagram_run xor_lib sample_arrivals NewDecoder))) 7 = Some c
     \<and> feedback_valid (done_feedback 7 c) \<and> unat (fb_missing (done_feedback 7 c)) = 1"
proof -
  have r: "length sample_arrivals = 4" by (simp add: sample_arrivals_def)
  have s: "2 \<le> shards_arrived xor_lib 7 sample_info sample_arrivals" by code_simp
  have k: "dim_k sample_info = 2" by (simp add: sample_info_def)
  have n: "data_pkt 7 sample_info 0 \<notin> arrived_packets xor_lib 7 sample_info sample_arrivals"
    "data_pkt 7 sample_info 1 \<in> arrived_packets xor_lib 7 sample_info sample_arrivals" by code_simp+
  then have D: "data_in 7 sample_info (arrived_packets xor_lib 7 sample_info sample_arrivals) = {1}"
    unfolding data_in_def k by (auto simp: less_2_cases_iff)
  have "0 \<in> {..<2::nat}" by simp
  then have "{1} \<noteq> {..<2::nat}" by (metis singletonD zero_neq_one)
  then show ?thesis
    using reported_loss_exact [OF xor_lib_good sample_info_ok dec_new _ _ _ _ sample_window, unfolded k D] r s
    by (fastforce simp: NewDecoder_def dec_consts)
qed

end
