(* ===== verification/Net_Addr.thy ===== *)
theory Net_Addr
  imports Go_Prelude
begin

text \<open>
  The part of Go's \<open>net/netip\<close> and \<open>net.UDPAddr\<close> the program uses: addresses with their two families and
  zone, address and port pairs, and their canonical form.  The zero \<open>Addr\<close> is \<open>NoAddr\<close>.
\<close>

datatype ipaddr = NoAddr | V4 u32 | V6 "128 word" string

type_synonym addrPort = "ipaddr \<times> u16"

fun Addr_IsValid :: "ipaddr \<Rightarrow> bool" where
  "Addr_IsValid NoAddr = False"
| "Addr_IsValid _ = True"

definition AddrPort_IsValid :: "addrPort \<Rightarrow> bool" where
  "AddrPort_IsValid ap = Addr_IsValid (fst ap)"

text \<open>\<open>Unmap\<close> turns an IPv4-mapped IPv6 address (\<open>::ffff:a.b.c.d\<close>) into the IPv4 address.\<close>

fun Unmap :: "ipaddr \<Rightarrow> ipaddr" where
  "Unmap (V6 w z) = (if drop_bit 32 w = 0xffff then V4 (ucast w) else V6 w z)"
| "Unmap a = a"

fun WithZone :: "string \<Rightarrow> ipaddr \<Rightarrow> ipaddr" where
  "WithZone z (V6 w _) = V6 w z"
| "WithZone z a = a"

definition AddrFromSlice :: "bytes \<Rightarrow> ipaddr option" where
  "AddrFromSlice bs =
     (if length bs = 4 then Some (V4 (get32 bs))
      else if length bs = 16 then Some (V6 (of_nat (be_nat bs)) '''')
      else None)"

record UDPAddr =
  ua_IP :: bytes
  ua_Port :: int
  ua_Zone :: string

definition canonicalAddrPort :: "addrPort \<Rightarrow> addrPort" where
  "canonicalAddrPort ap = (Unmap (fst ap), snd ap)"

definition udpAddrPort :: "UDPAddr option \<Rightarrow> addrPort option" where
  "udpAddrPort addr =
     (case addr of
        None \<Rightarrow> None
      | Some a \<Rightarrow>
          if ua_Port a < 0 \<or> ua_Port a > 65535 then None
          else case AddrFromSlice (ua_IP a) of
                 None \<Rightarrow> None
               | Some ip \<Rightarrow>
                   let ip = (if ua_Zone a \<noteq> '''' then WithZone (ua_Zone a) ip else ip)
                   in Some (canonicalAddrPort (ip, of_int (ua_Port a))))"

lemma Unmap_idem [simp]: "Unmap (Unmap a) = Unmap a"
  by (cases a rule: Unmap.cases) auto

lemma Unmap_valid [simp]: "Addr_IsValid (Unmap a) = Addr_IsValid a"
  by (cases a rule: Unmap.cases) auto

lemma canonicalAddrPort_idem [simp]: "canonicalAddrPort (canonicalAddrPort ap) = canonicalAddrPort ap"
  by (simp add: canonicalAddrPort_def)

lemma AddrFromSlice_valid: "AddrFromSlice bs = Some a \<Longrightarrow> Addr_IsValid a"
  by (auto simp: AddrFromSlice_def split: if_splits)

lemma WithZone_valid [simp]: "Addr_IsValid (WithZone z a) = Addr_IsValid a"
  by (cases a) auto

lemma udpAddrPort_canonical:
  "udpAddrPort addr = Some ap \<Longrightarrow> canonicalAddrPort ap = ap \<and> AddrPort_IsValid ap"
  by (auto simp: udpAddrPort_def AddrPort_IsValid_def canonicalAddrPort_def Let_def dest: AddrFromSlice_valid
      split: option.splits if_splits)

end
