(* ===== verification/Salamander.thy ===== *)
theory Salamander
  imports Net_Addr
begin

text \<open>
  The obfuscation layer below QUIC, \<open>internal/transport/obfs/salamander.go\<close>.  The BLAKE2b hash and X25519 are
  code of another module: a keyed 256-bit hash \<open>H key message\<close> and a function \<open>dh\<close> of the two keys are
  arguments of the definitions, and so is every salt the random generator yields.  The socket is what is written
  to and read from it.  A buffer is the bytes it holds; where its length matters it is an argument.
\<close>

definition SalamanderSaltSize :: nat where
  "SalamanderSaltSize = 8"

definition SalamanderHintSize :: nat where
  "SalamanderHintSize = 8"

definition SalamanderHeaderSize :: nat where
  "SalamanderHeaderSize = SalamanderSaltSize + SalamanderHintSize"

definition maxUDPPayload :: nat where
  "maxUDPPayload = 65507"

definition maxLearnedEndpoints :: nat where
  "maxLearnedEndpoints = 1024"

lemmas obfs_consts = SalamanderSaltSize_def SalamanderHintSize_def SalamanderHeaderSize_def maxUDPPayload_def
  maxLearnedEndpoints_def

definition go_string :: "string \<Rightarrow> bytes" where
  "go_string s = map of_char s"

definition derivationDomain :: bytes where
  "derivationDomain = go_string ''wg-quic/salamander/key/v1''"

definition hintDomain :: bytes where
  "hintDomain = go_string ''wg-quic/salamander/hint/v1''"

definition streamDomain :: bytes where
  "streamDomain = go_string ''wg-quic/salamander/stream/v1''"

type_synonym hash256 = "bytes \<Rightarrow> bytes \<Rightarrow> bytes"
type_synonym obfsKey = bytes

datatype obfs_error =
    BadPrivateKey | BadPublicKey | BadPresharedKey | SharedSecret | NilConnection | PayloadLength | BufferTooShort
  | RandomFailed | InvalidDestination | NoKeyFor addrPort | NotUDP | BadControlMessage | BadSegmentMessage
  | SegmentSizeOverflow | ShortWrite

definition DeriveWireGuardKey ::
  "hash256 \<Rightarrow> (bytes \<Rightarrow> bytes \<Rightarrow> bytes option) \<Rightarrow> bytes \<Rightarrow> bytes \<Rightarrow> bytes \<Rightarrow> obfs_error + obfsKey" where
  "DeriveWireGuardKey H dh localPrivate remotePublic preshared =
     (if length localPrivate \<noteq> 32 then Inl BadPrivateKey
      else if length remotePublic \<noteq> 32 then Inl BadPublicKey
      else if length preshared \<noteq> 0 \<and> length preshared \<noteq> 32 then Inl BadPresharedKey
      else case dh localPrivate remotePublic of
        None \<Rightarrow> Inl SharedSecret
      | Some shared \<Rightarrow>
          Inr (H [] (derivationDomain @ shared @ (if length preshared = 0 then [0] else 1 # preshared))))"

section \<open>Digests and the stream\<close>

text \<open>A keyed hash state is restored by \<open>Reset\<close>, so it is the key it was made with.\<close>

record digestPair =
  dp_hint :: bytes
  dp_stream :: bytes

definition newDigestPair :: "obfsKey \<Rightarrow> digestPair" where
  "newDigestPair key = \<lparr>dp_hint = key, dp_stream = key\<rparr>"

definition deriveHint :: "hash256 \<Rightarrow> digestPair \<Rightarrow> bytes \<Rightarrow> bytes" where
  "deriveHint H p salt = take SalamanderHintSize (H (dp_hint p) (hintDomain @ salt))"

definition deriveStream :: "hash256 \<Rightarrow> digestPair \<Rightarrow> bytes \<Rightarrow> bytes" where
  "deriveStream H p salt = H (dp_stream p) (streamDomain @ salt)"

definition keyedHash :: "hash256 \<Rightarrow> bytes \<Rightarrow> obfsKey \<Rightarrow> bytes \<Rightarrow> bytes" where
  "keyedHash H domain key salt = H key (domain @ salt)"

definition packetHint :: "hash256 \<Rightarrow> obfsKey \<Rightarrow> bytes \<Rightarrow> bytes" where
  "packetHint H key salt = take SalamanderHintSize (keyedHash H hintDomain key salt)"

definition packetStream :: "hash256 \<Rightarrow> obfsKey \<Rightarrow> bytes \<Rightarrow> bytes" where
  "packetStream H key salt = keyedHash H streamDomain key salt"

definition digestPairFor :: "obfsKey \<Rightarrow> (obfsKey \<times> digestPair) list \<Rightarrow> (obfsKey \<times> digestPair) list \<times> digestPair" where
  "digestPairFor key cache =
     (case map_of cache key of
        Some pair \<Rightarrow> (cache, pair)
      | None \<Rightarrow> (AList.update key (newDigestPair key) cache, newDigestPair key))"

definition le_get64 :: "bytes \<Rightarrow> u64" where
  "le_get64 bs = get64 (rev bs)"

definition le_put64 :: "u64 \<Rightarrow> bytes" where
  "le_put64 w = rev (put64 w)"

text \<open>\<open>xorWords\<close> yields the bytes it writes; each step of its first loop does one period of the stream.\<close>

function xorWords :: "bytes \<Rightarrow> bytes \<Rightarrow> bytes" where
  "xorWords src stream =
     (if 32 \<le> length src
      then le_put64 (le_get64 (subslice 0 8 src) XOR le_get64 (subslice 0 8 stream))
         @ le_put64 (le_get64 (subslice 8 16 src) XOR le_get64 (subslice 8 16 stream))
         @ le_put64 (le_get64 (subslice 16 24 src) XOR le_get64 (subslice 16 24 stream))
         @ le_put64 (le_get64 (subslice 24 32 src) XOR le_get64 (subslice 24 32 stream))
         @ xorWords (drop 32 src) stream
      else map (\<lambda>i. src ! i XOR stream ! i) [0..<length src])"
  by pat_completeness auto
termination
  by (relation "measure (\<lambda>(src, stream). length src)") auto

declare xorWords.simps [simp del]

section \<open>Packets\<close>

definition encodeWithPair :: "hash256 \<Rightarrow> bytes option \<Rightarrow> bytes \<Rightarrow> nat \<Rightarrow> digestPair \<Rightarrow> obfs_error + bytes" where
  "encodeWithPair H rand payload room pair =
     (if length payload = 0 \<or> length payload + SalamanderHeaderSize > maxUDPPayload then Inl PayloadLength
      else if room < length payload + SalamanderHeaderSize then Inl BufferTooShort
      else case rand of
        None \<Rightarrow> Inl RandomFailed
      | Some salt \<Rightarrow> Inr (salt @ deriveHint H pair salt @ xorWords payload (deriveStream H pair salt)))"

definition encode :: "hash256 \<Rightarrow> bytes option \<Rightarrow> bytes \<Rightarrow> nat \<Rightarrow> obfsKey \<Rightarrow> obfs_error + bytes" where
  "encode H rand payload room key = encodeWithPair H rand payload room (newDigestPair key)"

text \<open>The loop of \<open>encodeSegmentsWithPair\<close>; \<open>rand i\<close> is what the \<open>i\<close>-th read of the random generator yields.\<close>

function segment_loop ::
  "hash256 \<Rightarrow> (nat \<Rightarrow> bytes option) \<Rightarrow> nat \<Rightarrow> bytes \<Rightarrow> nat \<Rightarrow> digestPair \<Rightarrow> nat \<Rightarrow> obfs_error + bytes" where
  "segment_loop H rand i payload room pair segmentSize =
     (if payload = [] \<or> segmentSize = 0 then Inr []
      else let chunk = min segmentSize (length payload)
      in case encodeWithPair H (rand i) (take chunk payload) room pair of
           Inl e \<Rightarrow> Inl e
         | Inr out \<Rightarrow>
             (case segment_loop H rand (Suc i) (drop chunk payload) (room - length out) pair segmentSize of
                Inl e \<Rightarrow> Inl e
              | Inr rest \<Rightarrow> Inr (out @ rest)))"
  by pat_completeness auto
termination
  by (relation "measure (\<lambda>(H, rand, i, payload, room, pair, n). length payload)") (auto simp: min_def)

declare segment_loop.simps [simp del]

definition encodeSegmentsWithPair ::
  "hash256 \<Rightarrow> (nat \<Rightarrow> bytes option) \<Rightarrow> bytes \<Rightarrow> nat \<Rightarrow> digestPair \<Rightarrow> int \<Rightarrow> obfs_error + bytes" where
  "encodeSegmentsWithPair H rand payload room pair segmentSize =
     (if segmentSize \<le> 0 \<or> segmentSize \<ge> int (length payload) then encodeWithPair H (rand 0) payload room pair
      else segment_loop H rand 0 payload room pair (nat segmentSize))"

definition encodeSegments :: "hash256 \<Rightarrow> (nat \<Rightarrow> bytes option) \<Rightarrow> bytes \<Rightarrow> nat \<Rightarrow> obfsKey \<Rightarrow> int \<Rightarrow> obfs_error + bytes" where
  "encodeSegments H rand payload room key segmentSize =
     encodeSegmentsWithPair H rand payload room (newDigestPair key) segmentSize"

definition EncodedLength :: "int \<Rightarrow> int" where
  "EncodedLength plainLength = plainLength + int SalamanderHeaderSize"

definition Salt :: "bytes \<Rightarrow> u64" where
  "Salt packet = (if length packet < SalamanderSaltSize then 0 else get64 (subslice 0 SalamanderSaltSize packet))"

text \<open>A control message of the kernel, as \<open>unix.ParseOneSocketControlMessage\<close> reads it; \<open>IPPROTO_UDP\<close> is 17,
  \<open>UDP_SEGMENT\<close> is 103.  The size is grown in place.\<close>

datatype cmsg = Cmsg int int bytes | BadCmsg

definition le_get16 :: "bytes \<Rightarrow> u16" where
  "le_get16 bs = get16 (rev bs)"

definition le_put16 :: "u16 \<Rightarrow> bytes" where
  "le_put16 w = rev (put16 w)"

fun growGSOSegmentSize :: "cmsg list \<Rightarrow> nat \<Rightarrow> obfs_error + (cmsg list \<times> u16)" where
  "growGSOSegmentSize [] overhead = Inr ([], 0)"
| "growGSOSegmentSize (BadCmsg # oob) overhead = Inl BadControlMessage"
| "growGSOSegmentSize (Cmsg level type body # oob) overhead =
     (if level = 17 \<and> type = 103
      then (if length body \<noteq> 2 then Inl BadSegmentMessage
            else let n = le_get16 body
                 in if unat n + overhead > 65535 then Inl SegmentSizeOverflow
                    else Inr (Cmsg level type (le_put16 (n + of_nat overhead)) # oob, n))
      else case growGSOSegmentSize oob overhead of
             Inl e \<Rightarrow> Inl e
           | Inr (oob', n) \<Rightarrow> Inr (Cmsg level type body # oob', n))"

section \<open>The stream cipher\<close>

definition xor_stream :: "bytes \<Rightarrow> bytes \<Rightarrow> bytes" where
  "xor_stream src stream = map (\<lambda>i. src ! i XOR stream ! (i mod 32)) [0..<length src]"

lemma length_xor_stream [simp]: "length (xor_stream src stream) = length src"
  by (simp add: xor_stream_def)

lemma be_bytes_xor: "be_bytes n (a XOR b) = map2 (XOR) (be_bytes n a) (be_bytes n b)"
proof (induction n arbitrary: a b)
  case (Suc n)
  have d: "x div 256 = drop_bit 8 x" for x :: nat by (simp add: drop_bit_eq_div)
  have "be_bytes n ((a XOR b) div 256) = map2 (XOR) (be_bytes n (a div 256)) (be_bytes n (b div 256))"
    unfolding d drop_bit_xor by (rule Suc)
  then show ?case by (simp add: of_nat_xor_eq)
qed simp

lemma le_put64_xor: "le_put64 (a XOR b) = map2 (XOR) (le_put64 a) (le_put64 b)"
  by (simp add: le_put64_def put64_def unsigned_xor_eq be_bytes_xor rev_map [symmetric] zip_rev)

lemma le_put_get64: "length bs = 8 \<Longrightarrow> le_put64 (le_get64 bs) = bs"
  by (simp add: le_put64_def le_get64_def)

lemma xor_word: "length a = 8 \<Longrightarrow> length b = 8 \<Longrightarrow> le_put64 (le_get64 a XOR le_get64 b) = map2 (XOR) a b"
  by (simp add: le_put64_xor le_put_get64)

lemma slices_of_32:
  "32 \<le> length xs \<Longrightarrow> subslice 0 8 xs @ subslice 8 16 xs @ subslice 16 24 xs @ subslice 24 32 xs = take 32 xs"
  by (rule nth_equalityI) (auto simp: subslice_def nth_append)

lemma xor_stream_step:
  assumes "length stream = 32" "32 \<le> length src"
  shows "xor_stream src stream = map2 (XOR) (take 32 src) stream @ xor_stream (drop 32 src) stream"
  using assms by (intro nth_equalityI) (auto simp: xor_stream_def nth_append le_mod_geq not_less)

lemma xorWords_reference: "length stream = 32 \<Longrightarrow> xorWords src stream = xor_stream src stream"
proof (induction src stream rule: xorWords.induct)
  case (1 src stream)
  show ?case
  proof (cases "32 \<le> length src")
    case True
    let ?w = "\<lambda>a. le_put64 (le_get64 (subslice a (a + 8) src) XOR le_get64 (subslice a (a + 8) stream))"
    let ?s = "\<lambda>xs :: bytes. subslice 0 8 xs @ subslice 8 16 xs @ subslice 16 24 xs @ subslice 24 32 xs"
    have w: "?w a = map2 (XOR) (subslice a (a + 8) src) (subslice a (a + 8) stream)" if "a \<le> 24" for a
      using that True 1(2) by (intro xor_word) simp_all
    have "?w 0 @ ?w 8 @ ?w 16 @ ?w 24 = map2 (XOR) (?s src) (?s stream)"
      using True 1(2) w [of 0] w [of 8] w [of 16] w [of 24] by simp
    also have "\<dots> = map2 (XOR) (take 32 src) stream"
      using slices_of_32 [of src] slices_of_32 [of stream] True 1(2) by simp
    finally have "?w 0 @ ?w 8 @ ?w 16 @ ?w 24 = map2 (XOR) (take 32 src) stream" .
    with 1 True xor_stream_step [OF 1(2) True] show ?thesis by (simp add: xorWords.simps [of src stream])
  next
    case False
    then show ?thesis by (simp add: xorWords.simps [of src stream] xor_stream_def)
  qed
qed

lemma xor_stream_invol: "xor_stream (xor_stream src stream) stream = src"
  by (rule nth_equalityI) (simp_all add: xor_stream_def xor.assoc)

section \<open>The connection\<close>

record receiveKey =
  rk_key :: obfsKey
  rk_pair :: digestPair

record SalamanderConn =
  sc_outbound :: "(addrPort \<times> obfsKey) list"
  sc_keyRefs :: "(obfsKey \<times> int) list"
  sc_keyOrder :: "obfsKey list"
  sc_keyPairs :: "(obfsKey \<times> digestPair) list"
  sc_keySet :: "receiveKey list option"
  sc_lastKey :: "receiveKey option"
  sc_learned :: "(addrPort \<times> obfsKey) list"
  sc_writeDigests :: "(obfsKey \<times> digestPair) list"

record PeerKey =
  pk_Key :: obfsKey
  pk_Endpoint :: addrPort

definition key_refs :: "SalamanderConn \<Rightarrow> obfsKey \<Rightarrow> int" where
  "key_refs c key = (case map_of (sc_keyRefs c) key of None \<Rightarrow> 0 | Some n \<Rightarrow> n)"

definition addReceiveKeyLocked :: "obfsKey \<Rightarrow> SalamanderConn \<Rightarrow> SalamanderConn" where
  "addReceiveKeyLocked key c =
     (let c1 = (if key_refs c key = 0
                then c\<lparr>sc_keyOrder := sc_keyOrder c @ [key], sc_keyPairs := AList.update key (newDigestPair key) (sc_keyPairs c)\<rparr>
                else c)
      in c1\<lparr>sc_keyRefs := AList.update key (key_refs c1 key + 1) (sc_keyRefs c1)\<rparr>)"

definition publishReceiveKeysLocked :: "SalamanderConn \<Rightarrow> SalamanderConn" where
  "publishReceiveKeysLocked c =
     c\<lparr>sc_keySet := Some (map (\<lambda>key. \<lparr>rk_key = key, rk_pair = the (map_of (sc_keyPairs c) key)\<rparr>)
                           (filter (\<lambda>key. key_refs c key \<noteq> 0) (sc_keyOrder c)))\<rparr>"

definition emptyConn :: SalamanderConn where
  "emptyConn = \<lparr>sc_outbound = [], sc_keyRefs = [], sc_keyOrder = [], sc_keyPairs = [], sc_keySet = None,
     sc_lastKey = None, sc_learned = [], sc_writeDigests = []\<rparr>"

text \<open>The loop over the peers, with the keys seen so far.\<close>

definition wrap_peer :: "PeerKey \<Rightarrow> obfsKey list \<times> SalamanderConn \<Rightarrow> obfsKey list \<times> SalamanderConn" where
  "wrap_peer p acc =
     (let (seen, c) = acc;
          (seen, c) = (if pk_Key p \<in> set seen then (seen, c) else (pk_Key p # seen, addReceiveKeyLocked (pk_Key p) c))
      in (seen, if AddrPort_IsValid (pk_Endpoint p)
                then c\<lparr>sc_outbound := AList.update (canonicalAddrPort (pk_Endpoint p)) (pk_Key p) (sc_outbound c)\<rparr> else c))"

definition WrapKeyedSalamander :: "PeerKey list \<Rightarrow> SalamanderConn" where
  "WrapKeyedSalamander peers = publishReceiveKeysLocked (snd (fold wrap_peer peers ([], emptyConn)))"

definition acquireReceiveKey :: "obfsKey \<Rightarrow> SalamanderConn \<Rightarrow> SalamanderConn" where
  "acquireReceiveKey key c = publishReceiveKeysLocked (addReceiveKeyLocked key c)"

definition releaseReceiveKey :: "obfsKey \<Rightarrow> SalamanderConn \<Rightarrow> SalamanderConn" where
  "releaseReceiveKey key c =
     (let refs = key_refs c key;
          c1 = (if refs \<le> 1
                then c\<lparr>sc_keyRefs := AList.delete key (sc_keyRefs c), sc_keyPairs := AList.delete key (sc_keyPairs c),
                       sc_keyOrder := remove1 key (sc_keyOrder c)\<rparr>
                else c\<lparr>sc_keyRefs := AList.update key (refs - 1) (sc_keyRefs c)\<rparr>);
          c2 = (case sc_lastKey c1 of
                  None \<Rightarrow> c1
                | Some cached \<Rightarrow> if rk_key cached = key then c1\<lparr>sc_lastKey := None\<rparr> else c1)
      in publishReceiveKeysLocked c2)"

text \<open>\<open>decode\<close> loads the published keys and then works on the loaded list: \<open>decode_with\<close> is the part
  after the load, and a release by another goroutine may come in between.  It yields the payload and the key.\<close>

definition hint_matches :: "hash256 \<Rightarrow> bytes \<Rightarrow> receiveKey \<Rightarrow> bool" where
  "hint_matches H packet rk \<longleftrightarrow>
     subslice SalamanderSaltSize SalamanderHeaderSize packet = deriveHint H (rk_pair rk) (subslice 0 SalamanderSaltSize packet)"

definition open_packet :: "hash256 \<Rightarrow> bytes \<Rightarrow> receiveKey \<Rightarrow> bytes" where
  "open_packet H packet rk =
     xorWords (drop SalamanderHeaderSize packet) (deriveStream H (rk_pair rk) (subslice 0 SalamanderSaltSize packet))"

definition decode_with ::
  "hash256 \<Rightarrow> receiveKey list \<Rightarrow> bytes \<Rightarrow> SalamanderConn \<Rightarrow> SalamanderConn \<times> (bytes \<times> obfsKey) option" where
  "decode_with H loaded packet c =
     (case sc_lastKey c of
        Some cached \<Rightarrow>
          if hint_matches H packet cached then (c, Some (open_packet H packet cached, rk_key cached))
          else (case find (hint_matches H packet) loaded of
                  None \<Rightarrow> (c, None)
                | Some rk \<Rightarrow> (c\<lparr>sc_lastKey := Some rk\<rparr>, Some (open_packet H packet rk, rk_key rk)))
      | None \<Rightarrow>
          (case find (hint_matches H packet) loaded of
             None \<Rightarrow> (c, None)
           | Some rk \<Rightarrow> (c\<lparr>sc_lastKey := Some rk\<rparr>, Some (open_packet H packet rk, rk_key rk))))"

definition decode :: "hash256 \<Rightarrow> bytes \<Rightarrow> nat \<Rightarrow> SalamanderConn \<Rightarrow> SalamanderConn \<times> (bytes \<times> obfsKey) option" where
  "decode H packet room c =
     (if length packet \<le> SalamanderHeaderSize \<or> room < length packet - SalamanderHeaderSize then (c, None)
      else case sc_keySet c of None \<Rightarrow> (c, None) | Some loaded \<Rightarrow> decode_with H loaded packet c)"

definition remember :: "UDPAddr option \<Rightarrow> obfsKey \<Rightarrow> SalamanderConn \<Rightarrow> SalamanderConn" where
  "remember addr key c =
     (case udpAddrPort addr of
        None \<Rightarrow> c
      | Some ap \<Rightarrow>
          if map_of (sc_learned c) ap = Some key then c
          else let m = (if length (sc_learned c) \<ge> maxLearnedEndpoints then [] else sc_learned c)
               in c\<lparr>sc_learned := AList.update ap key m\<rparr>)"

definition keyForAddress :: "UDPAddr option \<Rightarrow> SalamanderConn \<Rightarrow> obfs_error + obfsKey" where
  "keyForAddress addr c =
     (case udpAddrPort addr of
        None \<Rightarrow> Inl InvalidDestination
      | Some ap \<Rightarrow>
          (case map_of (sc_outbound c) ap of
             Some key \<Rightarrow> Inr key
           | None \<Rightarrow>
               (case map_of (sc_learned c) ap of
                  Some key \<Rightarrow> Inr key
                | None \<Rightarrow>
                    (case sc_keySet c of
                       Some [rk] \<Rightarrow> Inr (rk_key rk)
                     | _ \<Rightarrow> Inl (NoKeyFor ap)))))"

definition AssociateEndpoint :: "addrPort \<Rightarrow> obfsKey \<Rightarrow> SalamanderConn \<Rightarrow> SalamanderConn" where
  "AssociateEndpoint addr key c =
     (if \<not> AddrPort_IsValid addr then c
      else c\<lparr>sc_outbound := AList.update (canonicalAddrPort addr) key (sc_outbound c)\<rparr>)"

definition DisassociateEndpoint :: "addrPort \<Rightarrow> obfsKey \<Rightarrow> SalamanderConn \<Rightarrow> SalamanderConn" where
  "DisassociateEndpoint addr expected c =
     (if \<not> AddrPort_IsValid addr then c
      else let addr = canonicalAddrPort addr
           in if map_of (sc_outbound c) addr = Some expected then c\<lparr>sc_outbound := AList.delete addr (sc_outbound c)\<rparr> else c)"

text \<open>Reading: the datagrams the socket delivers, in order.  \<open>None\<close> is a reader that still waits.\<close>

fun readFromUDP :: "hash256 \<Rightarrow> (UDPAddr option \<times> bytes) list \<Rightarrow> nat \<Rightarrow> SalamanderConn \<Rightarrow>
    SalamanderConn \<times> (UDPAddr option \<times> bytes) list \<times> (UDPAddr option \<times> bytes) option" where
  "readFromUDP H [] room c = (c, [], None)"
| "readFromUDP H ((addr, packet) # rest) room c =
     (case decode H packet room c of
        (c, None) \<Rightarrow> readFromUDP H rest room c
      | (c, Some (payload, key)) \<Rightarrow> (remember addr key c, rest, Some (addr, payload)))"

text \<open>One pass of \<open>ReadBatch\<close> over the received messages; \<open>rooms\<close> holds the sizes of the output
  buffers, the next one first, \<open>None\<close> for a message without one.  A message without a UDP address is decoded and then skipped.\<close>

fun batch_pass :: "hash256 \<Rightarrow> (UDPAddr option \<times> bytes) list \<Rightarrow> nat option list \<Rightarrow> SalamanderConn \<Rightarrow> SalamanderConn \<times> (UDPAddr option \<times> bytes) list" where
  "batch_pass H [] rooms c = (c, [])"
| "batch_pass H (m # ms) [] c = (c, [])"
| "batch_pass H (m # ms) (None # rooms) c = batch_pass H ms (None # rooms) c"
| "batch_pass H ((addr, packet) # ms) (Some room # rooms) c =
     (case decode H packet room c of
        (c, None) \<Rightarrow> batch_pass H ms (Some room # rooms) c
      | (c, Some (payload, key)) \<Rightarrow>
          if addr = None then batch_pass H ms (Some room # rooms) c
          else let (c, out) = batch_pass H ms rooms (remember addr key c) in (c, (addr, payload) # out))"

definition WriteToUDP :: "hash256 \<Rightarrow> bytes option \<Rightarrow> bytes \<Rightarrow> UDPAddr option \<Rightarrow> SalamanderConn \<Rightarrow> SalamanderConn \<times> (obfs_error + bytes)" where
  "WriteToUDP H rand payload addr c =
     (case keyForAddress addr c of
        Inl e \<Rightarrow> (c, Inl e)
      | Inr key \<Rightarrow>
          let (cache, pair) = digestPairFor key (sc_writeDigests c)
          in (c\<lparr>sc_writeDigests := cache\<rparr>, encodeWithPair H rand payload maxUDPPayload pair))"

definition WriteMsgUDP :: "hash256 \<Rightarrow> (nat \<Rightarrow> bytes option) \<Rightarrow> bytes \<Rightarrow> cmsg list \<Rightarrow> UDPAddr option \<Rightarrow> SalamanderConn \<Rightarrow>
    SalamanderConn \<times> (obfs_error + bytes \<times> cmsg list)" where
  "WriteMsgUDP H rand payload oob addr c =
     (case keyForAddress addr c of
        Inl e \<Rightarrow> (c, Inl e)
      | Inr key \<Rightarrow>
          (case growGSOSegmentSize oob SalamanderHeaderSize of
             Inl e \<Rightarrow> (c, Inl e)
           | Inr (oob', gsoSize) \<Rightarrow>
               let (cache, pair) = digestPairFor key (sc_writeDigests c)
               in (c\<lparr>sc_writeDigests := cache\<rparr>,
                   map_sum id (\<lambda>out. (out, oob')) (encodeSegmentsWithPair H rand payload maxUDPPayload pair (int (unat gsoSize))))))"

section \<open>The registered keys\<close>

definition rk_of :: "obfsKey \<Rightarrow> receiveKey" where
  "rk_of key = \<lparr>rk_key = key, rk_pair = newDigestPair key\<rparr>"

lemma rk_key_of [simp]: "rk_key (rk_of key) = key" "rk_pair (rk_of key) = newDigestPair key"
  by (simp_all add: rk_of_def)

text \<open>The counts and the two other views of the registered keys agree, \<open>refs\<close> says how often each is held.\<close>

definition keys_ok :: "(obfsKey \<Rightarrow> nat) \<Rightarrow> SalamanderConn \<Rightarrow> bool" where
  "keys_ok refs c \<longleftrightarrow> distinct (sc_keyOrder c) \<and> set (sc_keyOrder c) = {k. 0 < refs k}
     \<and> (\<forall>k. map_of (sc_keyRefs c) k = (if 0 < refs k then Some (int (refs k)) else None))
     \<and> (\<forall>k. map_of (sc_keyPairs c) k = (if 0 < refs k then Some (newDigestPair k) else None))"

definition published :: "SalamanderConn \<Rightarrow> bool" where
  "published c \<longleftrightarrow> sc_keySet c = Some (map rk_of (sc_keyOrder c))
     \<and> (\<forall>rk. sc_lastKey c = Some rk \<longrightarrow> rk = rk_of (rk_key rk) \<and> rk_key rk \<in> set (sc_keyOrder c))"

definition addrs_ok :: "SalamanderConn \<Rightarrow> bool" where
  "addrs_ok c \<longleftrightarrow> gomap_ok (sc_learned c) \<and> length (sc_learned c) \<le> maxLearnedEndpoints
     \<and> (\<forall>k p. map_of (sc_writeDigests c) k = Some p \<longrightarrow> p = newDigestPair k)"

lemma key_refs_ok: "keys_ok refs c \<Longrightarrow> key_refs c k = int (refs k)"
  by (auto simp: key_refs_def keys_ok_def)

lemma addReceiveKey_ok:
  assumes "keys_ok refs c"
  shows "keys_ok (refs(key := refs key + 1)) (addReceiveKeyLocked key c)"
proof -
  define c1 where "c1 = (if key_refs c key = 0
     then c\<lparr>sc_keyOrder := sc_keyOrder c @ [key], sc_keyPairs := AList.update key (newDigestPair key) (sc_keyPairs c)\<rparr> else c)"
  have r1: "sc_keyRefs c1 = sc_keyRefs c" by (simp add: c1_def)
  then have k1: "key_refs c1 key = int (refs key)" using key_refs_ok [OF assms, of key] by (simp add: key_refs_def)
  have "addReceiveKeyLocked key c = c1\<lparr>sc_keyRefs := AList.update key (int (refs key) + 1) (sc_keyRefs c)\<rparr>"
    unfolding addReceiveKeyLocked_def c1_def [symmetric] Let_def r1 k1 ..
  moreover have "keys_ok refs c \<Longrightarrow> 0 < refs key \<Longrightarrow> key \<in> set (sc_keyOrder c)" by (simp add: keys_ok_def)
  ultimately show ?thesis
    using assms key_refs_ok [OF assms, of key] by (auto simp: keys_ok_def c1_def gomap_lookup_update)
qed

lemma publish_ok: "keys_ok refs c \<Longrightarrow> sc_keySet (publishReceiveKeysLocked c) = Some (map rk_of (sc_keyOrder c))"
  by (auto simp: publishReceiveKeysLocked_def keys_ok_def key_refs_def rk_of_def filter_id_conv intro!: map_cong)

lemma publish_fields [simp]:
  "sc_keyOrder (publishReceiveKeysLocked c) = sc_keyOrder c" "sc_keyRefs (publishReceiveKeysLocked c) = sc_keyRefs c"
  "sc_keyPairs (publishReceiveKeysLocked c) = sc_keyPairs c" "sc_lastKey (publishReceiveKeysLocked c) = sc_lastKey c"
  "sc_learned (publishReceiveKeysLocked c) = sc_learned c" "sc_writeDigests (publishReceiveKeysLocked c) = sc_writeDigests c"
  "sc_outbound (publishReceiveKeysLocked c) = sc_outbound c"
  by (simp_all add: publishReceiveKeysLocked_def)

lemma addReceiveKey_fields [simp]:
  "sc_lastKey (addReceiveKeyLocked key c) = sc_lastKey c" "sc_learned (addReceiveKeyLocked key c) = sc_learned c"
  "sc_writeDigests (addReceiveKeyLocked key c) = sc_writeDigests c" "sc_outbound (addReceiveKeyLocked key c) = sc_outbound c"
  "set (sc_keyOrder c) \<subseteq> set (sc_keyOrder (addReceiveKeyLocked key c))"
  by (auto simp: addReceiveKeyLocked_def Let_def)

lemma keys_ok_publish [simp]: "keys_ok refs (publishReceiveKeysLocked c) = keys_ok refs c"
  by (simp add: keys_ok_def)

lemma acquire_ok:
  assumes "keys_ok refs c" "published c"
  shows "keys_ok (refs(key := refs key + 1)) (acquireReceiveKey key c)" "published (acquireReceiveKey key c)"
proof -
  note a = addReceiveKey_ok [OF assms(1), of key]
  then show "keys_ok (refs(key := refs key + 1)) (acquireReceiveKey key c)" by (simp add: acquireReceiveKey_def)
  show "published (acquireReceiveKey key c)"
    using assms(2) publish_ok [OF a] subsetD [OF addReceiveKey_fields(5) [of c key]]
    unfolding published_def acquireReceiveKey_def by simp
qed

lemma release_ok:
  assumes k: "keys_ok refs c" and p: "published c" and r: "0 < refs key"
  shows "keys_ok (refs(key := refs key - 1)) (releaseReceiveKey key c)" "published (releaseReceiveKey key c)"
proof -
  define c1 where "c1 = (if refs key \<le> 1
     then c\<lparr>sc_keyRefs := AList.delete key (sc_keyRefs c), sc_keyPairs := AList.delete key (sc_keyPairs c),
            sc_keyOrder := remove1 key (sc_keyOrder c)\<rparr>
     else c\<lparr>sc_keyRefs := AList.update key (int (refs key) - 1) (sc_keyRefs c)\<rparr>)"
  define c2 where "c2 = (case sc_lastKey c1 of None \<Rightarrow> c1 | Some cached \<Rightarrow> if rk_key cached = key then c1\<lparr>sc_lastKey := None\<rparr> else c1)"
  have rel: "releaseReceiveKey key c = publishReceiveKeysLocked c2"
    unfolding releaseReceiveKey_def key_refs_ok [OF k] c1_def c2_def Let_def
    by (cases "refs key \<le> 1") simp_all
  have s: "sc_keyOrder c2 = sc_keyOrder c1" "sc_keyRefs c2 = sc_keyRefs c1" "sc_keyPairs c2 = sc_keyPairs c1"
    by (auto simp: c2_def split: option.splits)
  have "keys_ok (refs(key := refs key - 1)) c1"
    using k r by (auto simp: keys_ok_def c1_def gomap_lookup_update gomap_lookup_delete)
  then have k2: "keys_ok (refs(key := refs key - 1)) c2" by (simp add: keys_ok_def s)
  then show "keys_ok (refs(key := refs key - 1)) (releaseReceiveKey key c)" by (simp add: rel)
  have l: "sc_lastKey c2 = Some rk \<Longrightarrow> sc_lastKey c = Some rk \<and> rk_key rk \<noteq> key" for rk
    by (auto simp: c2_def c1_def split: option.splits if_splits)
  have o: "x \<in> set (sc_keyOrder c) \<Longrightarrow> x \<noteq> key \<Longrightarrow> x \<in> set (sc_keyOrder c1)" for x
    by (simp add: c1_def)
  show "published (releaseReceiveKey key c)"
    using p l o unfolding rel published_def publish_ok [OF k2] publish_fields s by blast
qed

lemma decode_ok:
  assumes "keys_ok refs c" "published c" "addrs_ok c"
  shows "keys_ok refs (fst (decode H packet room c))" "published (fst (decode H packet room c))" "addrs_ok (fst (decode H packet room c))"
proof -
  have "find P (map rk_of (sc_keyOrder c)) = Some rk \<Longrightarrow> rk = rk_of (rk_key rk) \<and> rk_key rk \<in> set (sc_keyOrder c)" for P rk
    by (auto simp: find_Some_iff)
  then show "keys_ok refs (fst (decode H packet room c))" "published (fst (decode H packet room c))" "addrs_ok (fst (decode H packet room c))"
    using assms by (auto simp: decode_def decode_with_def keys_ok_def published_def addrs_ok_def split: option.splits)
qed

lemma remember_ok:
  assumes "keys_ok refs c" "published c" "addrs_ok c"
  shows "keys_ok refs (remember addr key c)" "published (remember addr key c)" "addrs_ok (remember addr key c)"
proof -
  have "length (AList.update ap key m) \<le> maxLearnedEndpoints" if "length m < maxLearnedEndpoints" for ap m
    using that by (cases "map_of m ap") (simp_all add: length_update_new length_update_old)
  moreover have "maxLearnedEndpoints > 0" "\<And>e :: addrPort \<times> obfsKey. gomap_ok [e]" by (simp_all add: obfs_consts gomap_ok_def)
  ultimately show "keys_ok refs (remember addr key c)" "published (remember addr key c)" "addrs_ok (remember addr key c)"
    using assms by (auto simp: remember_def keys_ok_def published_def addrs_ok_def Let_def not_le split: option.splits)
qed

lemma write_ok:
  assumes "keys_ok refs c" "published c" "addrs_ok c"
  shows "keys_ok refs (fst (WriteMsgUDP H rand payload oob addr c))" "published (fst (WriteMsgUDP H rand payload oob addr c))"
    "addrs_ok (fst (WriteMsgUDP H rand payload oob addr c))"
  using assms by (auto simp: WriteMsgUDP_def digestPairFor_def keys_ok_def published_def addrs_ok_def Let_def gomap_lookup_update
      split: sum.splits prod.splits option.splits if_splits)

lemma write_to_ok:
  assumes "keys_ok refs c" "published c" "addrs_ok c"
  shows "keys_ok refs (fst (WriteToUDP H r payload addr c))" "published (fst (WriteToUDP H r payload addr c))"
    "addrs_ok (fst (WriteToUDP H r payload addr c))"
  using assms by (auto simp: WriteToUDP_def digestPairFor_def keys_ok_def published_def addrs_ok_def Let_def gomap_lookup_update
      split: sum.splits prod.splits option.splits if_splits)

lemma associate_ok:
  assumes "keys_ok refs c" "published c" "addrs_ok c"
  shows "keys_ok refs (AssociateEndpoint addr key c)" "published (AssociateEndpoint addr key c)" "addrs_ok (AssociateEndpoint addr key c)"
    "keys_ok refs (DisassociateEndpoint addr key c)" "published (DisassociateEndpoint addr key c)" "addrs_ok (DisassociateEndpoint addr key c)"
  using assms by (auto simp: AssociateEndpoint_def DisassociateEndpoint_def keys_ok_def published_def addrs_ok_def Let_def)

text \<open>The keys of the configured peers are held once each for good.\<close>

definition peer_refs :: "obfsKey set \<Rightarrow> obfsKey \<Rightarrow> nat" where
  "peer_refs S k = (if k \<in> S then 1 else 0)"

lemma wrap_fold:
  assumes "keys_ok (peer_refs (set seen)) c" "sc_lastKey c = None" "addrs_ok c"
  shows "let (seen', c') = fold wrap_peer peers (seen, c)
     in keys_ok (peer_refs (set seen')) c' \<and> sc_lastKey c' = None \<and> addrs_ok c' \<and> set seen' = set seen \<union> pk_Key ` set peers"
  using assms
proof (induction peers arbitrary: seen c)
  case Nil
  then show ?case by simp
next
  case (Cons p peers)
  define c1 where "c1 = (if pk_Key p \<in> set seen then c else addReceiveKeyLocked (pk_Key p) c)"
  define seen1 where "seen1 = (if pk_Key p \<in> set seen then seen else pk_Key p # seen)"
  define c2 where "c2 = (if AddrPort_IsValid (pk_Endpoint p)
     then c1\<lparr>sc_outbound := AList.update (canonicalAddrPort (pk_Endpoint p)) (pk_Key p) (sc_outbound c1)\<rparr> else c1)"
  have w: "wrap_peer p (seen, c) = (seen1, c2)" by (simp add: wrap_peer_def c1_def c2_def seen1_def Let_def)
  have "(peer_refs (set seen))(pk_Key p := peer_refs (set seen) (pk_Key p) + 1) = peer_refs (set (pk_Key p # seen))"
    if "pk_Key p \<notin> set seen" using that by (auto simp: peer_refs_def)
  then have "keys_ok (peer_refs (set seen1)) c1"
    using Cons.prems(1) addReceiveKey_ok [OF Cons.prems(1), of "pk_Key p"] by (auto simp: c1_def seen1_def)
  then have 1: "keys_ok (peer_refs (set seen1)) c2" by (simp add: c2_def keys_ok_def)
  have 2: "sc_lastKey c2 = None" using Cons.prems(2) by (simp add: c2_def c1_def)
  have 3: "addrs_ok c2" using Cons.prems(3) by (simp add: c2_def c1_def addrs_ok_def)
  have 4: "set seen1 \<union> pk_Key ` set peers = set seen \<union> pk_Key ` set (p # peers)" by (auto simp: seen1_def)
  from Cons.IH [OF 1 2 3] 4 show ?case by (simp add: w case_prod_unfold)
qed

lemma wrap_ok:
  "keys_ok (peer_refs (pk_Key ` set peers)) (WrapKeyedSalamander peers)" "published (WrapKeyedSalamander peers)"
  "addrs_ok (WrapKeyedSalamander peers)"
proof -
  have 0: "keys_ok (peer_refs (set [])) emptyConn" "sc_lastKey emptyConn = None" "addrs_ok emptyConn"
    by (simp_all add: keys_ok_def emptyConn_def peer_refs_def addrs_ok_def)
  obtain seen c where f: "fold wrap_peer peers ([], emptyConn) = (seen, c)" by force
  from wrap_fold [OF 0, of peers] have c: "keys_ok (peer_refs (pk_Key ` set peers)) c" "sc_lastKey c = None" "addrs_ok c"
    by (auto simp: f)
  then show "keys_ok (peer_refs (pk_Key ` set peers)) (WrapKeyedSalamander peers)" by (simp add: WrapKeyedSalamander_def f)
  show "published (WrapKeyedSalamander peers)"
    using c(2) publish_ok [OF c(1)] by (simp add: WrapKeyedSalamander_def f published_def)
  show "addrs_ok (WrapKeyedSalamander peers)" using c(3) by (simp add: WrapKeyedSalamander_def f addrs_ok_def)
qed

text \<open>Runs of a connection.  The last argument lists the keys of the leases that \<open>AcquireReceiveKey\<close> handed out
  and that were not released yet; a lease is released once.\<close>

inductive conn_run :: "hash256 \<Rightarrow> PeerKey list \<Rightarrow> SalamanderConn \<Rightarrow> obfsKey list \<Rightarrow> bool" for H peers where
  run_wrap: "conn_run H peers (WrapKeyedSalamander peers) []"
| run_acquire: "conn_run H peers c ls \<Longrightarrow> conn_run H peers (acquireReceiveKey key c) (key # ls)"
| run_release: "conn_run H peers c ls \<Longrightarrow> key \<in> set ls \<Longrightarrow> conn_run H peers (releaseReceiveKey key c) (remove1 key ls)"
| run_decode: "conn_run H peers c ls \<Longrightarrow> conn_run H peers (fst (decode H packet room c)) ls"
| run_remember: "conn_run H peers c ls \<Longrightarrow> conn_run H peers (remember addr key c) ls"
| run_write: "conn_run H peers c ls \<Longrightarrow> conn_run H peers (fst (WriteMsgUDP H rand payload oob addr c)) ls"
| run_write_to: "conn_run H peers c ls \<Longrightarrow> conn_run H peers (fst (WriteToUDP H r payload addr c)) ls"
| run_associate: "conn_run H peers c ls \<Longrightarrow> conn_run H peers (AssociateEndpoint ap key c) ls"
| run_disassociate: "conn_run H peers c ls \<Longrightarrow> conn_run H peers (DisassociateEndpoint ap key c) ls"

definition held :: "PeerKey list \<Rightarrow> obfsKey list \<Rightarrow> obfsKey \<Rightarrow> nat" where
  "held peers ls k = peer_refs (pk_Key ` set peers) k + count_list ls k"

lemma count_list_remove1: "key \<in> set ls \<Longrightarrow> count_list (remove1 key ls) k = count_list ls k - (if k = key then 1 else 0)"
  by (induction ls) auto

lemma conn_run_ok: "conn_run H peers c ls \<Longrightarrow> keys_ok (held peers ls) c \<and> published c \<and> addrs_ok c"
proof (induction rule: conn_run.induct)
  case run_wrap
  have "held peers [] = peer_refs (pk_Key ` set peers)" by (rule ext) (simp add: held_def)
  then show ?case using wrap_ok by simp
next
  case (run_acquire c ls key)
  have h: "(held peers ls)(key := held peers ls key + 1) = held peers (key # ls)" by (rule ext) (simp add: held_def)
  have "addrs_ok (acquireReceiveKey key c)" using run_acquire(2) by (simp add: addrs_ok_def acquireReceiveKey_def)
  with acquire_ok [of "held peers ls" c key] run_acquire(2) h show ?case by simp
next
  case (run_release c ls key)
  have n: "0 < count_list ls key" using run_release(2) count_list_0_iff [of ls key] by auto
  have h: "(held peers ls)(key := held peers ls key - 1) = held peers (remove1 key ls)"
    by (rule ext) (use n in \<open>simp add: held_def count_list_remove1 [OF run_release(2)]\<close>)
  have "addrs_ok (releaseReceiveKey key c)"
    using run_release(3) by (auto simp: addrs_ok_def releaseReceiveKey_def Let_def split: option.splits)
  moreover have "0 < held peers ls key" using n by (simp add: held_def)
  ultimately show ?case using release_ok [of "held peers ls" c key] run_release(3) h by simp
qed (auto intro: decode_ok remember_ok write_ok write_to_ok associate_ok)

section \<open>What a receiver makes of what a sender wrote\<close>

definition hash_256 :: "hash256 \<Rightarrow> bool" where
  "hash_256 H \<longleftrightarrow> (\<forall>key msg. length (H key msg) = 32)"

lemma pair_of_key: "deriveHint H (newDigestPair key) salt = packetHint H key salt" "deriveStream H (newDigestPair key) salt = packetStream H key salt"
  by (simp_all add: deriveHint_def deriveStream_def newDigestPair_def packetHint_def packetStream_def keyedHash_def)

lemma packet_lengths: "hash_256 H \<Longrightarrow> length (packetHint H key salt) = 8" "hash_256 H \<Longrightarrow> length (packetStream H key salt) = 32"
  by (simp_all add: hash_256_def packetHint_def packetStream_def keyedHash_def obfs_consts)

text \<open>The packet of a payload under a salt.\<close>

definition sealed :: "hash256 \<Rightarrow> obfsKey \<Rightarrow> bytes \<Rightarrow> bytes \<Rightarrow> bytes" where
  "sealed H key salt payload = salt @ packetHint H key salt @ xor_stream payload (packetStream H key salt)"

lemma encode_sealed:
  assumes "hash_256 H" "encodeWithPair H (Some salt) payload room (newDigestPair key) = Inr out"
  shows "out = sealed H key salt payload" "payload \<noteq> []"
  using assms packet_lengths(2) [OF assms(1)]
  by (auto simp: encodeWithPair_def pair_of_key sealed_def xorWords_reference split: if_splits)

lemma sealed_slices:
  assumes "hash_256 H" "length salt = 8"
  shows "subslice 0 8 (sealed H key salt payload) = salt" "subslice 8 16 (sealed H key salt payload) = packetHint H key salt"
    "drop 16 (sealed H key salt payload) = xor_stream payload (packetStream H key salt)"
    "length (sealed H key salt payload) = length payload + 16"
  using assms packet_lengths [OF assms(1)] by (simp_all add: sealed_def subslice_def)

lemma hint_matches_sealed:
  assumes "hash_256 H" "length salt = 8"
  shows "hint_matches H (sealed H key salt payload) (rk_of k) \<longleftrightarrow> packetHint H key salt = packetHint H k salt"
  using sealed_slices [OF assms] by (simp add: hint_matches_def obfs_consts pair_of_key)

lemma open_sealed:
  assumes "hash_256 H" "length salt = 8"
  shows "open_packet H (sealed H key salt payload) (rk_of key) = payload"
  using sealed_slices [OF assms] packet_lengths(2) [OF assms(1)]
  by (simp add: open_packet_def obfs_consts pair_of_key xorWords_reference xor_stream_invol)

text \<open>No other registered key yields the same hint for the salt.\<close>

definition hint_unique :: "hash256 \<Rightarrow> obfsKey \<Rightarrow> bytes \<Rightarrow> SalamanderConn \<Rightarrow> bool" where
  "hint_unique H key salt c \<longleftrightarrow> (\<forall>k \<in> set (sc_keyOrder c). packetHint H k salt = packetHint H key salt \<longrightarrow> k = key)"

lemma decode_sealed:
  assumes H: "hash_256 H" "length salt = 8" and c: "published c" "key \<in> set (sc_keyOrder c)" "hint_unique H key salt c"
    and p: "payload \<noteq> []" "length payload \<le> room"
  shows "\<exists>c'. decode H (sealed H key salt payload) room c = (c', Some (payload, key)) \<and> published c' \<and> sc_keyOrder c' = sc_keyOrder c"
proof -
  note m = hint_matches_sealed [OF H] and o = open_sealed [OF H]
  have d: "decode H (sealed H key salt payload) room c = decode_with H (map rk_of (sc_keyOrder c)) (sealed H key salt payload) c"
    using c(1) p sealed_slices(4) [OF H, of key payload] by (simp add: decode_def obfs_consts published_def)
  have f: "find (hint_matches H (sealed H key salt payload)) (map rk_of ks) = Some (rk_of key)"
    if "key \<in> set ks" "\<forall>k \<in> set ks. packetHint H k salt = packetHint H key salt \<longrightarrow> k = key" for ks
    using that by (induction ks) (auto simp: m)
  note f' = f [OF c(2) c(3) [unfolded hint_unique_def]]
  show ?thesis
  proof (cases "\<exists>rk. sc_lastKey c = Some rk \<and> hint_matches H (sealed H key salt payload) rk")
    case True
    then obtain rk where rk: "sc_lastKey c = Some rk" "hint_matches H (sealed H key salt payload) rk" by blast
    then have "rk = rk_of (rk_key rk)" "rk_key rk \<in> set (sc_keyOrder c)" using c(1) by (simp_all add: published_def)
    moreover from this rk(2) have "rk_key rk = key" using c(3) m by (metis hint_unique_def)
    ultimately have "rk = rk_of key" by simp
    with rk d o c(1) show ?thesis by (simp add: decode_with_def)
  next
    case False
    then have "decode_with H (map rk_of (sc_keyOrder c)) (sealed H key salt payload) c =
        (c\<lparr>sc_lastKey := Some (rk_of key)\<rparr>, Some (payload, key))"
      using f' o by (auto simp: decode_with_def split: option.splits)
    with d c show ?thesis by (auto simp: published_def)
  qed
qed

text \<open>How the kernel splits a write by the segment size of its control messages.\<close>

function chunks :: "nat \<Rightarrow> 'a list \<Rightarrow> 'a list list" where
  "chunks n xs = (if xs = [] \<or> n = 0 then [] else take n xs # chunks n (drop n xs))"
  by pat_completeness auto
termination
  by (relation "measure (\<lambda>(n, xs). length xs)") auto

declare chunks.simps [simp del]

lemma chunks_single: "xs \<noteq> [] \<Longrightarrow> length xs \<le> n \<Longrightarrow> chunks n xs = [xs]"
  by (subst chunks.simps) (cases xs; simp add: chunks.simps [of n "[]"])

lemma chunks_append: "length a = n \<Longrightarrow> 0 < n \<Longrightarrow> chunks n (a @ xs) = a # chunks n xs"
  by (subst chunks.simps) auto

fun gso_size :: "cmsg list \<Rightarrow> u16 option" where
  "gso_size [] = None"
| "gso_size (BadCmsg # oob) = None"
| "gso_size (Cmsg level type body # oob) = (if level = 17 \<and> type = 103 then Some (le_get16 body) else gso_size oob)"

definition kernel_split :: "cmsg list \<Rightarrow> bytes \<Rightarrow> bytes list" where
  "kernel_split oob b = (case gso_size oob of None \<Rightarrow> [b] | Some n \<Rightarrow> chunks (unat n) b)"

lemma le_get_put16 [simp]: "le_get16 (le_put16 w) = w"
  by (simp add: le_get16_def le_put16_def)

lemma growGSO_size:
  "growGSOSegmentSize oob n = Inr (oob', g) \<Longrightarrow>
     (case gso_size oob of None \<Rightarrow> g = 0 \<and> gso_size oob' = None
      | Some s \<Rightarrow> g = s \<and> gso_size oob' = Some (s + of_nat n) \<and> unat s + n \<le> 65535)"
  by (induction oob n arbitrary: oob' g rule: growGSOSegmentSize.induct)
    (auto simp: Let_def split: if_splits sum.splits prod.splits option.splits)

lemma segments_sealed:
  assumes H: "hash_256 H" and salts: "\<And>j s. rand j = Some s \<Longrightarrow> length s = 8" and n: "0 < n"
  shows "segment_loop H rand i payload room (newDigestPair key) n = Inr out \<Longrightarrow>
     \<exists>ss. length ss = length (chunks n payload) \<and> (\<forall>s \<in> set ss. \<exists>j. rand j = Some s)
        \<and> chunks (n + 16) out = map2 (sealed H key) ss (chunks n payload)"
proof (induction payload arbitrary: i room out rule: measure_induct_rule [of length])
  case (less payload)
  show ?case
  proof (cases "payload = []")
    case True
    then show ?thesis using less.prems by (simp add: segment_loop.simps [of H rand i] chunks.simps)
  next
    case False
    define m where "m = min n (length payload)"
    have m: "0 < m" "take m payload = take n payload" "drop m payload = drop n payload" "length (take n payload) = m"
      using False n by (auto simp: m_def min_def)
    obtain a b where ab: "encodeWithPair H (rand i) (take m payload) room (newDigestPair key) = Inr a"
      "segment_loop H rand (Suc i) (drop m payload) (room - length a) (newDigestPair key) n = Inr b" "out = a @ b"
      using less.prems False n
      by (subst (asm) segment_loop.simps) (auto simp: Let_def m_def [symmetric] split: sum.splits)
    from ab(1) obtain s where s: "rand i = Some s"
      by (auto simp: encodeWithPair_def split: if_splits option.splits)
    note e = encode_sealed [OF H ab(1) [unfolded s]]
    have a: "a = sealed H key s (take n payload)" "length a = m + 16"
      using e m sealed_slices(4) [OF H salts [OF s]] by simp_all
    have lt: "length (drop m payload) < length payload" using m(1) False by simp
    obtain ss where ss: "length ss = length (chunks n (drop n payload))" "\<forall>s \<in> set ss. \<exists>j. rand j = Some s"
      "chunks (n + 16) b = map2 (sealed H key) ss (chunks n (drop n payload))"
      using less.IH [OF lt ab(2)] m(3) by auto
    have ch: "chunks n payload = take n payload # chunks n (drop n payload)"
      using False n by (simp add: chunks.simps [of n payload])
    have "chunks (n + 16) out = a # chunks (n + 16) b"
    proof (cases "n \<le> length payload")
      case True
      then have "length a = n + 16" using a(2) by (simp add: m_def)
      then show ?thesis using ab(3) chunks_append [of a "n + 16" b] by simp
    next
      case short: False
      then have "drop n payload = []" by simp
      then have "b = []" using ab(2) m(3) by (simp add: segment_loop.simps [of H rand "Suc i"])
      moreover have "chunks (n + 16) a = [a]" using a(2) short by (intro chunks_single) (auto simp: m_def)
      ultimately show ?thesis using ab(3) by (simp add: chunks.simps [of _ "[]"])
    qed
    then show ?thesis
      using ss s a(1) ch by (intro exI [of _ "s # ss"]) auto
  qed
qed

lemma pair_for_ok:
  assumes "addrs_ok c"
  shows "snd (digestPairFor key (sc_writeDigests c)) = newDigestPair key"
  using assms by (auto simp: digestPairFor_def addrs_ok_def split: option.splits)

lemma encodeSegments_nat:
  "encodeSegmentsWithPair H rand payload room pair (int n) =
     (if n = 0 \<or> length payload \<le> n then encodeWithPair H (rand 0) payload room pair else segment_loop H rand 0 payload room pair n)"
  by (simp add: encodeSegmentsWithPair_def)

lemma written_sealed:
  assumes H: "hash_256 H" and salts: "\<And>j s. rand j = Some s \<Longrightarrow> length s = 8" and c: "addrs_ok c"
    and k: "keyForAddress addr c = Inr key" and w: "WriteMsgUDP H rand payload oob addr c = (c', Inr (out, oob'))"
    and z: "gso_size oob \<noteq> Some 0"
  shows "\<exists>ss. length ss = length (kernel_split oob payload) \<and> (\<forall>s \<in> set ss. \<exists>j. rand j = Some s)
     \<and> kernel_split oob' out = map2 (sealed H key) ss (kernel_split oob payload) \<and> [] \<notin> set (kernel_split oob payload)"
proof -
  have "\<exists>g. growGSOSegmentSize oob 16 = Inr (oob', g)
     \<and> encodeSegmentsWithPair H rand payload maxUDPPayload (newDigestPair key) (int (unat g)) = Inr out"
  proof (cases "growGSOSegmentSize oob SalamanderHeaderSize")
    case (Inl e)
    with w k show ?thesis by (simp add: WriteMsgUDP_def)
  next
    case (Inr x)
    obtain oob1 g where x: "x = (oob1, g)" by force
    let ?E = "encodeSegmentsWithPair H rand payload maxUDPPayload (newDigestPair key) (int (unat g))"
    have "map_sum id (\<lambda>out. (out, oob1)) ?E = Inr (out, oob')"
      using w k Inr x pair_for_ok [OF c, of key] by (simp add: WriteMsgUDP_def Let_def case_prod_unfold)
    then have "?E = Inr out" "oob1 = oob'" by (cases ?E; simp)+
    with Inr x show ?thesis by (simp add: obfs_consts)
  qed
  then obtain g where g: "growGSOSegmentSize oob 16 = Inr (oob', g)"
    "encodeSegmentsWithPair H rand payload maxUDPPayload (newDigestPair key) (int (unat g)) = Inr out" by blast
  have single: "\<exists>s. rand 0 = Some s \<and> out = sealed H key s payload \<and> payload \<noteq> []"
    if e: "encodeWithPair H (rand 0) payload maxUDPPayload (newDigestPair key) = Inr out"
  proof -
    obtain s where s: "rand 0 = Some s" using e by (auto simp: encodeWithPair_def split: if_splits option.splits)
    with encode_sealed [OF H, of s] e show ?thesis by auto
  qed
  show ?thesis
  proof (cases "gso_size oob")
    case None
    with growGSO_size [OF g(1)] have n: "g = 0" "gso_size oob' = None" by simp_all
    then obtain s where "rand 0 = Some s" "out = sealed H key s payload" "payload \<noteq> []"
      using single g(2) by (auto simp: encodeSegmentsWithPair_def)
    with None n show ?thesis by (intro exI [of _ "[s]"]) (auto simp: kernel_split_def)
  next
    case (Some n)
    with growGSO_size [OF g(1)] have n: "g = n" "gso_size oob' = Some (n + 16)" "unat n + 16 \<le> 65535" by simp_all
    have pos: "0 < unat n" using z Some by (auto simp: unat_gt_0)
    have n16: "unat (n + 16) = unat n + 16" using n(3) by (simp add: unat_word_ariths)
    have ne: "[] \<notin> set (chunks (unat n) payload)"
      using pos by (induction "unat n" payload rule: chunks.induct) (subst chunks.simps, auto)
    show ?thesis
    proof (cases "unat n \<ge> length payload")
      case True
      then obtain s where s: "rand 0 = Some s" "out = sealed H key s payload" "payload \<noteq> []"
        using single g(2) unfolding encodeSegments_nat n(1) by auto
      have "length out \<le> unat n + 16" "out \<noteq> []" using True s(2) sealed_slices(4) [OF H salts [OF s(1)], of key payload] by auto
      then have "chunks (unat n + 16) out = [out]" by (intro chunks_single)
      moreover have "chunks (unat n) payload = [payload]" using True s(3) by (intro chunks_single)
      ultimately show ?thesis using s n(2) n16 Some by (intro exI [of _ "[s]"]) (auto simp: kernel_split_def)
    next
      case False
      then have "segment_loop H rand 0 payload maxUDPPayload (newDigestPair key) (unat n) = Inr out"
        using g(2) pos unfolding encodeSegments_nat n(1) by simp
      from segments_sealed [OF H salts pos this] ne show ?thesis
        using n(2) n16 Some by (simp add: kernel_split_def)
    qed
  qed
qed

lemma remember_published: "published c \<Longrightarrow> published (remember addr k c)" "sc_keyOrder (remember addr k c) = sc_keyOrder c"
  by (auto simp: remember_def published_def Let_def split: option.splits)

lemma batch_reads_sealed:
  assumes H: "hash_256 H"
  shows "length ss = length ps \<Longrightarrow> length rooms = length ps \<Longrightarrow> published c \<Longrightarrow> key \<in> set (sc_keyOrder c) \<Longrightarrow>
     \<forall>s \<in> set ss. length s = 8 \<and> hint_unique H key s c \<Longrightarrow> [] \<notin> set ps \<Longrightarrow>
     \<forall>r \<in> set rooms. \<exists>n. r = Some n \<and> (\<forall>p \<in> set ps. length p \<le> n) \<Longrightarrow>
     snd (batch_pass H (map (Pair (Some a)) (map2 (sealed H key) ss ps)) rooms c) = map (Pair (Some a)) ps"
proof (induction ps arbitrary: ss rooms c)
  case Nil
  then show ?case by simp
next
  case (Cons p ps)
  obtain s ss' where ss: "ss = s # ss'" using Cons.prems(1) by (cases ss) auto
  obtain r rooms' where rs: "rooms = r # rooms'" using Cons.prems(2) by (cases rooms) auto
  obtain n where n: "r = Some n" "length p \<le> n" using Cons.prems(7) rs by auto
  obtain c1 where c1: "decode H (sealed H key s p) n c = (c1, Some (p, key))" "published c1" "sc_keyOrder c1 = sc_keyOrder c"
    using decode_sealed [OF H _ Cons.prems(3,4) _ _ n(2), of s] Cons.prems(5,6) ss by auto
  let ?c2 = "remember (Some a) key c1"
  have o: "published ?c2" "sc_keyOrder ?c2 = sc_keyOrder c" using remember_published c1 by simp_all
  have "snd (batch_pass H (map (Pair (Some a)) (map2 (sealed H key) ss' ps)) rooms' ?c2) = map (Pair (Some a)) ps"
    by (rule Cons.IH) (use Cons.prems ss rs o in \<open>auto simp: hint_unique_def\<close>)
  then show ?case by (simp add: ss rs n(1) c1(1) case_prod_unfold Let_def)
qed

section \<open>Properties of the obfuscation layer\<close>

text \<open>C6.  What one peer writes, the other reads.  Both derive their key from their own private and the other's
  public key.  Whatever the first hands to \<open>WriteMsgUDP\<close> for an address with that key, with or without segmentation
  by the kernel, the second gets back from the datagrams that arrive exactly the datagrams the kernel
  would have sent without obfuscation, provided the second has the key registered and no other registered key gives
  the same hint for the salts.\<close>

theorem salamander_roundtrip:
  assumes "hash_256 H" "dh a pubB = dh b pubA"
    and "DeriveWireGuardKey H dh a pubB psk = Inr keyA" "DeriveWireGuardKey H dh b pubA psk = Inr keyB"
    and "conn_run H peers1 c1 ls1" "keyForAddress addr c1 = Inr keyA"
    and "WriteMsgUDP H rand payload oob addr c1 = (c1', Inr (out, oob'))" "gso_size oob \<noteq> Some 0"
    and "conn_run H peers2 c2 ls2" "keyB \<in> pk_Key ` set peers2 \<union> set ls2"
    and "\<And>j s. rand j = Some s \<Longrightarrow> length s = 8 \<and> hint_unique H keyB s c2"
    and "\<And>p. p \<in> set (kernel_split oob payload) \<Longrightarrow> length p \<le> room"
  defines "datagrams \<equiv> kernel_split oob' out"
  shows "snd (batch_pass H (map (Pair (Some src)) datagrams) (replicate (length datagrams) (Some room)) c2)
     = map (Pair (Some src)) (kernel_split oob payload)"
proof -
  have k: "keyB = keyA" using assms(2-4) by (auto simp: DeriveWireGuardKey_def split: if_splits option.splits)
  note r2 = conn_run_ok [OF assms(9)]
  have reg: "keyA \<in> set (sc_keyOrder c2)"
    using r2 assms(10) count_list_0_iff [of ls2 keyA] by (auto simp: keys_ok_def held_def peer_refs_def k)
  have a1: "addrs_ok c1" using conn_run_ok [OF assms(5)] by blast
  obtain ss where ss: "length ss = length (kernel_split oob payload)" "\<forall>s \<in> set ss. \<exists>j. rand j = Some s"
    "datagrams = map2 (sealed H keyA) ss (kernel_split oob payload)" "[] \<notin> set (kernel_split oob payload)"
    using written_sealed [OF assms(1) _ a1 assms(6,7,8)] assms(11) unfolding datagrams_def by metis
  have s8: "\<forall>s \<in> set ss. length s = 8 \<and> hint_unique H keyA s c2" using ss(2) assms(11) k by blast
  show ?thesis
    unfolding ss(3) by (rule batch_reads_sealed [OF assms(1) ss(1) _ _ reg s8 ss(4)]) (use ss(1) r2 assms(12) in auto)
qed

definition toy_hash :: hash256 where
  "toy_hash key msg = take 32 (key @ rev msg @ replicate 32 0)"

definition toy_dh :: "bytes \<Rightarrow> bytes \<Rightarrow> bytes option" where
  "toy_dh a p = Some (map2 (XOR) a p)"

definition toy_private :: "nat \<Rightarrow> bytes" where
  "toy_private n = of_nat n # replicate 31 7"

definition toy_key :: obfsKey where
  "toy_key = projr (DeriveWireGuardKey toy_hash toy_dh (toy_private 1) (toy_private 2) [])"

definition toy_conn :: "obfsKey \<Rightarrow> SalamanderConn" where
  "toy_conn key = WrapKeyedSalamander [\<lparr>pk_Key = key, pk_Endpoint = (V4 1, 5)\<rparr>]"

definition toy_addr :: "UDPAddr option" where
  "toy_addr = Some \<lparr>ua_IP = [0, 0, 0, 1], ua_Port = 5, ua_Zone = []\<rparr>"

definition toy_salt :: "nat \<Rightarrow> bytes option" where
  "toy_salt n = Some [of_nat n, 1, 2, 3, 4, 5, 6, 7]"

definition toy_written :: "bytes \<times> cmsg list" where
  "toy_written = projr (snd (WriteMsgUDP toy_hash toy_salt [1, 2, 3, 4, 5, 6, 7] [Cmsg 17 103 [3, 0]] toy_addr (toy_conn toy_key)))"

lemma toy_hash_256: "hash_256 toy_hash"
  by (auto simp: hash_256_def toy_hash_def min_def)

lemma toy_run: "conn_run toy_hash [\<lparr>pk_Key = key, pk_Endpoint = (V4 1, 5)\<rparr>] (toy_conn key) []"
  unfolding toy_conn_def by (rule run_wrap)

theorem salamander_roundtrip_witness:
  "map snd (snd (batch_pass toy_hash (map (Pair toy_addr) (kernel_split (snd toy_written) (fst toy_written)))
     (replicate 3 (Some 100)) (toy_conn toy_key))) = [[1, 2, 3], [4, 5, 6], [7]]"
proof -
  have d: "toy_dh (toy_private 1) (toy_private 2) = toy_dh (toy_private 2) (toy_private 1)" by code_simp
  have kA: "DeriveWireGuardKey toy_hash toy_dh (toy_private 1) (toy_private 2) [] = Inr toy_key"
    and kB: "DeriveWireGuardKey toy_hash toy_dh (toy_private 2) (toy_private 1) [] = Inr toy_key" by code_simp+
  have ka: "keyForAddress toy_addr (toy_conn toy_key) = Inr toy_key" by code_simp
  have "isl (snd (WriteMsgUDP toy_hash toy_salt [1, 2, 3, 4, 5, 6, 7] [Cmsg 17 103 [3, 0]] toy_addr (toy_conn toy_key))) = False"
    by code_simp
  then have w: "WriteMsgUDP toy_hash toy_salt [1, 2, 3, 4, 5, 6, 7] [Cmsg 17 103 [3, 0]] toy_addr (toy_conn toy_key)
      = (fst (WriteMsgUDP toy_hash toy_salt [1, 2, 3, 4, 5, 6, 7] [Cmsg 17 103 [3, 0]] toy_addr (toy_conn toy_key)),
         Inr (fst toy_written, snd toy_written))"
    unfolding toy_written_def by (metis prod.collapse sum.collapse(2))
  have z: "gso_size [Cmsg 17 103 [3, 0]] \<noteq> Some 0" by code_simp
  have sp: "kernel_split [Cmsg 17 103 [3, 0]] [1, 2, 3, 4, 5, 6, 7 :: byte] = [[1, 2, 3], [4, 5, 6], [7]]" by code_simp
  have o: "sc_keyOrder (toy_conn toy_key) = [toy_key]" by code_simp
  have l: "length (kernel_split (snd toy_written) (fst toy_written)) = 3" by code_simp
  have s: "length s = 8 \<and> hint_unique toy_hash toy_key s (toy_conn toy_key)" if "toy_salt j = Some s" for j s
    using that by (auto simp: toy_salt_def hint_unique_def o)
  have room: "length p \<le> 100" if "p \<in> set (kernel_split [Cmsg 17 103 [3, 0]] [1, 2, 3, 4, 5, 6, 7 :: byte])" for p
    using that by (auto simp: sp)
  obtain ad where ad: "toy_addr = Some ad" by (simp add: toy_addr_def)
  from salamander_roundtrip [OF toy_hash_256 d kA kB toy_run ka w z toy_run _ s room, where src = ad] show ?thesis
    by (simp add: l sp ad)
qed




definition toy_packet :: bytes where
  "toy_packet = projr (encode toy_hash (toy_salt 4) [1, 2, 3] 100 [8])"



end
