(* ===== verification/Go_Text.thy ===== *)
theory Go_Text
  imports Net_Addr "HOL-Library.Char_ord" "HOL-Library.List_Lexorder" "HOL-Library.Product_Lexorder"
begin

text \<open>
  The part of Go's \<open>strings\<close>, \<open>strconv\<close>, \<open>encoding/base64\<close>, \<open>encoding/hex\<close> and \<open>net\<close> the configuration uses, on
  ASCII text.  Printing and parsing of addresses, which the program never looks into, are the fields of a record.
\<close>

section \<open>Strings\<close>

definition lower_char :: "char \<Rightarrow> char" where
  "lower_char c = (if CHR ''A'' \<le> c \<and> c \<le> CHR ''Z'' then char_of (of_char c + (32 :: nat)) else c)"

definition ToLower :: "string \<Rightarrow> string" where
  "ToLower s = map lower_char s"

definition space_char :: "char \<Rightarrow> bool" where
  "space_char c \<longleftrightarrow> of_char c \<in> {9, 10, 11, 12, 13, 32 :: nat}"

definition TrimSpace :: "string \<Rightarrow> string" where
  "TrimSpace s = rev (dropWhile space_char (rev (dropWhile space_char s)))"

definition HasPrefix :: "string \<Rightarrow> string \<Rightarrow> bool" where
  "HasPrefix s p \<longleftrightarrow> take (length p) s = p"

definition HasSuffix :: "string \<Rightarrow> string \<Rightarrow> bool" where
  "HasSuffix s p \<longleftrightarrow> HasPrefix (rev s) (rev p)"

definition TrimPrefix :: "string \<Rightarrow> string \<Rightarrow> string" where
  "TrimPrefix s p = (if HasPrefix s p then drop (length p) s else s)"

definition TrimSuffix :: "string \<Rightarrow> string \<Rightarrow> string" where
  "TrimSuffix s p = (if HasSuffix s p then take (length s - length p) s else s)"

text \<open>\<open>strings.Cut\<close> at one character.\<close>

definition Cut :: "string \<Rightarrow> char \<Rightarrow> (string \<times> string) option" where
  "Cut s c = (if c \<in> set s then Some (takeWhile (\<lambda>x. x \<noteq> c) s, tl (dropWhile (\<lambda>x. x \<noteq> c) s)) else None)"

fun Split :: "string \<Rightarrow> char \<Rightarrow> string list" where
  "Split [] c = [[]]"
| "Split (x # s) c = (let r = Split s c in if x = c then [] # r else (x # hd r) # tl r)"

lemma Split_nonempty [simp]: "Split s c \<noteq> []"
  by (induction s c rule: Split.induct) (simp_all add: Let_def)

section \<open>Numbers\<close>

definition digit_value :: "char \<Rightarrow> nat option" where
  "digit_value c =
     (if CHR ''0'' \<le> c \<and> c \<le> CHR ''9'' then Some (of_char c - 48)
      else if CHR ''a'' \<le> lower_char c \<and> lower_char c \<le> CHR ''z'' then Some (of_char (lower_char c) - 87) else None)"

text \<open>The digits of \<open>ParseUint\<close> in a base, with the underscores base 0 allows skipped.\<close>

fun digits_value :: "nat \<Rightarrow> bool \<Rightarrow> string \<Rightarrow> nat \<Rightarrow> nat option" where
  "digits_value base base0 [] n = Some n"
| "digits_value base base0 (c # s) n =
     (if base0 \<and> c = CHR ''_'' then digits_value base base0 s n
      else case digit_value c of
        None \<Rightarrow> None
      | Some d \<Rightarrow> if d \<ge> base then None else digits_value base base0 s (n * base + d))"

text \<open>\<open>underscoreOK\<close>: the loop, with whether the last character was a digit or prefix, an underscore or neither.\<close>

datatype seen = SawStart | SawDigit | SawUnderscore | SawOther

fun underscore_loop :: "bool \<Rightarrow> seen \<Rightarrow> string \<Rightarrow> bool" where
  "underscore_loop hx saw [] = (saw \<noteq> SawUnderscore)"
| "underscore_loop hx saw (c # s) =
     (if CHR ''0'' \<le> c \<and> c \<le> CHR ''9'' \<or> hx \<and> CHR ''a'' \<le> lower_char c \<and> lower_char c \<le> CHR ''f''
      then underscore_loop hx SawDigit s
      else if c = CHR ''_'' then (if saw \<noteq> SawDigit then False else underscore_loop hx SawUnderscore s)
      else if saw = SawUnderscore then False else underscore_loop hx SawOther s)"

definition underscoreOK :: "string \<Rightarrow> bool" where
  "underscoreOK s =
     (let s = (if s \<noteq> [] \<and> (hd s = CHR ''-'' \<or> hd s = CHR ''+'') then tl s else s)
      in if length s \<ge> 2 \<and> s ! 0 = CHR ''0'' \<and> lower_char (s ! 1) \<in> {CHR ''b'', CHR ''o'', CHR ''x''}
         then underscore_loop (lower_char (s ! 1) = CHR ''x'') SawDigit (drop 2 s)
         else underscore_loop False SawStart s)"

definition ParseUint :: "string \<Rightarrow> nat \<Rightarrow> nat \<Rightarrow> nat option" where
  "ParseUint s base bits =
     (if s = [] then None
      else let (b, ds) =
             (if base \<noteq> 0 then (base, s)
              else if s ! 0 \<noteq> CHR ''0'' then (10, s)
              else if length s \<ge> 3 \<and> lower_char (s ! 1) = CHR ''b'' then (2, drop 2 s)
              else if length s \<ge> 3 \<and> lower_char (s ! 1) = CHR ''o'' then (8, drop 2 s)
              else if length s \<ge> 3 \<and> lower_char (s ! 1) = CHR ''x'' then (16, drop 2 s)
              else (8, drop 1 s))
      in case digits_value b (base = 0) ds 0 of
           None \<Rightarrow> None
         | Some n \<Rightarrow>
             if n \<ge> 2 ^ bits then None
             else if base = 0 \<and> CHR ''_'' \<in> set ds \<and> \<not> underscoreOK s then None
             else Some n)"

definition Atoi :: "string \<Rightarrow> int option" where
  "Atoi s =
     (let neg = (s \<noteq> [] \<and> hd s = CHR ''-'');
          ds = (if s \<noteq> [] \<and> (hd s = CHR ''-'' \<or> hd s = CHR ''+'') then tl s else s)
      in if ds = [] then None
         else case digits_value 10 False ds 0 of
           None \<Rightarrow> None
         | Some n \<Rightarrow>
             if \<not> neg \<and> n \<ge> 2 ^ 63 \<or> neg \<and> n > 2 ^ 63 then None
             else Some (if neg then - int n else int n))"

definition ParseBool :: "string \<Rightarrow> bool option" where
  "ParseBool s =
     (if s \<in> {''1'', ''t'', ''T'', ''TRUE'', ''true'', ''True''} then Some True
      else if s \<in> {''0'', ''f'', ''F'', ''FALSE'', ''false'', ''False''} then Some False else None)"

function itoa_nat :: "nat \<Rightarrow> string" where
  "itoa_nat n = (if n < 10 then [char_of (48 + n)] else itoa_nat (n div 10) @ [char_of (48 + n mod 10)])"
  by pat_completeness auto
termination
  by (relation "measure id") auto

declare itoa_nat.simps [simp del]

lemma ParseUint_bound: "ParseUint s base bits = Some n \<Longrightarrow> n < 2 ^ bits"
  by (auto simp: ParseUint_def Let_def split: if_splits option.splits prod.splits)

section \<open>Base64 and hexadecimal\<close>

definition b64_alphabet :: string where
  "b64_alphabet = ''ABCDEFGHIJKLMNOPQRSTUVWXYZabcdefghijklmnopqrstuvwxyz0123456789+/''"

definition b64_value :: "char \<Rightarrow> nat option" where
  "b64_value c = (let i = length (takeWhile (\<lambda>x. x \<noteq> c) b64_alphabet) in if i < 64 then Some i else None)"

text \<open>Groups of four characters; the last may end in padding.  Trailing bits are not checked.\<close>

fun b64_groups :: "string \<Rightarrow> bytes option" where
  "b64_groups [] = Some []"
| "b64_groups [a, b, c, d] =
     (if d = CHR ''=''
      then (if c = CHR ''=''
            then (case (b64_value a, b64_value b) of
                    (Some x, Some y) \<Rightarrow> Some [of_nat ((x * 64 + y) div 16)]
                  | _ \<Rightarrow> None)
            else (case (b64_value a, b64_value b, b64_value c) of
                    (Some x, Some y, Some z) \<Rightarrow>
                      let n = (x * 64 + y) * 64 + z in Some [of_nat (n div 1024), of_nat (n div 4)]
                  | _ \<Rightarrow> None))
      else (case (b64_value a, b64_value b, b64_value c, b64_value d) of
              (Some x, Some y, Some z, Some w) \<Rightarrow>
                let n = ((x * 64 + y) * 64 + z) * 64 + w in Some [of_nat (n div 65536), of_nat (n div 256), of_nat n]
            | _ \<Rightarrow> None))"
| "b64_groups (a # b # c # d # rest) =
     (case (b64_value a, b64_value b, b64_value c, b64_value d, b64_groups rest) of
        (Some x, Some y, Some z, Some w, Some r) \<Rightarrow>
          let n = ((x * 64 + y) * 64 + z) * 64 + w in Some (of_nat (n div 65536) # of_nat (n div 256) # of_nat n # r)
      | _ \<Rightarrow> None)"
| "b64_groups _ = None"

definition b64_DecodeString :: "string \<Rightarrow> bytes option" where
  "b64_DecodeString s = b64_groups (filter (\<lambda>c. c \<noteq> char_of (10 :: nat) \<and> c \<noteq> char_of (13 :: nat)) s)"

definition b64_char :: "nat \<Rightarrow> char" where
  "b64_char n = b64_alphabet ! (n mod 64)"

fun b64_EncodeToString :: "bytes \<Rightarrow> string" where
  "b64_EncodeToString [] = []"
| "b64_EncodeToString [a] =
     (let n = unat a * 16 in [b64_char (n div 64), b64_char n, CHR ''='', CHR ''=''])"
| "b64_EncodeToString [a, b] =
     (let n = (unat a * 256 + unat b) * 4 in [b64_char (n div 4096), b64_char (n div 64), b64_char n, CHR ''=''])"
| "b64_EncodeToString (a # b # c # rest) =
     (let n = (unat a * 256 + unat b) * 256 + unat c
      in b64_char (n div 262144) # b64_char (n div 4096) # b64_char (n div 64) # b64_char n # b64_EncodeToString rest)"

definition hex_EncodeToString :: "bytes \<Rightarrow> string" where
  "hex_EncodeToString bs =
     concat (map (\<lambda>b. [''0123456789abcdef'' ! (unat b div 16), ''0123456789abcdef'' ! (unat b mod 16)]) bs)"

section \<open>Prefixes\<close>

text \<open>A \<open>netip.Prefix\<close>; the invalid one has bits \<open>-1\<close>.\<close>

type_synonym prefix = "ipaddr \<times> int"

fun Addr_Is4 :: "ipaddr \<Rightarrow> bool" where
  "Addr_Is4 (V4 _) = True"
| "Addr_Is4 _ = False"

definition Prefix_IsValid :: "prefix \<Rightarrow> bool" where
  "Prefix_IsValid p = (snd p \<ge> 0)"

fun Masked :: "prefix \<Rightarrow> prefix" where
  "Masked (V4 w, n) = (if 0 \<le> n \<and> n \<le> 32 then (V4 (w AND NOT (mask (nat (32 - n)))), n) else (NoAddr, -1))"
| "Masked (V6 w z, n) = (if 0 \<le> n \<and> n \<le> 128 then (V6 (w AND NOT (mask (nat (128 - n)))) [], n) else (NoAddr, -1))"
| "Masked (NoAddr, n) = (NoAddr, -1)"

lemma Masked_idem: "Masked (Masked p) = Masked p"
  by (cases p rule: Masked.cases) (auto simp: and.assoc)

text \<open>\<open>Addr.Compare\<close> orders by bit length, then by value, then by zone.\<close>

fun addr_rank :: "ipaddr \<Rightarrow> nat \<times> nat \<times> string" where
  "addr_rank NoAddr = (0, 0, [])"
| "addr_rank (V4 w) = (32, unat w, [])"
| "addr_rank (V6 w z) = (128, unat w, z)"

lemma addr_rank_inj: "addr_rank a = addr_rank b \<Longrightarrow> a = b"
  by (cases a; cases b) (auto intro: word_unat_eq_iff [THEN iffD2])

instantiation ipaddr :: linorder
begin

definition less_eq_ipaddr :: "ipaddr \<Rightarrow> ipaddr \<Rightarrow> bool" where
  "less_eq_ipaddr a b \<longleftrightarrow> addr_rank a \<le> addr_rank b"

definition less_ipaddr :: "ipaddr \<Rightarrow> ipaddr \<Rightarrow> bool" where
  "less_ipaddr a b \<longleftrightarrow> addr_rank a < addr_rank b"

instance
  by standard (auto simp: less_eq_ipaddr_def less_ipaddr_def intro: addr_rank_inj)

end

record netip_text =
  nt_ParseAddr :: "string \<Rightarrow> ipaddr option"
  nt_ParsePrefix :: "string \<Rightarrow> prefix option"
  nt_AddrString :: "ipaddr \<Rightarrow> string"
  nt_PrefixString :: "prefix \<Rightarrow> string"

section \<open>Dotted quads\<close>

text \<open>
  The IPv4 part of the text forms: four decimal fields below 256 without leading zeros, and a prefix length of one or
  two digits without a leading zero.
\<close>

definition quad_field :: "string \<Rightarrow> nat option" where
  "quad_field s =
     (if s = [] \<or> length s > 1 \<and> hd s = CHR ''0'' then None
      else case digits_value 10 False s 0 of Some n \<Rightarrow> if n < 256 then Some n else None | None \<Rightarrow> None)"

definition quad_ParseAddr :: "string \<Rightarrow> ipaddr option" where
  "quad_ParseAddr s =
     (case map quad_field (Split s (CHR ''.'')) of
        [Some a, Some b, Some c, Some d] \<Rightarrow> Some (V4 (of_nat (((a * 256 + b) * 256 + c) * 256 + d)))
      | _ \<Rightarrow> None)"

definition quad_AddrString :: "ipaddr \<Rightarrow> string" where
  "quad_AddrString a =
     (case a of
        V4 w \<Rightarrow> itoa_nat (unat w div 16777216) @ ''.'' @ itoa_nat (unat w div 65536 mod 256) @ ''.''
                @ itoa_nat (unat w div 256 mod 256) @ ''.'' @ itoa_nat (unat w mod 256)
      | _ \<Rightarrow> ''invalid IP'')"

definition quad_ParsePrefix :: "string \<Rightarrow> prefix option" where
  "quad_ParsePrefix s =
     (case Cut s (CHR ''/'') of
        None \<Rightarrow> None
      | Some (a, b) \<Rightarrow>
          (case (quad_ParseAddr a, quad_field b) of
             (Some ip, Some n) \<Rightarrow> if n \<le> 32 then Some (ip, int n) else None
           | _ \<Rightarrow> None))"

definition quad_text :: netip_text where
  "quad_text = \<lparr>nt_ParseAddr = quad_ParseAddr, nt_ParsePrefix = quad_ParsePrefix, nt_AddrString = quad_AddrString,
     nt_PrefixString = (\<lambda>p. quad_AddrString (fst p) @ ''/'' @ itoa_nat (nat (snd p)))\<rparr>"

end
