(* ===== verification/Config.thy ===== *)
theory Config
  imports Go_Text
begin

text \<open>
  Configuration files, \<open>internal/config/config.go\<close>, and peer endpoints, \<open>internal/peerendpoint/spec.go\<close>.  The lines of
  a file are what the scanner yields, with a flag that says whether it stopped at an error.
\<close>

section \<open>Peer endpoints\<close>

datatype endpoint_error = BadHostPort | EmptyHost | HostWhitespace | BadPort | NotNumeric string | InvalidAddress

record Spec =
  sp_Host :: string
  sp_Port :: u16
  sp_Address :: ipaddr

definition Spec_Dynamic :: "Spec \<Rightarrow> bool" where
  "Spec_Dynamic s = (\<not> Addr_IsValid (sp_Address s))"

definition Spec_AddrPort :: "Spec \<Rightarrow> addrPort option" where
  "Spec_AddrPort s = (if Spec_Dynamic s then None else Some (sp_Address s, sp_Port s))"

text \<open>\<open>net.SplitHostPort\<close>: a host in brackets or without a colon, then the last colon and the port.\<close>

definition SplitHostPort :: "string \<Rightarrow> (string \<times> string) option" where
  "SplitHostPort s =
     (if CHR '':'' \<notin> set s then None
      else let port = rev (takeWhile (\<lambda>c. c \<noteq> CHR '':'') (rev s)); front = take (length s - length port - 1) s
      in if s ! 0 = CHR ''[''
         then (if CHR '']'' \<notin> set s then None
               else let host = takeWhile (\<lambda>c. c \<noteq> CHR '']'') (tl s)
                    in if length host + 2 \<noteq> length s - length port - 1 then None
                       else if CHR ''['' \<in> set host \<or> CHR ''['' \<in> set port \<or> CHR '']'' \<in> set port then None
                       else Some (host, port))
         else if CHR '':'' \<in> set front then None
         else if CHR ''['' \<in> set s \<or> CHR '']'' \<in> set s then None
         else Some (front, port))"

definition endpoint_Parse :: "netip_text \<Rightarrow> string \<Rightarrow> endpoint_error + Spec" where
  "endpoint_Parse nt value =
     (case SplitHostPort value of
        None \<Rightarrow> Inl BadHostPort
      | Some (host, portText) \<Rightarrow>
          if host = [] then Inl EmptyHost
          else if list_ex (\<lambda>c. of_char c \<in> {32, 9, 13, 10 :: nat}) host then Inl HostWhitespace
          else (case ParseUint portText 10 16 of
            None \<Rightarrow> Inl BadPort
          | Some port \<Rightarrow>
              if port = 0 then Inl BadPort
              else (case nt_ParseAddr nt host of
                None \<Rightarrow> Inr \<lparr>sp_Host = host, sp_Port = of_nat port, sp_Address = NoAddr\<rparr>
              | Some address \<Rightarrow>
                  Inr \<lparr>sp_Host = nt_AddrString nt (Unmap address), sp_Port = of_nat port, sp_Address = Unmap address\<rparr>)))"

definition ParseNumeric :: "netip_text \<Rightarrow> string \<Rightarrow> endpoint_error + addrPort" where
  "ParseNumeric nt value =
     (case endpoint_Parse nt value of
        Inl e \<Rightarrow> Inl e
      | Inr spec \<Rightarrow> (case Spec_AddrPort spec of None \<Rightarrow> Inl (NotNumeric (sp_Host spec)) | Some ap \<Rightarrow> Inr ap))"

definition endpoint_Canonical :: "addrPort \<Rightarrow> endpoint_error + addrPort" where
  "endpoint_Canonical endpoint =
     (if \<not> AddrPort_IsValid endpoint then Inl InvalidAddress
      else if snd endpoint = 0 then Inl BadPort
      else Inr (canonicalAddrPort endpoint))"

section \<open>The configuration\<close>

record Interface =
  if_PrivateKey :: string
  if_Addresses :: "prefix list"
  if_ListenPort :: u16
  if_FwMark :: u32
  if_DNS :: "string list"
  if_MTU :: int
  if_Table :: string
  if_PreUp :: "string list"
  if_PostUp :: "string list"
  if_PreDown :: "string list"
  if_PostDown :: "string list"
  if_SaveConfig :: bool

record Peer =
  pe_PublicKey :: string
  pe_PresharedKey :: string
  pe_AllowedIPs :: "prefix list"
  pe_Endpoint :: string
  pe_PersistentKeepalive :: u16
  pe_FECPolicy :: string

record Transport =
  tr_Carrier :: string
  tr_Congestion :: string
  tr_FEC :: string
  tr_Obfs :: string
  tr_FECDataShards :: int
  tr_FECInterleave :: int

record Config =
  cf_Interface :: Interface
  cf_Peers :: "Peer list"
  cf_Transport :: Transport

record DNSSettings =
  dns_Servers :: "string list"
  dns_Domains :: "string list"

definition DefaultMTU :: int where
  "DefaultMTU = 1280"

text \<open>The receiver may be nil.\<close>

definition EffectiveMTU :: "Config option \<Rightarrow> int" where
  "EffectiveMTU cfg =
     (case cfg of
        Some c \<Rightarrow> if if_MTU (cf_Interface c) \<noteq> 0 then if_MTU (cf_Interface c) else DefaultMTU
      | None \<Rightarrow> DefaultMTU)"

definition ClassifyDNS :: "netip_text \<Rightarrow> string list \<Rightarrow> DNSSettings" where
  "ClassifyDNS nt values =
     \<lparr>dns_Servers = filter (\<lambda>v. nt_ParseAddr nt v \<noteq> None) values, dns_Domains = filter (\<lambda>v. nt_ParseAddr nt v = None) values\<rparr>"

definition DefaultTransport :: Transport where
  "DefaultTransport = \<lparr>tr_Carrier = ''quic'', tr_Congestion = ''auto'', tr_FEC = ''auto'', tr_Obfs = ''salamander'',
     tr_FECDataShards = 0, tr_FECInterleave = 0\<rparr>"

definition zeroInterface :: Interface where
  "zeroInterface = \<lparr>if_PrivateKey = [], if_Addresses = [], if_ListenPort = 0, if_FwMark = 0, if_DNS = [], if_MTU = 0, if_Table = [],
     if_PreUp = [], if_PostUp = [], if_PreDown = [], if_PostDown = [], if_SaveConfig = False\<rparr>"

definition zeroPeer :: Peer where
  "zeroPeer = \<lparr>pe_PublicKey = [], pe_PresharedKey = [], pe_AllowedIPs = [], pe_Endpoint = [], pe_PersistentKeepalive = 0, pe_FECPolicy = []\<rparr>"

datatype config_error =
    AtLine nat config_error
  | UnknownSection string
  | ExpectedKeyValue
  | BeforeSection
  | ScanFailed
  | BadAddress | BadListenPort | BadFwMark | BadMTU | BadSaveConfig | UnknownInterfaceKey string
  | PeerWithoutSection | BadAllowedIPs | BadKeepalive | UnknownPeerKey string
  | InvalidDirective | EmptyDirective string | UnsupportedValue string string | LatencyOutsidePeer | UnknownDirective string
  | KeyMissing | KeyNotBase64 | KeyLength nat
  | InterfaceKey config_error | PeerKeyError nat config_error | PeerDuplicate nat | PeerPreshared nat config_error
  | PeerEndpoint nat endpoint_error

definition decodeKey :: "string \<Rightarrow> config_error + bytes" where
  "decodeKey value =
     (if value = [] then Inl KeyMissing
      else case b64_DecodeString value of
        None \<Rightarrow> Inl KeyNotBase64
      | Some key \<Rightarrow> if length key \<noteq> 32 then Inl (KeyLength (length key)) else Inr key)"

definition keyHex :: "string \<Rightarrow> config_error + string" where
  "keyHex value = (case decodeKey value of Inl e \<Rightarrow> Inl e | Inr key \<Rightarrow> Inr (hex_EncodeToString key))"

definition splitList :: "string \<Rightarrow> string list" where
  "splitList value = filter (\<lambda>f. f \<noteq> []) (map TrimSpace (Split value (CHR '','')))"

fun prefix_loop :: "netip_text \<Rightarrow> (prefix \<Rightarrow> prefix) \<Rightarrow> string list \<Rightarrow> prefix list option" where
  "prefix_loop nt f [] = Some []"
| "prefix_loop nt f (v # vs) =
     (case nt_ParsePrefix nt v of
        None \<Rightarrow> None
      | Some p \<Rightarrow> (case prefix_loop nt f vs of None \<Rightarrow> None | Some ps \<Rightarrow> Some (f p # ps)))"

definition parsePrefixes :: "netip_text \<Rightarrow> string \<Rightarrow> prefix list option" where
  "parsePrefixes nt value = prefix_loop nt Masked (splitList value)"

definition parseAddresses :: "netip_text \<Rightarrow> string \<Rightarrow> prefix list option" where
  "parseAddresses nt value = prefix_loop nt id (splitList value)"

definition parseUint16 :: "string \<Rightarrow> u16 option" where
  "parseUint16 value = map_option of_nat (ParseUint value 10 16)"

definition parseInterface :: "netip_text \<Rightarrow> Interface \<Rightarrow> string \<Rightarrow> string \<Rightarrow> config_error + Interface" where
  "parseInterface nt iface key value =
     (let k = ToLower key
      in if k = ''privatekey'' then Inr (iface\<lparr>if_PrivateKey := value\<rparr>)
         else if k = ''address'' then
           (case parseAddresses nt value of None \<Rightarrow> Inl BadAddress
            | Some ps \<Rightarrow> Inr (iface\<lparr>if_Addresses := if_Addresses iface @ ps\<rparr>))
         else if k = ''listenport'' then
           (case parseUint16 value of None \<Rightarrow> Inl BadListenPort | Some port \<Rightarrow> Inr (iface\<lparr>if_ListenPort := port\<rparr>))
         else if k = ''fwmark'' then
           (case ParseUint value 0 32 of None \<Rightarrow> Inl BadFwMark | Some m \<Rightarrow> Inr (iface\<lparr>if_FwMark := of_nat m\<rparr>))
         else if k = ''dns'' then Inr (iface\<lparr>if_DNS := if_DNS iface @ splitList value\<rparr>)
         else if k = ''mtu'' then
           (case Atoi value of None \<Rightarrow> Inl BadMTU
            | Some mtu \<Rightarrow> if mtu < 576 \<or> mtu > 65535 then Inl BadMTU else Inr (iface\<lparr>if_MTU := mtu\<rparr>))
         else if k = ''table'' then Inr (iface\<lparr>if_Table := value\<rparr>)
         else if k = ''preup'' then Inr (iface\<lparr>if_PreUp := if_PreUp iface @ [value]\<rparr>)
         else if k = ''postup'' then Inr (iface\<lparr>if_PostUp := if_PostUp iface @ [value]\<rparr>)
         else if k = ''predown'' then Inr (iface\<lparr>if_PreDown := if_PreDown iface @ [value]\<rparr>)
         else if k = ''postdown'' then Inr (iface\<lparr>if_PostDown := if_PostDown iface @ [value]\<rparr>)
         else if k = ''saveconfig'' then
           (case ParseBool value of None \<Rightarrow> Inl BadSaveConfig | Some v \<Rightarrow> Inr (iface\<lparr>if_SaveConfig := v\<rparr>))
         else Inl (UnknownInterfaceKey key))"

text \<open>The peer a setting applies to is \<open>None\<close> outside a peer section, as the nil pointer is.\<close>

definition parsePeer :: "netip_text \<Rightarrow> Peer option \<Rightarrow> string \<Rightarrow> string \<Rightarrow> config_error + Peer" where
  "parsePeer nt peer key value =
     (case peer of
        None \<Rightarrow> Inl PeerWithoutSection
      | Some p \<Rightarrow>
          let k = ToLower key
          in if k = ''publickey'' then Inr (p\<lparr>pe_PublicKey := value\<rparr>)
             else if k = ''presharedkey'' then Inr (p\<lparr>pe_PresharedKey := value\<rparr>)
             else if k = ''allowedips'' then
               (case parsePrefixes nt value of None \<Rightarrow> Inl BadAllowedIPs
                | Some ps \<Rightarrow> Inr (p\<lparr>pe_AllowedIPs := pe_AllowedIPs p @ ps\<rparr>))
             else if k = ''endpoint'' then Inr (p\<lparr>pe_Endpoint := value\<rparr>)
             else if k = ''persistentkeepalive'' then
               (if ToLower value = ''off'' then Inr (p\<lparr>pe_PersistentKeepalive := 0\<rparr>)
                else case parseUint16 value of None \<Rightarrow> Inl BadKeepalive | Some v \<Rightarrow> Inr (p\<lparr>pe_PersistentKeepalive := v\<rparr>))
             else Inl (UnknownPeerKey key))"

text \<open>A directive changes the transport or the policy of the peer.\<close>

definition parseDirective :: "Transport \<Rightarrow> Peer option \<Rightarrow> string \<Rightarrow> config_error + Transport \<times> Peer option" where
  "parseDirective tr peer directive =
     (case Cut directive (CHR ''='') of
        None \<Rightarrow> Inl InvalidDirective
      | Some (key0, value0) \<Rightarrow>
          let key = TrimSpace key0; value = TrimSpace value0; unsupported = Inl (UnsupportedValue key value)
          in if value = [] then Inl (EmptyDirective key)
             else if key = ''carrier'' then
               (if value \<noteq> ''quic'' then unsupported else Inr (tr\<lparr>tr_Carrier := value\<rparr>, peer))
             else if key = ''congestion'' then
               (if value \<notin> {''auto'', ''reno'', ''cubic'', ''model''} then unsupported else Inr (tr\<lparr>tr_Congestion := value\<rparr>, peer))
             else if key = ''fec'' then
               (if value \<notin> {''auto'', ''off''} then unsupported else Inr (tr\<lparr>tr_FEC := value\<rparr>, peer))
             else if key = ''fec-data-shards'' then
               (case Atoi value of None \<Rightarrow> unsupported
                | Some n \<Rightarrow> if n < 1 \<or> n > 32 then unsupported else Inr (tr\<lparr>tr_FECDataShards := n\<rparr>, peer))
             else if key = ''fec-interleave'' then
               (case Atoi value of None \<Rightarrow> unsupported
                | Some n \<Rightarrow> if n < 1 \<or> n > 4 then unsupported else Inr (tr\<lparr>tr_FECInterleave := n\<rparr>, peer))
             else if key = ''obfs'' then
               (if value \<notin> {''none'', ''salamander''} then unsupported else Inr (tr\<lparr>tr_Obfs := value\<rparr>, peer))
             else if key = ''peer.fec-latency'' then
               (case peer of
                  None \<Rightarrow> Inl LatencyOutsidePeer
                | Some p \<Rightarrow> if value \<in> {''latency'', ''balanced'', ''throughput''} then Inr (tr, Some (p\<lparr>pe_FECPolicy := value\<rparr>))
                            else unsupported)
             else Inl (UnknownDirective key))"

section \<open>Validation\<close>

text \<open>The loop over the peers, with the index of the next and the public keys seen.\<close>

fun validate_peers :: "netip_text \<Rightarrow> nat \<Rightarrow> string list \<Rightarrow> Peer list \<Rightarrow> config_error option" where
  "validate_peers nt i seen [] = None"
| "validate_peers nt i seen (p # ps) =
     (case decodeKey (pe_PublicKey p) of
        Inl e \<Rightarrow> Some (PeerKeyError (Suc i) e)
      | Inr _ \<Rightarrow>
          if pe_PublicKey p \<in> set seen then Some (PeerDuplicate (Suc i))
          else (case (if pe_PresharedKey p \<noteq> [] then decodeKey (pe_PresharedKey p) else Inr []) of
            Inl e \<Rightarrow> Some (PeerPreshared (Suc i) e)
          | Inr _ \<Rightarrow>
              (if pe_Endpoint p \<noteq> []
               then (case endpoint_Parse nt (pe_Endpoint p) of
                       Inl e \<Rightarrow> Some (PeerEndpoint (Suc i) e)
                     | Inr _ \<Rightarrow> validate_peers nt (Suc i) (pe_PublicKey p # seen) ps)
               else validate_peers nt (Suc i) (pe_PublicKey p # seen) ps)))"

definition Validate :: "netip_text \<Rightarrow> Config \<Rightarrow> config_error option" where
  "Validate nt cfg =
     (case decodeKey (if_PrivateKey (cf_Interface cfg)) of
        Inl e \<Rightarrow> Some (InterfaceKey e)
      | Inr _ \<Rightarrow> validate_peers nt 0 [] (cf_Peers cfg))"

section \<open>Parsing\<close>

datatype section_name = NoSection | InterfaceSection | PeerSection

text \<open>The state of the loop: the configuration so far, the section, and whether \<open>peer\<close> points to the last peer.\<close>

record parse_state =
  ps_cfg :: Config
  ps_section :: section_name
  ps_in_peer :: bool

definition current_peer :: "parse_state \<Rightarrow> Peer option" where
  "current_peer s = (if ps_in_peer s then Some (last (cf_Peers (ps_cfg s))) else None)"

definition set_last_peer :: "Peer \<Rightarrow> parse_state \<Rightarrow> parse_state" where
  "set_last_peer p s = s\<lparr>ps_cfg := (ps_cfg s)\<lparr>cf_Peers := butlast (cf_Peers (ps_cfg s)) @ [p]\<rparr>\<rparr>"

definition parse_line :: "netip_text \<Rightarrow> string \<Rightarrow> parse_state \<Rightarrow> config_error + parse_state" where
  "parse_line nt line s =
     (let raw = TrimSpace line
      in if raw = [] then Inr s
         else if HasPrefix raw ''# wg-quic:'' then
           (case parseDirective (cf_Transport (ps_cfg s)) (current_peer s) (TrimSpace (TrimPrefix raw ''# wg-quic:'')) of
              Inl e \<Rightarrow> Inl e
            | Inr (tr, peer) \<Rightarrow>
                let s = s\<lparr>ps_cfg := (ps_cfg s)\<lparr>cf_Transport := tr\<rparr>\<rparr>
                in Inr (case peer of None \<Rightarrow> s | Some p \<Rightarrow> set_last_peer p s))
         else if HasPrefix raw ''#'' \<or> HasPrefix raw '';'' then Inr s
         else if HasPrefix raw ''['' \<and> HasSuffix raw '']'' then
           (let name = ToLower (TrimSpace (butlast (tl raw)))
            in if name = ''interface'' then Inr (s\<lparr>ps_section := InterfaceSection, ps_in_peer := False\<rparr>)
               else if name = ''peer'' then
                 Inr (s\<lparr>ps_section := PeerSection, ps_cfg := (ps_cfg s)\<lparr>cf_Peers := cf_Peers (ps_cfg s) @ [zeroPeer]\<rparr>, ps_in_peer := True\<rparr>)
               else Inl (UnknownSection raw))
         else case Cut raw (CHR ''='') of
           None \<Rightarrow> Inl ExpectedKeyValue
         | Some (key0, value0) \<Rightarrow>
             let key = TrimSpace key0; value = TrimSpace value0
             in (case ps_section s of
                   InterfaceSection \<Rightarrow>
                     (case parseInterface nt (cf_Interface (ps_cfg s)) key value of
                        Inl e \<Rightarrow> Inl e
                      | Inr iface \<Rightarrow> Inr (s\<lparr>ps_cfg := (ps_cfg s)\<lparr>cf_Interface := iface\<rparr>\<rparr>))
                 | PeerSection \<Rightarrow>
                     (case parsePeer nt (current_peer s) key value of
                        Inl e \<Rightarrow> Inl e
                      | Inr p \<Rightarrow> Inr (set_last_peer p s))
                 | NoSection \<Rightarrow> Inl BeforeSection))"

fun parse_lines :: "netip_text \<Rightarrow> nat \<Rightarrow> string list \<Rightarrow> parse_state \<Rightarrow> config_error + parse_state" where
  "parse_lines nt n [] s = Inr s"
| "parse_lines nt n (line # rest) s =
     (case parse_line nt line s of Inl e \<Rightarrow> Inl (AtLine n e) | Inr s' \<Rightarrow> parse_lines nt (Suc n) rest s')"

definition Parse :: "netip_text \<Rightarrow> string list \<Rightarrow> bool \<Rightarrow> config_error + Config" where
  "Parse nt input scan_failed =
     (let start = \<lparr>ps_cfg = \<lparr>cf_Interface = zeroInterface, cf_Peers = [], cf_Transport = DefaultTransport\<rparr>,
                   ps_section = NoSection, ps_in_peer = False\<rparr>
      in case parse_lines nt 1 input start of
           Inl e \<Rightarrow> Inl e
         | Inr s \<Rightarrow>
             if scan_failed then Inl ScanFailed
             else (case Validate nt (ps_cfg s) of Some e \<Rightarrow> Inl e | None \<Rightarrow> Inr (ps_cfg s)))"

section \<open>The text for WireGuard\<close>

definition uapi_line :: "string \<Rightarrow> string \<Rightarrow> string" where
  "uapi_line key value = key @ ''='' @ value @ [char_of (10 :: nat)]"

fun uapi_peers :: "netip_text \<Rightarrow> Peer list \<Rightarrow> config_error + string" where
  "uapi_peers nt [] = Inr []"
| "uapi_peers nt (p # ps) =
     (case keyHex (pe_PublicKey p) of
        Inl e \<Rightarrow> Inl e
      | Inr publicKey \<Rightarrow>
          (case (if pe_PresharedKey p \<noteq> [] then map_sum id (uapi_line ''preshared_key'') (keyHex (pe_PresharedKey p)) else Inr []) of
             Inl e \<Rightarrow> Inl e
           | Inr psk \<Rightarrow>
               (case uapi_peers nt ps of
                  Inl e \<Rightarrow> Inl e
                | Inr rest \<Rightarrow>
                    Inr (uapi_line ''public_key'' publicKey @ uapi_line ''protocol_version'' ''1'' @ psk
                         @ (if pe_Endpoint p \<noteq> [] then uapi_line ''endpoint'' (pe_Endpoint p) else [])
                         @ uapi_line ''persistent_keepalive_interval'' (itoa_nat (unat (pe_PersistentKeepalive p)))
                         @ uapi_line ''replace_allowed_ips'' ''true''
                         @ concat (map (\<lambda>x. uapi_line ''allowed_ip'' (nt_PrefixString nt x)) (pe_AllowedIPs p))
                         @ rest))))"

definition UAPI :: "netip_text \<Rightarrow> Config \<Rightarrow> config_error + string" where
  "UAPI nt cfg =
     (case keyHex (if_PrivateKey (cf_Interface cfg)) of
        Inl e \<Rightarrow> Inl e
      | Inr privateKey \<Rightarrow>
          (case uapi_peers nt (cf_Peers cfg) of
             Inl e \<Rightarrow> Inl e
           | Inr peers \<Rightarrow>
               Inr (uapi_line ''private_key'' privateKey
                    @ uapi_line ''listen_port'' (itoa_nat (unat (if_ListenPort (cf_Interface cfg))))
                    @ uapi_line ''replace_peers'' ''true''
                    @ (if if_FwMark (cf_Interface cfg) \<noteq> 0 then uapi_line ''fwmark'' (itoa_nat (unat (if_FwMark (cf_Interface cfg)))) else [])
                    @ peers)))"

section \<open>Snapshots for the core process\<close>

text \<open>
  \<open>internal/config/snapshot.go\<close>.  The JSON encoder and decoder are those of the standard library: an encoder gives
  bytes or fails, and a decoder yields a value and the rest of the stream, fails, or is at the end.
\<close>

definition snapshotVersion :: int where
  "snapshotVersion = 1"

record snapshotEnvelope =
  env_Version :: int
  env_Config :: "Config option"

datatype 'a decoded = Decoded 'a bytes | DecodeFailed | DecodeEOF

record json_codec =
  js_Encode :: "snapshotEnvelope \<Rightarrow> bytes option"
  js_Decode :: "bytes \<Rightarrow> snapshotEnvelope decoded"
  js_DecodeAny :: "bytes \<Rightarrow> unit decoded"

datatype snapshot_error =
    NoConfiguration | SnapshotInvalid config_error | EncodeFailed | NoReader | SnapshotDecode | UnsupportedVersion int | TrailingData | TrailingDecode

definition MarshalSnapshot :: "netip_text \<Rightarrow> json_codec \<Rightarrow> Config option \<Rightarrow> snapshot_error + bytes" where
  "MarshalSnapshot nt js cfg =
     (case cfg of
        None \<Rightarrow> Inl NoConfiguration
      | Some c \<Rightarrow>
          (case Validate nt c of
             Some e \<Rightarrow> Inl (SnapshotInvalid e)
           | None \<Rightarrow>
               (case js_Encode js \<lparr>env_Version = snapshotVersion, env_Config = Some c\<rparr> of
                  None \<Rightarrow> Inl EncodeFailed
                | Some out \<Rightarrow> Inr out)))"

definition ParseSnapshot :: "netip_text \<Rightarrow> json_codec \<Rightarrow> bytes option \<Rightarrow> snapshot_error + Config" where
  "ParseSnapshot nt js r =
     (case r of
        None \<Rightarrow> Inl NoReader
      | Some input \<Rightarrow>
          (case js_Decode js input of
             DecodeFailed \<Rightarrow> Inl SnapshotDecode
           | DecodeEOF \<Rightarrow> Inl SnapshotDecode
           | Decoded envelope rest \<Rightarrow>
               if env_Version envelope \<noteq> snapshotVersion then Inl (UnsupportedVersion (env_Version envelope))
               else (case env_Config envelope of
                       None \<Rightarrow> Inl NoConfiguration
                     | Some c \<Rightarrow>
                         (case js_DecodeAny js rest of
                            Decoded _ _ \<Rightarrow> Inl TrailingData
                          | DecodeFailed \<Rightarrow> Inl TrailingDecode
                          | DecodeEOF \<Rightarrow> (case Validate nt c of Some e \<Rightarrow> Inl (SnapshotInvalid e) | None \<Rightarrow> Inr c)))))"

section \<open>What validation establishes\<close>

definition key_ok :: "string \<Rightarrow> bool" where
  "key_ok value = (case b64_DecodeString value of Some key \<Rightarrow> length key = 32 | None \<Rightarrow> False)"

definition peer_valid :: "netip_text \<Rightarrow> Peer \<Rightarrow> bool" where
  "peer_valid nt p =
     (key_ok (pe_PublicKey p) \<and> (pe_PresharedKey p \<noteq> [] \<longrightarrow> key_ok (pe_PresharedKey p))
      \<and> (pe_Endpoint p \<noteq> [] \<longrightarrow> isl (endpoint_Parse nt (pe_Endpoint p)) = False))"

definition config_valid :: "netip_text \<Rightarrow> Config \<Rightarrow> bool" where
  "config_valid nt cfg =
     (key_ok (if_PrivateKey (cf_Interface cfg)) \<and> list_all (peer_valid nt) (cf_Peers cfg) \<and> distinct (map pe_PublicKey (cf_Peers cfg)))"

text \<open>The ranges of the parsed fields.\<close>

definition interface_in_range :: "Interface \<Rightarrow> bool" where
  "interface_in_range i = (if_MTU i = 0 \<or> 576 \<le> if_MTU i \<and> if_MTU i \<le> 65535)"

definition transport_in_range :: "Transport \<Rightarrow> bool" where
  "transport_in_range t =
     (tr_Carrier t = ''quic'' \<and> tr_Congestion t \<in> {''auto'', ''reno'', ''cubic'', ''model''} \<and> tr_FEC t \<in> {''auto'', ''off''}
      \<and> tr_Obfs t \<in> {''none'', ''salamander''} \<and> 0 \<le> tr_FECDataShards t \<and> tr_FECDataShards t \<le> 32
      \<and> 0 \<le> tr_FECInterleave t \<and> tr_FECInterleave t \<le> 4)"

definition peer_in_range :: "Peer \<Rightarrow> bool" where
  "peer_in_range p =
     ((\<forall>x \<in> set (pe_AllowedIPs p). Masked x = x) \<and> pe_FECPolicy p \<in> {[], ''latency'', ''balanced'', ''throughput''})"

definition config_in_range :: "Config \<Rightarrow> bool" where
  "config_in_range cfg =
     (interface_in_range (cf_Interface cfg) \<and> transport_in_range (cf_Transport cfg) \<and> list_all peer_in_range (cf_Peers cfg))"

lemma decodeKey_ok: "decodeKey v = Inr key \<Longrightarrow> key_ok v" "decodeKey v = Inr key \<Longrightarrow> length key = 32"
  by (auto simp: decodeKey_def key_ok_def split: if_splits option.splits)

lemma key_ok_decodeKey: "key_ok v \<Longrightarrow> \<exists>key. decodeKey v = Inr key"
  by (auto simp: decodeKey_def key_ok_def b64_DecodeString_def split: option.splits)

lemma isl_decodeKey: "isl (decodeKey v) \<longleftrightarrow> \<not> key_ok v"
  using key_ok_decodeKey decodeKey_ok(1) by (cases "decodeKey v") fastforce+

lemma validate_peers_iff:
  "validate_peers nt i seen ps = None \<longleftrightarrow>
     list_all (peer_valid nt) ps \<and> distinct (map pe_PublicKey ps) \<and> set (map pe_PublicKey ps) \<inter> set seen = {}"
proof (induction ps arbitrary: i seen)
  case Nil
  then show ?case by simp
next
  case (Cons p ps)
  have k: "key_ok v \<longleftrightarrow> \<not> isl (decodeKey v)" for v
    by (simp add: isl_decodeKey)
  show ?case
    by (cases "decodeKey (pe_PublicKey p)"; cases "decodeKey (pe_PresharedKey p)"; cases "endpoint_Parse nt (pe_Endpoint p)")
      (auto simp: Cons.IH peer_valid_def k)
qed

lemma Validate_iff: "Validate nt cfg = None \<longleftrightarrow> config_valid nt cfg"
proof -
  have k: "key_ok v \<longleftrightarrow> \<not> isl (decodeKey v)" for v
    by (simp add: isl_decodeKey)
  show ?thesis
    by (cases "decodeKey (if_PrivateKey (cf_Interface cfg))") (auto simp: Validate_def config_valid_def k validate_peers_iff)
qed

text \<open>The core accepts exactly the valid configurations, and reads back what the supervisor wrote.\<close>

lemma ParseSnapshot_valid: "ParseSnapshot nt js r = Inr c \<Longrightarrow> config_valid nt c"
  by (auto simp: ParseSnapshot_def Validate_iff [symmetric] split: option.splits decoded.splits if_splits)

lemma snapshot_read_back:
  assumes "MarshalSnapshot nt js (Some c) = Inr out"
    and "\<And>env bs. js_Encode js env = Some bs \<Longrightarrow> \<exists>rest. js_Decode js bs = Decoded env rest \<and> js_DecodeAny js rest = DecodeEOF"
  shows "ParseSnapshot nt js (Some out) = Inr c"
proof -
  have "Validate nt c = None" "js_Encode js \<lparr>env_Version = snapshotVersion, env_Config = Some c\<rparr> = Some out"
    using assms(1) by (auto simp: MarshalSnapshot_def split: option.splits)
  then show ?thesis using assms(2) by (fastforce simp: ParseSnapshot_def)
qed

section \<open>What parsing establishes\<close>

lemma prefix_loop_image: "prefix_loop nt f vs = Some ps \<Longrightarrow> set ps \<subseteq> range f"
  by (induction vs arbitrary: ps) (auto split: option.splits)

lemma parsePrefixes_masked: "parsePrefixes nt v = Some ps \<Longrightarrow> x \<in> set ps \<Longrightarrow> Masked x = x"
  using prefix_loop_image Masked_idem unfolding parsePrefixes_def by fastforce

text \<open>A chain of alternatives, whichever is taken.\<close>

lemma if_either: "(if c then a else b) = x \<Longrightarrow> (a = x \<Longrightarrow> P) \<Longrightarrow> (b = x \<Longrightarrow> P) \<Longrightarrow> P"
  by (cases c) auto

lemma parseInterface_range: "parseInterface nt i k v = Inr i' \<Longrightarrow> interface_in_range i \<Longrightarrow> interface_in_range i'"
  unfolding parseInterface_def Let_def
  by (elim if_either [where c = "ToLower k = w" for w]) (auto simp: interface_in_range_def split: if_splits option.splits)

lemma parsePeer_range: "parsePeer nt (Some p) k v = Inr p' \<Longrightarrow> peer_in_range p \<Longrightarrow> peer_in_range p'"
  unfolding parsePeer_def Let_def option.case
  by (elim if_either [where c = "_ = (_ :: string)"]) (auto simp: peer_in_range_def dest: parsePrefixes_masked split: option.splits)

lemma transport_in_range_update:
  assumes "transport_in_range t"
  shows "v = ''quic'' \<Longrightarrow> transport_in_range (t\<lparr>tr_Carrier := v\<rparr>)"
    and "v \<in> {''auto'', ''reno'', ''cubic'', ''model''} \<Longrightarrow> transport_in_range (t\<lparr>tr_Congestion := v\<rparr>)"
    and "v \<in> {''auto'', ''off''} \<Longrightarrow> transport_in_range (t\<lparr>tr_FEC := v\<rparr>)"
    and "v \<in> {''none'', ''salamander''} \<Longrightarrow> transport_in_range (t\<lparr>tr_Obfs := v\<rparr>)"
    and "0 \<le> n \<Longrightarrow> n \<le> 32 \<Longrightarrow> transport_in_range (t\<lparr>tr_FECDataShards := n\<rparr>)"
    and "0 \<le> n \<Longrightarrow> n \<le> 4 \<Longrightarrow> transport_in_range (t\<lparr>tr_FECInterleave := n\<rparr>)"
  using assms by (simp_all add: transport_in_range_def)

lemma parseDirective_step:
  assumes "parseDirective t p d = Inr (t', p')"
  shows "(transport_in_range t \<longrightarrow> transport_in_range t')
    \<and> (p' = p \<or> (\<exists>q w. p = Some q \<and> p' = Some (q\<lparr>pe_FECPolicy := w\<rparr>) \<and> w \<in> {''latency'', ''balanced'', ''throughput''}))"
proof -
  obtain k v where cut: "Cut d (CHR ''='') = Some (k, v)"
    using assms by (cases "Cut d (CHR ''='')") (auto simp: parseDirective_def)
  show ?thesis
    using assms unfolding parseDirective_def Let_def cut option.case prod.case
    by (elim if_either [where c = "TrimSpace _ = (_ :: string)"]) (auto simp del: insert_iff intro: transport_in_range_update split: if_splits option.splits)
qed

lemma parseDirective_transport: "parseDirective t p d = Inr (t', p') \<Longrightarrow> transport_in_range t \<Longrightarrow> transport_in_range t'"
  using parseDirective_step by blast

lemma parseDirective_peer:
  assumes "parseDirective t p d = Inr (t', p')"
  shows "p = None \<Longrightarrow> p' = None" and "p = Some q \<Longrightarrow> peer_in_range q \<Longrightarrow> \<exists>q'. p' = Some q' \<and> peer_in_range q'"
  using parseDirective_step [OF assms] by (auto simp: peer_in_range_def)

definition parse_state_ok :: "parse_state \<Rightarrow> bool" where
  "parse_state_ok s = (config_in_range (ps_cfg s) \<and> (ps_in_peer s \<longrightarrow> cf_Peers (ps_cfg s) \<noteq> []))"

lemma set_last_peer_ok: "parse_state_ok s \<Longrightarrow> peer_in_range p \<Longrightarrow> parse_state_ok (set_last_peer p s)"
  by (auto simp: parse_state_ok_def set_last_peer_def config_in_range_def list_all_iff dest: in_set_butlastD)

lemma current_peer_range: "parse_state_ok s \<Longrightarrow> current_peer s = Some p \<Longrightarrow> peer_in_range p"
  by (auto simp: parse_state_ok_def current_peer_def config_in_range_def list_all_iff split: if_splits)

lemma parse_directive_ok:
  assumes ok: "parse_state_ok s" and dir: "parseDirective (cf_Transport (ps_cfg s)) (current_peer s) d = Inr (tr, peer)"
  defines "s' \<equiv> s\<lparr>ps_cfg := (ps_cfg s)\<lparr>cf_Transport := tr\<rparr>\<rparr>"
  shows "parse_state_ok (case peer of None \<Rightarrow> s' | Some p \<Rightarrow> set_last_peer p s')"
proof -
  have s': "parse_state_ok s'"
    using ok parseDirective_transport [OF dir] by (auto simp: s'_def parse_state_ok_def config_in_range_def)
  show ?thesis
  proof (cases peer)
    case None
    then show ?thesis using s' by simp
  next
    case (Some p)
    then obtain q where "current_peer s = Some q"
      using parseDirective_peer(1) [OF dir] by (cases "current_peer s") auto
    then have "peer_in_range p"
      using parseDirective_peer(2) [OF dir] current_peer_range [OF ok] Some by fastforce
    then show ?thesis using s' Some set_last_peer_ok by simp
  qed
qed

lemma parse_line_ok:
  assumes ok: "parse_state_ok s" and step: "parse_line nt line s = Inr s'"
  shows "parse_state_ok s'"
proof -
  define raw where "raw = TrimSpace line"
  have peer: "parse_state_ok (set_last_peer p s)" if e: "parsePeer nt (current_peer s) k v = Inr p" for p k v
  proof -
    obtain q where "current_peer s = Some q"
      using e by (cases "current_peer s") (auto simp: parsePeer_def)
    then show ?thesis using e parsePeer_range current_peer_range [OF ok] set_last_peer_ok [OF ok] by fastforce
  qed
  have iface: "parse_state_ok (s\<lparr>ps_cfg := (ps_cfg s)\<lparr>cf_Interface := i\<rparr>\<rparr>)"
    if "parseInterface nt (cf_Interface (ps_cfg s)) k v = Inr i" for i k v
    using parseInterface_range [OF that] ok by (auto simp: parse_state_ok_def config_in_range_def)
  have new: "parse_state_ok (s\<lparr>ps_section := PeerSection, ps_cfg := (ps_cfg s)\<lparr>cf_Peers := cf_Peers (ps_cfg s) @ [zeroPeer]\<rparr>, ps_in_peer := True\<rparr>)"
    using ok by (auto simp: parse_state_ok_def config_in_range_def peer_in_range_def zeroPeer_def)
  have old: "parse_state_ok (s\<lparr>ps_section := InterfaceSection, ps_in_peer := False\<rparr>)"
    using ok by (auto simp: parse_state_ok_def)
  have none: "parse_state_ok (s\<lparr>ps_cfg := (ps_cfg s)\<lparr>cf_Transport := tr\<rparr>\<rparr>)"
    if "parseDirective (cf_Transport (ps_cfg s)) (current_peer s) d = Inr (tr, None)" for d tr
    using parse_directive_ok [OF ok that] by simp
  have some: "parse_state_ok (set_last_peer p (s\<lparr>ps_cfg := (ps_cfg s)\<lparr>cf_Transport := tr\<rparr>\<rparr>))"
    if "parseDirective (cf_Transport (ps_cfg s)) (current_peer s) d = Inr (tr, Some p)" for d tr p
    using parse_directive_ok [OF ok that] by simp
  show ?thesis
    using step ok unfolding parse_line_def raw_def [symmetric] Let_def
    by (auto split: if_splits prod.splits sum.splits section_name.splits option.splits intro: peer iface new old none some)
qed

lemma parse_lines_ok: "parse_lines nt n ls s = Inr s' \<Longrightarrow> parse_state_ok s \<Longrightarrow> parse_state_ok s'"
  by (induction ls arbitrary: n s) (auto split: sum.splits dest: parse_line_ok)

lemma Parse_cases:
  assumes "Parse nt input bad = Inr cfg"
  obtains s where "\<not> bad" "Validate nt cfg = None" "cfg = ps_cfg s" "parse_state_ok s"
proof -
  let ?start = "\<lparr>ps_cfg = \<lparr>cf_Interface = zeroInterface, cf_Peers = [], cf_Transport = DefaultTransport\<rparr>, ps_section = NoSection, ps_in_peer = False\<rparr>"
  have "parse_state_ok ?start"
    by (simp add: parse_state_ok_def config_in_range_def interface_in_range_def transport_in_range_def zeroInterface_def DefaultTransport_def)
  then show thesis
    using assms that parse_lines_ok [of nt 1 input ?start]
    by (auto simp: Parse_def Let_def split: sum.splits if_splits option.splits)
qed

lemma uapi_peers_total: "list_all (peer_valid nt) ps \<Longrightarrow> \<exists>out. uapi_peers nt ps = Inr out"
proof (induction ps)
  case Nil
  then show ?case by simp
next
  case (Cons p ps)
  obtain rest where "uapi_peers nt ps = Inr rest"
    using Cons by auto
  moreover obtain key where "decodeKey (pe_PublicKey p) = Inr key"
    using Cons.prems key_ok_decodeKey by (auto simp: peer_valid_def)
  moreover have "pe_PresharedKey p = [] \<or> (\<exists>psk. decodeKey (pe_PresharedKey p) = Inr psk)"
    using Cons.prems by (auto simp: peer_valid_def dest: key_ok_decodeKey)
  ultimately show ?case by (auto simp: keyHex_def)
qed

lemma UAPI_total:
  assumes "config_valid nt cfg"
  shows "\<exists>out. UAPI nt cfg = Inr out"
proof -
  obtain key out where "decodeKey (if_PrivateKey (cf_Interface cfg)) = Inr key" "uapi_peers nt (cf_Peers cfg) = Inr out"
    using assms key_ok_decodeKey uapi_peers_total unfolding config_valid_def by blast
  then show ?thesis by (simp add: UAPI_def keyHex_def)
qed

section \<open>Properties\<close>


text \<open>A tunnel with one peer.\<close>

definition sample_file :: "string list" where
  "sample_file =
     [''[Interface]'', ''PrivateKey = AAAAAAAAAAAAAAAAAAAAAAAAAAAAAAAAAAAAAAAAAAA='', ''Address = 10.0.0.2/24'', ''# wg-quic: fec-data-shards = 8'',
      ''[Peer]'', ''PublicKey = BBBBBBBBBBBBBBBBBBBBBBBBBBBBBBBBBBBBBBBBBBA='', ''AllowedIPs = 10.0.0.1/24, 10.1.0.0/16'',
      ''Endpoint = 192.0.2.1:51820'', ''# wg-quic: peer.fec-latency = latency'']"


end
