(* ===== verification/Desired_State.thy ===== *)
theory Desired_State
  imports Config
begin

text \<open>
  The canonical form of a configuration, \<open>internal/reconcile/model.go\<close>: canonical keys, addresses, names and endpoints,
  one owner per prefix, peers in the order of their decoded keys, and a digest of everything that is not secret.
\<close>

definition DefaultFECPolicy :: string where
  "DefaultFECPolicy = ''balanced''"

datatype desired_error =
    ConfigurationRequired
  | NotBase64 | NotKeyLength nat | NotCanonicalBase64
  | InterfaceKeyError desired_error | InvalidInterfaceAddress | DuplicateInterfaceAddress prefix
  | EmptyDNS nat | BadDNS nat desired_error
  | UnsupportedCarrier string | UnsupportedCongestion string | UnsupportedFEC string | UnsupportedObfs string
  | DataShardsRange | InterleaveRange
  | PeerPublicKeyError nat desired_error | PeerKeyDuplicate nat | PeerPresharedError nat desired_error
  | PeerEndpointError nat desired_error | PeerPolicy nat string
  | PrefixInvalid nat nat | PrefixDuplicate nat prefix | PrefixOwned nat prefix string
  | EndpointSyntax endpoint_error | EndpointUnspecified
  | HostnameLength | HostnameLabel string | HostnameHyphen string | HostnameCharacter string
  | ConfigInvalid config_error
  | ProjectionEncode

section \<open>Keys, names and endpoints\<close>

definition canonicalKey :: "string \<Rightarrow> desired_error + string" where
  "canonicalKey value =
     (case b64_DecodeString value of
        None \<Rightarrow> Inl NotBase64
      | Some decoded \<Rightarrow>
          if length decoded \<noteq> 32 then Inl (NotKeyLength (length decoded))
          else if value \<noteq> b64_EncodeToString decoded then Inl NotCanonicalBase64
          else Inr (b64_EncodeToString decoded))"

definition canonicalPublicKey :: "string \<Rightarrow> desired_error + string \<times> bytes" where
  "canonicalPublicKey value =
     (case canonicalKey value of
        Inl e \<Rightarrow> Inl e
      | Inr canonical \<Rightarrow>
          Inr (canonical, (case b64_DecodeString canonical of None \<Rightarrow> replicate 32 0 | Some decoded \<Rightarrow> decoded)))"

definition hostname_char :: "char \<Rightarrow> bool" where
  "hostname_char c \<longleftrightarrow> CHR ''a'' \<le> c \<and> c \<le> CHR ''z'' \<or> CHR ''0'' \<le> c \<and> c \<le> CHR ''9'' \<or> c = CHR ''-''"

fun hostname_labels :: "string list \<Rightarrow> desired_error option" where
  "hostname_labels [] = None"
| "hostname_labels (l # ls) =
     (if l = [] \<or> length l > 63 then Some (HostnameLabel l)
      else if hd l = CHR ''-'' \<or> last l = CHR ''-'' then Some (HostnameHyphen l)
      else if \<not> list_all hostname_char l then Some (HostnameCharacter l)
      else hostname_labels ls)"

definition canonicalHostname :: "string \<Rightarrow> desired_error + string" where
  "canonicalHostname value =
     (let value = ToLower (TrimSuffix (TrimSpace value) ''.'')
      in if value = [] \<or> length value > 253 then Inl HostnameLength
         else (case hostname_labels (Split value (CHR ''.'')) of Some e \<Rightarrow> Inl e | None \<Rightarrow> Inr value))"

fun IsUnspecified :: "ipaddr \<Rightarrow> bool" where
  "IsUnspecified NoAddr = False"
| "IsUnspecified (V4 w) = (w = 0)"
| "IsUnspecified (V6 w z) = (w = 0 \<and> z = [])"

definition AddrPort_String :: "netip_text \<Rightarrow> addrPort \<Rightarrow> string" where
  "AddrPort_String nt ap =
     (case fst ap of
        NoAddr \<Rightarrow> ''invalid AddrPort''
      | V4 _ \<Rightarrow> nt_AddrString nt (fst ap) @ '':'' @ itoa_nat (unat (snd ap))
      | V6 _ _ \<Rightarrow> ''['' @ nt_AddrString nt (fst ap) @ '']:'' @ itoa_nat (unat (snd ap)))"

definition JoinHostPort :: "string \<Rightarrow> string \<Rightarrow> string" where
  "JoinHostPort host port = (if CHR '':'' \<in> set host then ''['' @ host @ '']:'' @ port else host @ '':'' @ port)"

definition canonicalEndpoint :: "netip_text \<Rightarrow> string \<Rightarrow> desired_error + string" where
  "canonicalEndpoint nt value =
     (case endpoint_Parse nt value of
        Inl e \<Rightarrow> Inl (EndpointSyntax e)
      | Inr spec \<Rightarrow>
          (case Spec_AddrPort spec of
             Some endpoint \<Rightarrow>
               if IsUnspecified (fst endpoint) then Inl EndpointUnspecified else Inr (AddrPort_String nt endpoint)
           | None \<Rightarrow>
               (case canonicalHostname (sp_Host spec) of
                  Inl e \<Rightarrow> Inl e
                | Inr host \<Rightarrow> Inr (JoinHostPort host (itoa_nat (unat (sp_Port spec)))))))"

text \<open>The comparison of \<open>sortPrefixes\<close>: IPv4 first, then by length, then by address.\<close>

definition prefix_rank :: "prefix \<Rightarrow> bool \<times> int \<times> ipaddr" where
  "prefix_rank p = (\<not> Addr_Is4 (fst p), snd p, fst p)"

definition sortPrefixes :: "prefix list \<Rightarrow> prefix list" where
  "sortPrefixes ps = sort_key prefix_rank ps"

section \<open>The interface and the transport\<close>

fun check_addresses :: "prefix list \<Rightarrow> prefix list \<Rightarrow> desired_error option" where
  "check_addresses seen [] = None"
| "check_addresses seen (a # as) =
     (if \<not> Prefix_IsValid a then Some InvalidInterfaceAddress
      else if a \<in> set seen then Some (DuplicateInterfaceAddress a)
      else check_addresses (a # seen) as)"

definition canonicalDNS :: "netip_text \<Rightarrow> nat \<Rightarrow> string \<Rightarrow> desired_error + string" where
  "canonicalDNS nt index value =
     (let value = TrimSpace value
      in if value = [] then Inl (EmptyDNS (Suc index))
         else (case nt_ParseAddr nt value of
                 Some address \<Rightarrow> Inr (nt_AddrString nt (Unmap address))
               | None \<Rightarrow>
                   let (pre, value) = (if HasPrefix value ''~'' then (''~'', TrimPrefix value ''~'') else ([], value))
                   in if pre = ''~'' \<and> value = ''.'' then Inr ''~.''
                      else (case canonicalHostname value of Inl e \<Rightarrow> Inl (BadDNS (Suc index) e) | Inr host \<Rightarrow> Inr (pre @ host))))"

fun dns_loop :: "netip_text \<Rightarrow> nat \<Rightarrow> string list \<Rightarrow> desired_error + string list" where
  "dns_loop nt index [] = Inr []"
| "dns_loop nt index (v # vs) =
     (case canonicalDNS nt index v of
        Inl e \<Rightarrow> Inl e
      | Inr w \<Rightarrow> (case dns_loop nt (Suc index) vs of Inl e \<Rightarrow> Inl e | Inr ws \<Rightarrow> Inr (w # ws)))"

definition canonicalizeInterface :: "netip_text \<Rightarrow> Config \<Rightarrow> desired_error + Config" where
  "canonicalizeInterface nt cfg =
     (case canonicalKey (if_PrivateKey (cf_Interface cfg)) of
        Inl e \<Rightarrow> Inl (InterfaceKeyError e)
      | Inr privateKey \<Rightarrow>
          let mtu = (if if_MTU (cf_Interface cfg) = 0 then EffectiveMTU (Some cfg) else if_MTU (cf_Interface cfg));
              tab = ToLower (TrimSpace (if_Table (cf_Interface cfg)));
              tab = (if tab = [] then ''auto'' else tab);
              addresses = if_Addresses (cf_Interface cfg)
          in (case check_addresses [] addresses of
                Some e \<Rightarrow> Inl e
              | None \<Rightarrow>
                  (case dns_loop nt 0 (if_DNS (cf_Interface cfg)) of
                     Inl e \<Rightarrow> Inl e
                   | Inr dns \<Rightarrow>
                       Inr (cfg\<lparr>cf_Interface := (cf_Interface cfg)\<lparr>if_PrivateKey := privateKey, if_MTU := mtu, if_Table := tab,
                                  if_Addresses := sortPrefixes addresses, if_DNS := dns\<rparr>\<rparr>))))"

definition or_default :: "string \<Rightarrow> string \<Rightarrow> string" where
  "or_default value fallback = (if value = [] then fallback else value)"

definition canonicalizeTransport :: "Config \<Rightarrow> desired_error + Config" where
  "canonicalizeTransport cfg =
     (let t = cf_Transport cfg;
          t = t\<lparr>tr_Carrier := or_default (tr_Carrier t) (tr_Carrier DefaultTransport),
                tr_Congestion := or_default (tr_Congestion t) (tr_Congestion DefaultTransport),
                tr_FEC := or_default (tr_FEC t) (tr_FEC DefaultTransport),
                tr_Obfs := or_default (tr_Obfs t) (tr_Obfs DefaultTransport)\<rparr>
      in if tr_Carrier t \<noteq> ''quic'' then Inl (UnsupportedCarrier (tr_Carrier t))
         else if tr_Congestion t \<notin> {''auto'', ''reno'', ''cubic'', ''model''} then Inl (UnsupportedCongestion (tr_Congestion t))
         else if tr_FEC t \<notin> {''auto'', ''off''} then Inl (UnsupportedFEC (tr_FEC t))
         else if tr_Obfs t \<notin> {''none'', ''salamander''} then Inl (UnsupportedObfs (tr_Obfs t))
         else if tr_FECDataShards t < 0 \<or> tr_FECDataShards t > 32 then Inl DataShardsRange
         else if tr_FECInterleave t < 0 \<or> tr_FECInterleave t > 4 then Inl InterleaveRange
         else Inr (cfg\<lparr>cf_Transport := t\<rparr>))"

section \<open>The peers\<close>

record Desired =
  de_config :: Config
  de_peerKeyBytes :: "(string \<times> bytes) list"
  de_nonSecretDigest :: string

text \<open>The loop over the prefixes of a peer, with those seen in the peer and the owners of all seen so far.\<close>

fun allowed_loop :: "nat \<Rightarrow> string \<Rightarrow> nat \<Rightarrow> prefix list \<Rightarrow> (prefix \<times> string) list \<Rightarrow> prefix list
    \<Rightarrow> desired_error + prefix list \<times> (prefix \<times> string) list" where
  "allowed_loop index publicKey k seen owners [] = Inr ([], owners)"
| "allowed_loop index publicKey k seen owners (p # ps) =
     (if \<not> Prefix_IsValid p then Inl (PrefixInvalid (Suc index) (Suc k))
      else let prefix = Masked p
      in if prefix \<in> set seen then Inl (PrefixDuplicate (Suc index) prefix)
         else (case map_of owners prefix of
                 Some owner \<Rightarrow> Inl (PrefixOwned (Suc index) prefix owner)
               | None \<Rightarrow>
                   (case allowed_loop index publicKey (Suc k) (prefix # seen) (AList.update prefix publicKey owners) ps of
                      Inl e \<Rightarrow> Inl e
                    | Inr (rest, owners') \<Rightarrow> Inr (prefix # rest, owners'))))"

definition canonical_secret :: "(string \<Rightarrow> Peer option) \<Rightarrow> string \<Rightarrow> Peer \<Rightarrow> desired_error + string" where
  "canonical_secret activePeers publicKey peer =
     (if pe_PresharedKey peer = []
      then Inr (case activePeers publicKey of Some current \<Rightarrow> pe_PresharedKey current | None \<Rightarrow> [])
      else canonicalKey (pe_PresharedKey peer))"

text \<open>One round of the loop over the peers: the peer in canonical form, the decoded keys and the owners.\<close>

definition canonical_peer :: "netip_text \<Rightarrow> (string \<Rightarrow> Peer option) \<Rightarrow> nat \<Rightarrow> (string \<times> bytes) list \<Rightarrow> (prefix \<times> string) list \<Rightarrow> Peer
    \<Rightarrow> desired_error + Peer \<times> (string \<times> bytes) list \<times> (prefix \<times> string) list" where
  "canonical_peer nt activePeers index peerKeys owners peer =
     (case canonicalPublicKey (pe_PublicKey peer) of
        Inl e \<Rightarrow> Inl (PeerPublicKeyError (Suc index) e)
      | Inr (publicKey, decoded) \<Rightarrow>
          if map_of peerKeys publicKey \<noteq> None then Inl (PeerKeyDuplicate (Suc index))
          else (case canonical_secret activePeers publicKey peer of
                  Inl e \<Rightarrow> Inl (PeerPresharedError (Suc index) e)
                | Inr psk \<Rightarrow>
                    (case (if pe_Endpoint peer \<noteq> [] then canonicalEndpoint nt (pe_Endpoint peer) else Inr []) of
                       Inl e \<Rightarrow> Inl (PeerEndpointError (Suc index) e)
                     | Inr endpoint \<Rightarrow>
                         let policy = or_default (pe_FECPolicy peer) DefaultFECPolicy
                         in if policy \<notin> {''latency'', ''balanced'', ''throughput''} then Inl (PeerPolicy (Suc index) policy)
                            else (case allowed_loop index publicKey 0 [] owners (pe_AllowedIPs peer) of
                                    Inl e \<Rightarrow> Inl e
                                  | Inr (allowed, owners') \<Rightarrow>
                                      Inr (peer\<lparr>pe_PublicKey := publicKey, pe_PresharedKey := psk, pe_Endpoint := endpoint,
                                                pe_FECPolicy := policy, pe_AllowedIPs := sortPrefixes allowed\<rparr>,
                                           AList.update publicKey decoded peerKeys, owners')))))"

fun peers_loop :: "netip_text \<Rightarrow> (string \<Rightarrow> Peer option) \<Rightarrow> nat \<Rightarrow> (string \<times> bytes) list \<Rightarrow> (prefix \<times> string) list \<Rightarrow> Peer list
    \<Rightarrow> desired_error + Peer list \<times> (string \<times> bytes) list" where
  "peers_loop nt activePeers index peerKeys owners [] = Inr ([], peerKeys)"
| "peers_loop nt activePeers index peerKeys owners (p # ps) =
     (case canonical_peer nt activePeers index peerKeys owners p of
        Inl e \<Rightarrow> Inl e
      | Inr (p', peerKeys', owners') \<Rightarrow>
          (case peers_loop nt activePeers (Suc index) peerKeys' owners' ps of
             Inl e \<Rightarrow> Inl e
           | Inr (ps', final) \<Rightarrow> Inr (p' # ps', final)))"

definition peerMap :: "Peer list \<Rightarrow> (string \<times> Peer) list" where
  "peerMap peers = fold (\<lambda>p m. AList.update (pe_PublicKey p) p m) peers []"

definition canonicalizePeers :: "netip_text \<Rightarrow> Config \<Rightarrow> Desired option \<Rightarrow> desired_error + Config \<times> (string \<times> bytes) list" where
  "canonicalizePeers nt cfg active =
     (let activePeers = (case active of None \<Rightarrow> [] | Some d \<Rightarrow> peerMap (cf_Peers (de_config d)))
      in case peers_loop nt (map_of activePeers) 0 [] [] (cf_Peers cfg) of
           Inl e \<Rightarrow> Inl e
         | Inr (peers, peerKeys) \<Rightarrow>
             Inr (cfg\<lparr>cf_Peers := sort_key (\<lambda>p. case map_of peerKeys (pe_PublicKey p) of Some k \<Rightarrow> k | None \<Rightarrow> replicate 32 0) peers\<rparr>,
                  peerKeys))"

section \<open>The digest\<close>

record nonSecretInterface =
  ns_Addresses :: "prefix list"
  ns_ListenPort :: u16
  ns_FwMark :: u32
  ns_DNS :: "string list"
  ns_MTU :: int
  ns_Table :: string
  ns_PreUp :: "string list"
  ns_PostUp :: "string list"
  ns_PreDown :: "string list"
  ns_PostDown :: "string list"
  ns_SaveConfig :: bool

record nonSecretPeer =
  np_PublicKey :: string
  np_AllowedIPs :: "prefix list"
  np_Endpoint :: string
  np_PersistentKeepalive :: u16
  np_FECPolicy :: string

record nonSecretProjection =
  nj_Interface :: nonSecretInterface
  nj_Transport :: Transport
  nj_Peers :: "nonSecretPeer list"

text \<open>\<open>json.Marshal\<close> of the projection and \<open>sha256.Sum256\<close>.\<close>

record digest_lib =
  dl_Marshal :: "nonSecretProjection \<Rightarrow> bytes option"
  dl_Sum256 :: "bytes \<Rightarrow> bytes"

definition projection :: "Config \<Rightarrow> nonSecretProjection" where
  "projection cfg =
     (let i = cf_Interface cfg
      in \<lparr>nj_Interface = \<lparr>ns_Addresses = if_Addresses i, ns_ListenPort = if_ListenPort i, ns_FwMark = if_FwMark i, ns_DNS = if_DNS i,
            ns_MTU = if_MTU i, ns_Table = if_Table i, ns_PreUp = if_PreUp i, ns_PostUp = if_PostUp i, ns_PreDown = if_PreDown i,
            ns_PostDown = if_PostDown i, ns_SaveConfig = if_SaveConfig i\<rparr>,
          nj_Transport = cf_Transport cfg,
          nj_Peers = map (\<lambda>p. \<lparr>np_PublicKey = pe_PublicKey p, np_AllowedIPs = pe_AllowedIPs p, np_Endpoint = pe_Endpoint p,
            np_PersistentKeepalive = pe_PersistentKeepalive p, np_FECPolicy = pe_FECPolicy p\<rparr>) (cf_Peers cfg)\<rparr>)"

definition digestNonSecret :: "digest_lib \<Rightarrow> Config \<Rightarrow> desired_error + string" where
  "digestNonSecret dl cfg =
     (case dl_Marshal dl (projection cfg) of
        None \<Rightarrow> Inl ProjectionEncode
      | Some encoded \<Rightarrow> Inr (''sha256:'' @ hex_EncodeToString (dl_Sum256 dl encoded)))"

definition FromConfig :: "netip_text \<Rightarrow> digest_lib \<Rightarrow> Config option \<Rightarrow> Desired option \<Rightarrow> desired_error + Desired" where
  "FromConfig nt dl cfg active =
     (case cfg of
        None \<Rightarrow> Inl ConfigurationRequired
      | Some c0 \<Rightarrow>
          (case canonicalizeInterface nt c0 of
             Inl e \<Rightarrow> Inl e
           | Inr c1 \<Rightarrow>
               (case canonicalizeTransport c1 of
                  Inl e \<Rightarrow> Inl e
                | Inr c2 \<Rightarrow>
                    (case canonicalizePeers nt c2 active of
                       Inl e \<Rightarrow> Inl e
                     | Inr (candidate, peerKeys) \<Rightarrow>
                         (case Validate nt candidate of
                            Some e \<Rightarrow> Inl (ConfigInvalid e)
                          | None \<Rightarrow>
                              (case digestNonSecret dl candidate of
                                 Inl e \<Rightarrow> Inl e
                               | Inr digest \<Rightarrow>
                                   Inr \<lparr>de_config = candidate, de_peerKeyBytes = peerKeys, de_nonSecretDigest = digest\<rparr>))))))"

definition Desired_Config :: "Desired option \<Rightarrow> Config option" where
  "Desired_Config d = map_option de_config d"

definition Desired_Digest :: "Desired option \<Rightarrow> string" where
  "Desired_Digest d = (case d of None \<Rightarrow> [] | Some d \<Rightarrow> de_nonSecretDigest d)"

definition shortKey :: "string \<Rightarrow> string" where
  "shortKey publicKey = take 8 publicKey"

definition equalSecret :: "string \<Rightarrow> string \<Rightarrow> bool" where
  "equalSecret left right = (left = right)"

section \<open>Sorting\<close>

lemma inj_prefix_rank: "inj prefix_rank"
  by (auto simp: inj_def prefix_rank_def prod_eq_iff)

lemma sortPrefixes_mset [simp]: "mset (sortPrefixes ps) = mset ps"
  by (simp add: sortPrefixes_def)

lemma sortPrefixes_set [simp]: "set (sortPrefixes ps) = set ps" "distinct (sortPrefixes ps) = distinct ps"
  by (simp_all add: sortPrefixes_def)

lemma sortPrefixes_sorted: "sorted (map prefix_rank (sortPrefixes ps))"
  by (simp add: sortPrefixes_def)

lemma sortPrefixes_cong: "mset ps = mset qs \<Longrightarrow> sortPrefixes ps = sortPrefixes qs"
  unfolding sortPrefixes_def using inj_prefix_rank by (intro sort_key_inj_key_eq) (auto simp: inj_def inj_on_def)

section \<open>Keys\<close>

definition key_bytes :: "string \<Rightarrow> bytes" where
  "key_bytes k = (case b64_DecodeString k of Some d \<Rightarrow> d | None \<Rightarrow> replicate 32 0)"

definition canonical_key :: "string \<Rightarrow> bool" where
  "canonical_key k \<longleftrightarrow> canonicalKey k = Inr k"

lemma canonicalKey_Inr: "canonicalKey v = Inr w \<longleftrightarrow> w = v \<and> canonical_key v"
  by (auto simp: canonical_key_def canonicalKey_def split: option.splits if_splits)

lemma canonicalPublicKey_Inr: "canonicalPublicKey v = Inr kd \<longleftrightarrow> kd = (v, key_bytes v) \<and> canonical_key v"
proof (cases "canonicalKey v")
  case (Inl e)
  then show ?thesis by (simp add: canonicalPublicKey_def canonical_key_def)
next
  case (Inr w)
  then have "w = v" "canonical_key v" by (simp_all add: canonicalKey_Inr)
  with Inr show ?thesis by (auto simp: canonicalPublicKey_def key_bytes_def)
qed

lemma canonical_key_bytes: "canonical_key k \<Longrightarrow> k = b64_EncodeToString (key_bytes k)" "canonical_key k \<Longrightarrow> length (key_bytes k) = 32"
  by (auto simp: canonical_key_def canonicalKey_def key_bytes_def split: option.splits if_splits)

lemma key_bytes_inj: "canonical_key k \<Longrightarrow> canonical_key l \<Longrightarrow> key_bytes k = key_bytes l \<Longrightarrow> k = l"
  using canonical_key_bytes(1) by metis

section \<open>One peer\<close>

text \<open>What the loop makes of one peer, apart from the conflicts with other peers.\<close>

definition canonical_form :: "netip_text \<Rightarrow> (string \<Rightarrow> Peer option) \<Rightarrow> Peer \<Rightarrow> Peer option" where
  "canonical_form nt act p =
     (case (canonicalKey (pe_PublicKey p), canonical_secret act (pe_PublicKey p) p,
            if pe_Endpoint p \<noteq> [] then canonicalEndpoint nt (pe_Endpoint p) else Inr []) of
        (Inr pk, Inr psk, Inr endpoint) \<Rightarrow>
          if or_default (pe_FECPolicy p) DefaultFECPolicy \<in> {''latency'', ''balanced'', ''throughput''}
            \<and> list_all Prefix_IsValid (pe_AllowedIPs p) \<and> distinct (map Masked (pe_AllowedIPs p))
          then Some (p\<lparr>pe_PublicKey := pk, pe_PresharedKey := psk, pe_Endpoint := endpoint,
                       pe_FECPolicy := or_default (pe_FECPolicy p) DefaultFECPolicy,
                       pe_AllowedIPs := sortPrefixes (map Masked (pe_AllowedIPs p))\<rparr>)
          else None
      | _ \<Rightarrow> None)"

lemma allowed_loop_Inr:
  assumes "set seen \<subseteq> fst ` set owners"
  shows "allowed_loop i pk k seen owners ps = Inr (qs, owners') \<Longrightarrow>
      list_all Prefix_IsValid ps \<and> qs = map Masked ps \<and> distinct qs \<and> set qs \<inter> fst ` set owners = {}
      \<and> fst ` set owners' = fst ` set owners \<union> set qs"
  using assms
proof (induction ps arbitrary: k seen owners qs)
  case Nil
  then show ?case by simp
next
  case (Cons p ps)
  let ?o = "AList.update (Masked p) pk owners"
  have free: "Masked p \<notin> fst ` set owners" and "Prefix_IsValid p"
    using Cons.prems by (auto simp: Let_def map_of_eq_None_iff split: if_splits option.splits)
  then obtain rest where r: "allowed_loop i pk (Suc k) (Masked p # seen) ?o ps = Inr (rest, owners')" "qs = Masked p # rest"
    using Cons.prems by (auto simp: Let_def split: if_splits option.splits sum.splits)
  have o: "fst ` set ?o = insert (Masked p) (fst ` set owners)"
    by (simp add: dom_update [symmetric] dom_map_of_conv_image_fst [symmetric] update_conv')
  have "list_all Prefix_IsValid ps \<and> rest = map Masked ps \<and> distinct rest \<and> set rest \<inter> fst ` set ?o = {}
      \<and> fst ` set owners' = fst ` set ?o \<union> set rest"
    using Cons.prems(2) o by (intro Cons.IH [OF r(1)]) auto
  then have h: "list_all Prefix_IsValid ps" "rest = map Masked ps" "distinct rest" "set rest \<inter> insert (Masked p) (fst ` set owners) = {}"
    "fst ` set owners' = insert (Masked p) (fst ` set owners) \<union> set rest"
    unfolding o by blast+
  show ?case
    unfolding r(2) using h free \<open>Prefix_IsValid p\<close>
    by (intro conjI) simp_all
qed

lemma allowed_loop_total:
  assumes "set seen \<subseteq> fst ` set owners" "list_all Prefix_IsValid ps" "distinct (map Masked ps)" "Masked ` set ps \<inter> fst ` set owners = {}"
  shows "\<exists>owners'. allowed_loop i pk k seen owners ps = Inr (map Masked ps, owners')"
  using assms
proof (induction ps arbitrary: k seen owners)
  case Nil
  then show ?case by simp
next
  case (Cons p ps)
  let ?o = "AList.update (Masked p) pk owners"
  have o: "fst ` set ?o = insert (Masked p) (fst ` set owners)"
    by (simp add: dom_map_of_conv_image_fst [symmetric] update_conv')
  have "\<exists>owners'. allowed_loop i pk (Suc k) (Masked p # seen) ?o ps = Inr (map Masked ps, owners')"
    using Cons.prems o by (intro Cons.IH) auto
  moreover have "map_of owners (Masked p) = None" "Masked p \<notin> set seen"
    using Cons.prems by (auto simp: map_of_eq_None_iff)
  ultimately show ?case using Cons.prems(2) by auto
qed

lemma canonical_peer_Inr:
  assumes "canonical_peer nt act i known owners p = Inr (p', known', owners')"
  shows "canonical_form nt act p = Some p'" and "pe_PublicKey p \<notin> fst ` set known"
    and "set (pe_AllowedIPs p') \<inter> fst ` set owners = {}" and "fst ` set owners' = fst ` set owners \<union> set (pe_AllowedIPs p')"
    and "known' = AList.update (pe_PublicKey p) (key_bytes (pe_PublicKey p)) known"
proof -
  define ep where "ep = (if pe_Endpoint p \<noteq> [] then canonicalEndpoint nt (pe_Endpoint p) else Inr [])"
  have "\<exists>kd. canonicalPublicKey (pe_PublicKey p) = Inr kd" "\<exists>psk. canonical_secret act (pe_PublicKey p) p = Inr psk" "\<exists>e. ep = Inr e"
    using assms unfolding canonical_peer_def ep_def [symmetric]
    by (auto simp: canonicalPublicKey_Inr Let_def split: sum.splits prod.splits if_splits)
  then obtain psk endpoint where k: "canonical_key (pe_PublicKey p)" and s: "canonical_secret act (pe_PublicKey p) p = Inr psk"
    and e: "ep = Inr endpoint"
    by (auto simp: canonicalPublicKey_Inr)
  obtain qs where al: "allowed_loop i (pe_PublicKey p) 0 [] owners (pe_AllowedIPs p) = Inr (qs, owners')"
    and p': "p' = p\<lparr>pe_PublicKey := pe_PublicKey p, pe_PresharedKey := psk, pe_Endpoint := endpoint,
        pe_FECPolicy := or_default (pe_FECPolicy p) DefaultFECPolicy, pe_AllowedIPs := sortPrefixes qs\<rparr>"
    and fresh: "map_of known (pe_PublicKey p) = None" and pol: "or_default (pe_FECPolicy p) DefaultFECPolicy \<in> {''latency'', ''balanced'', ''throughput''}"
    and known': "known' = AList.update (pe_PublicKey p) (key_bytes (pe_PublicKey p)) known"
    using assms k s e unfolding canonical_peer_def ep_def [symmetric]
    by (auto simp: canonicalPublicKey_Inr [THEN iffD2] Let_def simp del: insert_iff split: sum.splits prod.splits if_splits)
  have a: "list_all Prefix_IsValid (pe_AllowedIPs p)" "qs = map Masked (pe_AllowedIPs p)" "distinct qs"
      "set qs \<inter> fst ` set owners = {}" "fst ` set owners' = fst ` set owners \<union> set qs"
    using allowed_loop_Inr [OF empty_subsetI [of "fst ` set owners", folded list.set(1)] al] by blast+
  show "canonical_form nt act p = Some p'"
    using a(1) a(3) [unfolded a(2)] k s e pol p' [unfolded a(2)] by (simp add: canonical_form_def ep_def [symmetric] canonicalKey_Inr [THEN iffD2] del: insert_iff)
  show "pe_PublicKey p \<notin> fst ` set known"
    using fresh by (simp add: map_of_eq_None_iff)
  show "set (pe_AllowedIPs p') \<inter> fst ` set owners = {}" "fst ` set owners' = fst ` set owners \<union> set (pe_AllowedIPs p')"
    using a p' by auto
  show "known' = AList.update (pe_PublicKey p) (key_bytes (pe_PublicKey p)) known"
    by (rule known')
qed

lemma canonical_form_Some:
  assumes "canonical_form nt act p = Some p'"
  shows "pe_PublicKey p' = pe_PublicKey p" and "canonical_key (pe_PublicKey p)" and "list_all Prefix_IsValid (pe_AllowedIPs p)"
    and "distinct (map Masked (pe_AllowedIPs p))" and "pe_AllowedIPs p' = sortPrefixes (map Masked (pe_AllowedIPs p))"
    and "pe_FECPolicy p' \<in> {''latency'', ''balanced'', ''throughput''}"
  using assms by (auto simp: canonical_form_def canonicalKey_Inr simp del: insert_iff split: sum.splits if_splits)

lemma canonical_peer_total:
  assumes f: "canonical_form nt act p = Some p'" and fresh: "pe_PublicKey p \<notin> fst ` set known"
    and free: "set (pe_AllowedIPs p') \<inter> fst ` set owners = {}"
  shows "\<exists>known' owners'. canonical_peer nt act i known owners p = Inr (p', known', owners')"
proof -
  note f' = canonical_form_Some [OF f]
  define ep where "ep = (if pe_Endpoint p \<noteq> [] then canonicalEndpoint nt (pe_Endpoint p) else Inr [])"
  have "Masked ` set (pe_AllowedIPs p) \<inter> fst ` set owners = {}"
    using free f'(5) by simp
  then obtain owners' where "allowed_loop i (pe_PublicKey p) 0 [] owners (pe_AllowedIPs p) = Inr (map Masked (pe_AllowedIPs p), owners')"
    using allowed_loop_total [of "[]" owners "pe_AllowedIPs p" i "pe_PublicKey p" 0] f'(3,4) by auto
  moreover have "canonicalPublicKey (pe_PublicKey p) = Inr (pe_PublicKey p, key_bytes (pe_PublicKey p))"
    using f'(2) by (simp add: canonicalPublicKey_Inr)
  moreover have "map_of known (pe_PublicKey p) = None"
    using fresh by (simp add: map_of_eq_None_iff)
  moreover obtain psk endpoint where "canonical_secret act (pe_PublicKey p) p = Inr psk" "ep = Inr endpoint"
      "or_default (pe_FECPolicy p) DefaultFECPolicy \<in> {''latency'', ''balanced'', ''throughput''}"
      "p' = p\<lparr>pe_PublicKey := pe_PublicKey p, pe_PresharedKey := psk, pe_Endpoint := endpoint,
        pe_FECPolicy := or_default (pe_FECPolicy p) DefaultFECPolicy, pe_AllowedIPs := sortPrefixes (map Masked (pe_AllowedIPs p))\<rparr>"
    using f unfolding canonical_form_def ep_def [symmetric]
    by (auto simp: canonicalKey_Inr simp del: insert_iff split: sum.splits if_splits)
  ultimately show ?thesis
    unfolding canonical_peer_def ep_def [symmetric] by (simp del: insert_iff)
qed

section \<open>All peers\<close>

text \<open>No key and no prefix occurs twice among the peers, nor among those seen before.\<close>

definition compatible :: "string set \<Rightarrow> prefix set \<Rightarrow> Peer list \<Rightarrow> bool" where
  "compatible known owned ps \<longleftrightarrow>
     distinct (map pe_PublicKey ps) \<and> pe_PublicKey ` set ps \<inter> known = {}
     \<and> distinct (concat (map pe_AllowedIPs ps)) \<and> set (concat (map pe_AllowedIPs ps)) \<inter> owned = {}"

lemma compatible_Cons:
  "compatible known owned (p # ps) \<longleftrightarrow>
     pe_PublicKey p \<notin> known \<and> distinct (pe_AllowedIPs p) \<and> set (pe_AllowedIPs p) \<inter> owned = {}
     \<and> compatible (insert (pe_PublicKey p) known) (owned \<union> set (pe_AllowedIPs p)) ps"
  by (auto simp: compatible_def)

abbreviation canonical_forms :: "netip_text \<Rightarrow> (string \<Rightarrow> Peer option) \<Rightarrow> Peer list \<Rightarrow> Peer list \<Rightarrow> bool" where
  "canonical_forms nt act \<equiv> list_all2 (\<lambda>p p'. canonical_form nt act p = Some p')"

lemma fst_set_update: "fst ` set (AList.update k v m) = insert k (fst ` set m)"
  by (simp add: dom_map_of_conv_image_fst [symmetric] update_conv')

lemma peers_loop_Inr:
  assumes "peers_loop nt act i known owners ps = Inr (ps', final)"
  shows "canonical_forms nt act ps ps' \<and> compatible (fst ` set known) (fst ` set owners) ps'
    \<and> map_of final = (\<lambda>k. if k \<in> pe_PublicKey ` set ps' then Some (key_bytes k) else map_of known k)"
  using assms
proof (induction ps arbitrary: i known owners ps')
  case Nil
  then show ?case by (simp add: compatible_def)
next
  case (Cons p ps)
  from Cons.prems obtain p' known' owners' where c: "canonical_peer nt act i known owners p = Inr (p', known', owners')"
    by (auto split: sum.splits)
  with Cons.prems obtain rest where r: "peers_loop nt act (Suc i) known' owners' ps = Inr (rest, final)" and ps': "ps' = p' # rest"
    by (auto split: sum.splits)
  note p = canonical_peer_Inr [OF c] and p' = canonical_form_Some [OF canonical_peer_Inr(1) [OF c]]
  have ih: "canonical_forms nt act ps rest" "compatible (fst ` set known') (fst ` set owners') rest"
    "map_of final = (\<lambda>k. if k \<in> pe_PublicKey ` set rest then Some (key_bytes k) else map_of known' k)"
    using Cons.IH [OF r] by blast+
  have "compatible (fst ` set known) (fst ` set owners) ps'"
    using ih(2) p p' by (simp add: ps' compatible_Cons fst_set_update)
  moreover have "map_of final = (\<lambda>k. if k \<in> pe_PublicKey ` set ps' then Some (key_bytes k) else map_of known k)"
    using ih(3) p(5) p'(1) by (auto simp: ps' update_conv' fun_eq_iff)
  ultimately show ?case using ih(1) p(1) by (simp add: ps')
qed

lemma peers_loop_total:
  assumes "canonical_forms nt act ps ps'" "compatible (fst ` set known) (fst ` set owners) ps'"
  shows "\<exists>final. peers_loop nt act i known owners ps = Inr (ps', final)"
  using assms
proof (induction arbitrary: i known owners rule: list_all2_induct)
  case Nil
  then show ?case by simp
next
  case (Cons p ps p' ps')
  note k = canonical_form_Some [OF Cons.hyps(1)]
  have comp: "pe_PublicKey p \<notin> fst ` set known" "set (pe_AllowedIPs p') \<inter> fst ` set owners = {}"
    "compatible (insert (pe_PublicKey p) (fst ` set known)) (fst ` set owners \<union> set (pe_AllowedIPs p')) ps'"
    using Cons.prems k(1) by (simp_all add: compatible_Cons)
  obtain known' owners' where c: "canonical_peer nt act i known owners p = Inr (p', known', owners')"
    using canonical_peer_total [OF Cons.hyps(1) comp(1,2)] by blast
  have "compatible (fst ` set known') (fst ` set owners') ps'"
    using comp(3) canonical_peer_Inr(4,5) [OF c] by (simp add: fst_set_update)
  then obtain final where "peers_loop nt act (Suc i) known' owners' ps = Inr (ps', final)"
    using Cons.IH by blast
  then show ?case using c by simp
qed

lemma compatible_mset:
  assumes "mset ps = mset qs"
  shows "compatible known owned ps = compatible known owned qs"
proof -
  have "distinct (map pe_PublicKey ps) = distinct (map pe_PublicKey qs)"
    using assms by (intro mset_eq_imp_distinct_iff) simp
  moreover have "distinct (concat (map pe_AllowedIPs ps)) = distinct (concat (map pe_AllowedIPs qs))"
    using assms by (intro mset_eq_imp_distinct_iff) (simp add: mset_concat flip: sum_mset_sum_list)
  moreover have "set ps = set qs"
    using assms by (rule mset_eq_setD)
  ultimately show ?thesis by (simp add: compatible_def)
qed

text \<open>The peers in canonical form are sorted by their decoded keys, which are distinct.\<close>

abbreviation by_key :: "Peer \<Rightarrow> bytes" where
  "by_key p \<equiv> key_bytes (pe_PublicKey p)"

lemma canonical_forms_keys: "canonical_forms nt act ps ps' \<Longrightarrow> p \<in> set ps' \<Longrightarrow> canonical_key (pe_PublicKey p)"
  by (induction rule: list_all2_induct) (auto, metis canonical_form_Some(1,2))

lemma by_key_inj:
  assumes "\<forall>p \<in> set ps. canonical_key (pe_PublicKey p)" "distinct (map pe_PublicKey ps)"
  shows "inj_on by_key (set ps)"
proof (rule inj_onI)
  fix p q assume "p \<in> set ps" "q \<in> set ps" "by_key p = by_key q"
  then have "pe_PublicKey p = pe_PublicKey q"
    using assms(1) key_bytes_inj by blast
  then show "p = q"
    using assms(2) \<open>p \<in> set ps\<close> \<open>q \<in> set ps\<close> by (auto simp: distinct_map dest: inj_onD)
qed

lemma sort_key_unique:
  assumes "mset xs = mset ys" "inj_on f (set xs)" "\<forall>x \<in> set xs. g x = f x"
  shows "sort_key f xs = sort_key g ys"
proof (rule sort_key_inj_key_eq)
  have "map f (sort_key g ys) = map g (sort_key g ys)"
    using assms(3) mset_eq_setD [OF assms(1)] by simp
  then show "sorted (map f (sort_key g ys))" by (metis sorted_sort_key)
qed (use assms in simp_all)

section \<open>The whole configuration\<close>

lemma check_addresses_None:
  "check_addresses seen as = None \<longleftrightarrow> list_all Prefix_IsValid as \<and> distinct as \<and> set as \<inter> set seen = {}"
  by (induction as arbitrary: seen) auto

lemma canonicalizePeers_Inr:
  assumes "canonicalizePeers nt cfg active = Inr (c, ks)"
  defines "act \<equiv> map_of (case active of None \<Rightarrow> [] | Some d \<Rightarrow> peerMap (cf_Peers (de_config d)))"
  obtains ps' where "canonical_forms nt act (cf_Peers cfg) ps'" "compatible {} {} ps'" "c = cfg\<lparr>cf_Peers := sort_key by_key ps'\<rparr>"
    "map_of ks = (\<lambda>k. if k \<in> pe_PublicKey ` set ps' then Some (key_bytes k) else None)"
proof -
  obtain ps' where loop: "peers_loop nt act 0 [] [] (cf_Peers cfg) = Inr (ps', ks)"
    and c: "c = cfg\<lparr>cf_Peers := sort_key (\<lambda>p. case map_of ks (pe_PublicKey p) of Some k \<Rightarrow> k | None \<Rightarrow> replicate 32 0) ps'\<rparr>"
    using assms by (auto simp: canonicalizePeers_def Let_def split: sum.splits)
  have p: "canonical_forms nt act (cf_Peers cfg) ps'" "compatible {} {} ps'"
    and k: "map_of ks = (\<lambda>k. if k \<in> pe_PublicKey ` set ps' then Some (key_bytes k) else None)"
    using peers_loop_Inr [OF loop] by (simp_all add: fun_eq_iff)
  have "inj_on by_key (set ps')"
    using p canonical_forms_keys by (intro by_key_inj) (auto simp: compatible_def)
  then have "sort_key by_key ps' = sort_key (\<lambda>p. case map_of ks (pe_PublicKey p) of Some k \<Rightarrow> k | None \<Rightarrow> replicate 32 0) ps'"
    by (intro sort_key_unique) (auto simp: k)
  with c p k show thesis by (intro that) simp_all
qed

lemma canonicalizePeers_total:
  assumes "canonical_forms nt (map_of (case active of None \<Rightarrow> [] | Some d \<Rightarrow> peerMap (cf_Peers (de_config d)))) (cf_Peers cfg) ps'" "compatible {} {} ps'"
  shows "\<exists>c ks. canonicalizePeers nt cfg active = Inr (c, ks)"
  using peers_loop_total [of nt _ "cf_Peers cfg" ps' "[]" "[]" 0] assms by (fastforce simp: canonicalizePeers_def Let_def)

text \<open>The same settings in another order.\<close>

definition same_peer :: "Peer \<Rightarrow> Peer \<Rightarrow> bool" where
  "same_peer p q \<longleftrightarrow> (\<exists>xs. mset xs = mset (pe_AllowedIPs p) \<and> q = p\<lparr>pe_AllowedIPs := xs\<rparr>)"

definition reordered :: "Config \<Rightarrow> Config \<Rightarrow> bool" where
  "reordered cfg cfg' \<longleftrightarrow>
     (\<exists>as ps qs. mset as = mset (if_Addresses (cf_Interface cfg)) \<and> list_all2 same_peer (cf_Peers cfg) qs \<and> mset ps = mset qs
        \<and> cfg' = cfg\<lparr>cf_Interface := (cf_Interface cfg)\<lparr>if_Addresses := as\<rparr>, cf_Peers := ps\<rparr>)"

lemma canonical_form_same:
  assumes "same_peer p q"
  shows "canonical_form nt act q = canonical_form nt act p"
proof -
  obtain xs where xs: "mset xs = mset (pe_AllowedIPs p)" "q = p\<lparr>pe_AllowedIPs := xs\<rparr>"
    using assms by (auto simp: same_peer_def)
  have "distinct (map Masked xs) = distinct (map Masked (pe_AllowedIPs p))"
    using xs(1) by (intro mset_eq_imp_distinct_iff) simp
  moreover have "sortPrefixes (map Masked xs) = sortPrefixes (map Masked (pe_AllowedIPs p))"
    using xs(1) by (intro sortPrefixes_cong) simp
  moreover have "list_all Prefix_IsValid xs = list_all Prefix_IsValid (pe_AllowedIPs p)"
    using mset_eq_setD [OF xs(1)] by (simp add: list_all_iff)
  moreover have "canonical_secret act (pe_PublicKey p) (p\<lparr>pe_AllowedIPs := xs\<rparr>) = canonical_secret act (pe_PublicKey p) p"
    by (simp add: canonical_secret_def)
  ultimately show ?thesis
    unfolding canonical_form_def xs(2) by (simp del: insert_iff cong: if_cong split: sum.split)
qed

lemma canonical_forms_reordered:
  assumes forms: "canonical_forms nt act ps ps'" and same: "list_all2 same_peer ps qs" and m: "mset rs = mset qs"
  obtains rs' where "canonical_forms nt act rs rs'" "mset rs' = mset ps'"
proof -
  have "canonical_forms nt act qs ps'"
    using forms same by (auto simp: list_all2_conv_all_nth canonical_form_same)
  then show thesis
    using list_all2_reorder_left_invariance [OF _ m] that by blast
qed

lemma canonicalizeInterface_reordered:
  assumes "canonicalizeInterface nt cfg = Inr c" "mset as = mset (if_Addresses (cf_Interface cfg))"
  shows "canonicalizeInterface nt (cfg\<lparr>cf_Interface := (cf_Interface cfg)\<lparr>if_Addresses := as\<rparr>, cf_Peers := ps\<rparr>) = Inr (c\<lparr>cf_Peers := ps\<rparr>)"
proof -
  have "check_addresses [] as = check_addresses [] (if_Addresses (cf_Interface cfg))"
    if "check_addresses [] (if_Addresses (cf_Interface cfg)) = None"
    using that mset_eq_setD [OF assms(2)] mset_eq_imp_distinct_iff [OF assms(2)]
    by (metis check_addresses_None list_all_iff)
  then show ?thesis
    using assms sortPrefixes_cong [OF assms(2)]
    by (auto simp: canonicalizeInterface_def Let_def EffectiveMTU_def split: sum.splits option.splits)
qed

lemma canonicalizeInterface_peers: "canonicalizeInterface nt cfg = Inr c \<Longrightarrow> cf_Peers c = cf_Peers cfg"
  by (auto simp: canonicalizeInterface_def Let_def split: sum.splits option.splits)

lemma canonicalizeTransport_peers:
  assumes "canonicalizeTransport cfg = Inr c"
  shows "cf_Peers c = cf_Peers cfg" and "canonicalizeTransport (cfg\<lparr>cf_Peers := ps\<rparr>) = Inr (c\<lparr>cf_Peers := ps\<rparr>)"
  using assms unfolding canonicalizeTransport_def Let_def by (auto simp del: insert_iff split: if_splits)

lemma canonicalizePeers_reordered:
  assumes c: "canonicalizePeers nt cfg active = Inr (c, ks)" and same: "list_all2 same_peer (cf_Peers cfg) qs" and m: "mset rs = mset qs"
  shows "\<exists>ks'. canonicalizePeers nt (cfg\<lparr>cf_Peers := rs\<rparr>) active = Inr (c, ks') \<and> map_of ks' = map_of ks"
proof -
  let ?act = "map_of (case active of None \<Rightarrow> [] | Some d \<Rightarrow> peerMap (cf_Peers (de_config d)))"
  obtain ps' where p: "canonical_forms nt ?act (cf_Peers cfg) ps'" "compatible {} {} ps'" "c = cfg\<lparr>cf_Peers := sort_key by_key ps'\<rparr>"
    "map_of ks = (\<lambda>k. if k \<in> pe_PublicKey ` set ps' then Some (key_bytes k) else None)"
    using canonicalizePeers_Inr [OF c] by blast
  obtain rs' where r: "canonical_forms nt ?act rs rs'" "mset rs' = mset ps'"
    using canonical_forms_reordered [OF p(1) same m] by blast
  have "compatible {} {} rs'"
    using compatible_mset [OF r(2)] p(2) by simp
  then obtain c' ks' where c': "canonicalizePeers nt (cfg\<lparr>cf_Peers := rs\<rparr>) active = Inr (c', ks')"
    using canonicalizePeers_total [of nt active "cfg\<lparr>cf_Peers := rs\<rparr>" rs'] r(1) by auto
  obtain qs' where q: "canonical_forms nt ?act rs qs'" "c' = cfg\<lparr>cf_Peers := sort_key by_key qs'\<rparr>"
    "map_of ks' = (\<lambda>k. if k \<in> pe_PublicKey ` set qs' then Some (key_bytes k) else None)"
    using canonicalizePeers_Inr [OF c'] by auto
  have "qs' = rs'"
    using q(1) r(1) by (auto simp: list_all2_conv_all_nth intro: nth_equalityI)
  have "inj_on by_key (set rs')"
    using r(1) \<open>compatible {} {} rs'\<close> canonical_forms_keys by (intro by_key_inj) (auto simp: compatible_def)
  then have "sort_key by_key rs' = sort_key by_key ps'"
    using r(2) by (intro sort_key_unique) auto
  then show ?thesis
    using c' q p mset_eq_setD [OF r(2)] by (auto simp: \<open>qs' = rs'\<close>)
qed

lemma FromConfig_cases:
  assumes "FromConfig nt dl (Some cfg) active = Inr d"
  obtains c1 c2 where "canonicalizeInterface nt cfg = Inr c1" "canonicalizeTransport c1 = Inr c2"
    "canonicalizePeers nt c2 active = Inr (de_config d, de_peerKeyBytes d)" "Validate nt (de_config d) = None"
    "digestNonSecret dl (de_config d) = Inr (de_nonSecretDigest d)"
  using assms by (auto simp: FromConfig_def split: sum.splits option.splits)

text \<open>What the canonical form promises.\<close>

definition peer_canonical :: "Peer \<Rightarrow> bool" where
  "peer_canonical p \<longleftrightarrow>
     canonical_key (pe_PublicKey p) \<and> pe_FECPolicy p \<in> {''latency'', ''balanced'', ''throughput''}
     \<and> sorted (map prefix_rank (pe_AllowedIPs p)) \<and> (\<forall>x \<in> set (pe_AllowedIPs p). Masked x = x)"

definition peers_canonical :: "Peer list \<Rightarrow> bool" where
  "peers_canonical ps \<longleftrightarrow>
     (\<forall>p \<in> set ps. peer_canonical p) \<and> sorted (map by_key ps) \<and> distinct (map pe_PublicKey ps)
     \<and> distinct (concat (map pe_AllowedIPs ps))"

definition config_canonical :: "Config \<Rightarrow> bool" where
  "config_canonical cfg \<longleftrightarrow>
     canonical_key (if_PrivateKey (cf_Interface cfg)) \<and> if_MTU (cf_Interface cfg) \<noteq> 0 \<and> if_Table (cf_Interface cfg) \<noteq> []
     \<and> distinct (if_Addresses (cf_Interface cfg)) \<and> sorted (map prefix_rank (if_Addresses (cf_Interface cfg)))
     \<and> transport_in_range (cf_Transport cfg) \<and> peers_canonical (cf_Peers cfg)"

lemma canonical_forms_peer: "canonical_forms nt act ps ps' \<Longrightarrow> p \<in> set ps' \<Longrightarrow> peer_canonical p"
proof (induction rule: list_all2_induct)
  case (Cons q qs q' qs')
  have "peer_canonical q'"
    using canonical_form_Some [OF Cons.hyps(1)] unfolding peer_canonical_def
    by (auto simp: sortPrefixes_sorted Masked_idem simp del: insert_iff)
  then show ?case using Cons by auto
qed simp

lemma canonicalizeInterface_establishes:
  "canonicalizeInterface nt cfg = Inr c \<Longrightarrow>
     canonical_key (if_PrivateKey (cf_Interface c)) \<and> if_MTU (cf_Interface c) \<noteq> 0 \<and> if_Table (cf_Interface c) \<noteq> []
     \<and> distinct (if_Addresses (cf_Interface c)) \<and> sorted (map prefix_rank (if_Addresses (cf_Interface c)))"
  by (auto simp: canonicalizeInterface_def Let_def canonicalKey_Inr check_addresses_None sortPrefixes_sorted
      EffectiveMTU_def DefaultMTU_def split: sum.splits option.splits if_splits)

lemma canonicalizeTransport_establishes:
  "canonicalizeTransport cfg = Inr c \<Longrightarrow> transport_in_range (cf_Transport c) \<and> cf_Interface c = cf_Interface cfg"
  unfolding canonicalizeTransport_def Let_def transport_in_range_def by (auto simp del: insert_iff split: if_splits)

lemma canonicalizePeers_establishes:
  assumes "canonicalizePeers nt cfg active = Inr (c, ks)"
  shows "peers_canonical (cf_Peers c) \<and> cf_Interface c = cf_Interface cfg \<and> cf_Transport c = cf_Transport cfg
    \<and> (\<forall>p \<in> set (cf_Peers c). map_of ks (pe_PublicKey p) = Some (by_key p))"
proof (rule canonicalizePeers_Inr [OF assms])
  fix ps' let ?s = "sort_key by_key ps'"
  assume p: "canonical_forms nt (map_of (case active of None \<Rightarrow> [] | Some d \<Rightarrow> peerMap (cf_Peers (de_config d)))) (cf_Peers cfg) ps'"
    "compatible {} {} ps'" "c = cfg\<lparr>cf_Peers := ?s\<rparr>" "map_of ks = (\<lambda>k. if k \<in> pe_PublicKey ` set ps' then Some (key_bytes k) else None)"
  have "compatible {} {} ?s"
    using p(2) compatible_mset [of ?s ps'] by simp
  then show ?thesis
    using p canonical_forms_peer [OF p(1)] by (auto simp: peers_canonical_def compatible_def)
qed

lemma FromConfig_canonical:
  assumes "FromConfig nt dl (Some cfg) active = Inr d"
  shows "config_canonical (de_config d)" "Validate nt (de_config d) = None"
    "\<forall>p \<in> set (cf_Peers (de_config d)). map_of (de_peerKeyBytes d) (pe_PublicKey p) = Some (by_key p)"
proof -
  obtain c1 c2 where c: "canonicalizeInterface nt cfg = Inr c1" "canonicalizeTransport c1 = Inr c2"
    "canonicalizePeers nt c2 active = Inr (de_config d, de_peerKeyBytes d)" "Validate nt (de_config d) = None"
    using FromConfig_cases [OF assms] by blast
  show "config_canonical (de_config d)"
    using canonicalizeInterface_establishes [OF c(1)] canonicalizeTransport_establishes [OF c(2)] canonicalizePeers_establishes [OF c(3)]
    by (simp add: config_canonical_def)
  show "\<forall>p \<in> set (cf_Peers (de_config d)). map_of (de_peerKeyBytes d) (pe_PublicKey p) = Some (by_key p)"
    using canonicalizePeers_establishes [OF c(3)] by blast
  show "Validate nt (de_config d) = None"
    by (rule c)
qed

section \<open>Secrets\<close>

text \<open>A configuration without its keys.\<close>

definition peer_public :: "Peer \<Rightarrow> Peer" where
  "peer_public p = p\<lparr>pe_PresharedKey := []\<rparr>"

definition config_public :: "Config \<Rightarrow> Config" where
  "config_public cfg =
     cfg\<lparr>cf_Interface := (cf_Interface cfg)\<lparr>if_PrivateKey := []\<rparr>, cf_Peers := map peer_public (cf_Peers cfg)\<rparr>"

lemma peer_public_simps [simp]:
  "pe_PublicKey (peer_public p) = pe_PublicKey p" "pe_AllowedIPs (peer_public p) = pe_AllowedIPs p" "pe_Endpoint (peer_public p) = pe_Endpoint p"
  "pe_PersistentKeepalive (peer_public p) = pe_PersistentKeepalive p" "pe_FECPolicy (peer_public p) = pe_FECPolicy p"
  by (simp_all add: peer_public_def)

lemma projection_public: "projection (config_public cfg) = projection cfg"
  by (simp add: projection_def config_public_def Let_def comp_def)

lemma insort_key_map: "map g (insort_key (\<lambda>y. f (g y)) x xs) = insort_key f (g x) (map g xs)"
  by (induction xs) auto

lemma sort_key_map: "map g (sort_key (\<lambda>y. f (g y)) xs) = sort_key f (map g xs)"
  by (induction xs) (simp_all add: insort_key_map)

lemma peer_public_eq:
  "peer_public p = peer_public q \<longleftrightarrow>
     pe_PublicKey p = pe_PublicKey q \<and> pe_AllowedIPs p = pe_AllowedIPs q \<and> pe_Endpoint p = pe_Endpoint q
     \<and> pe_PersistentKeepalive p = pe_PersistentKeepalive q \<and> pe_FECPolicy p = pe_FECPolicy q"
  by (cases p; cases q) (auto simp: peer_public_def)

lemma canonical_form_public:
  assumes "canonical_form nt act p = Some p'" "canonical_form nt act' q = Some q'" "peer_public p = peer_public q"
  shows "peer_public p' = peer_public q'"
  using assms by (auto simp: canonical_form_def peer_public_eq canonicalKey_Inr simp del: insert_iff split: sum.splits if_splits)

lemma canonical_forms_public:
  assumes "canonical_forms nt act ps ps'" "canonical_forms nt act' qs qs'" "map peer_public ps = map peer_public qs"
  shows "map peer_public ps' = map peer_public qs'"
proof (rule nth_equalityI)
  have len: "length ps' = length ps" "length qs' = length qs" "length ps = length qs"
    using assms by (auto dest: list_all2_lengthD map_eq_imp_length_eq)
  then show "length (map peer_public ps') = length (map peer_public qs')" by simp
  fix i assume i: "i < length (map peer_public ps')"
  then have "canonical_form nt act (ps ! i) = Some (ps' ! i)" "canonical_form nt act' (qs ! i) = Some (qs' ! i)"
      "peer_public (ps ! i) = peer_public (qs ! i)"
    using assms len by (auto simp: list_all2_conv_all_nth list_eq_iff_nth_eq)
  then show "map peer_public ps' ! i = map peer_public qs' ! i"
    using canonical_form_public i len by (metis nth_map length_map)
qed

lemma canonicalizePeers_public:
  assumes "canonicalizePeers nt c active = Inr (d, ks)" "canonicalizePeers nt c' active' = Inr (d', ks')" "config_public c = config_public c'"
  shows "config_public d = config_public d'"
proof -
  have same: "map peer_public (cf_Peers c) = map peer_public (cf_Peers c')"
    using arg_cong [OF assms(3), of cf_Peers] by (simp add: config_public_def)
  obtain act ps where p: "canonical_forms nt act (cf_Peers c) ps" "d = c\<lparr>cf_Peers := sort_key by_key ps\<rparr>"
    by (rule canonicalizePeers_Inr [OF assms(1)])
  obtain act' qs where q: "canonical_forms nt act' (cf_Peers c') qs" "d' = c'\<lparr>cf_Peers := sort_key by_key qs\<rparr>"
    by (rule canonicalizePeers_Inr [OF assms(2)])
  have "map peer_public (sort_key by_key ps) = map peer_public (sort_key by_key qs)"
    using sort_key_map [of peer_public by_key] canonical_forms_public [OF p(1) q(1) same] by simp
  then show ?thesis
    using assms(3) p(2) q(2) by (cases c; cases c') (simp add: config_public_def)
qed

lemma canonicalizeInterface_public:
  assumes "canonicalizeInterface nt c = Inr d" "canonicalizeInterface nt c' = Inr d'" "config_public c = config_public c'"
  shows "config_public d = config_public d'"
proof -
  let ?i = "cf_Interface c" and ?i' = "cf_Interface c'"
  have same: "?i\<lparr>if_PrivateKey := []\<rparr> = ?i'\<lparr>if_PrivateKey := []\<rparr>" "cf_Transport c = cf_Transport c'" "map peer_public (cf_Peers c) = map peer_public (cf_Peers c')"
    using assms(3) by (auto simp: config_public_def dest: arg_cong [where f = cf_Interface] arg_cong [where f = cf_Transport] arg_cong [where f = cf_Peers])
  have "if_MTU ?i = if_MTU ?i'" "if_Table ?i = if_Table ?i'" "if_Addresses ?i = if_Addresses ?i'" "if_DNS ?i = if_DNS ?i'"
    using arg_cong [OF same(1), of if_MTU] arg_cong [OF same(1), of if_Table] arg_cong [OF same(1), of if_Addresses] arg_cong [OF same(1), of if_DNS] by simp_all
  with assms(1,2) same show ?thesis
    by (cases "?i"; cases "?i'")
      (auto simp: canonicalizeInterface_def config_public_def Let_def EffectiveMTU_def split: sum.splits option.splits)
qed

lemma canonicalizeTransport_public:
  assumes "canonicalizeTransport c = Inr d" "canonicalizeTransport c' = Inr d'" "config_public c = config_public c'"
  shows "config_public d = config_public d'"
proof -
  have t: "cf_Transport c = cf_Transport c'"
    using arg_cong [OF assms(3), of cf_Transport] by (simp add: config_public_def)
  have shape: "cf_Transport d = cf_Transport d'" "d = c\<lparr>cf_Transport := cf_Transport d\<rparr>" "d' = c'\<lparr>cf_Transport := cf_Transport d'\<rparr>"
    using assms(1,2) unfolding canonicalizeTransport_def Let_def t by (auto simp del: insert_iff split: if_splits)
  have "config_public (x\<lparr>cf_Transport := u\<rparr>) = (config_public x)\<lparr>cf_Transport := u\<rparr>" for x u
    by (simp add: config_public_def)
  then show ?thesis using shape assms(3) by metis
qed

lemma retained_secret:
  assumes "canonicalizePeers nt cfg (Some old) = Inr (c, ks)" "p \<in> set (cf_Peers cfg)" "pe_PresharedKey p = []"
    "map_of (peerMap (cf_Peers (de_config old))) (pe_PublicKey p) = Some q"
  shows "\<exists>p' \<in> set (cf_Peers c). pe_PublicKey p' = pe_PublicKey p \<and> pe_PresharedKey p' = pe_PresharedKey q"
proof (rule canonicalizePeers_Inr [OF assms(1)])
  fix ps' assume f: "canonical_forms nt (map_of (case Some old of None \<Rightarrow> [] | Some d \<Rightarrow> peerMap (cf_Peers (de_config d)))) (cf_Peers cfg) ps'"
    and c: "c = cfg\<lparr>cf_Peers := sort_key by_key ps'\<rparr>"
  obtain i where i: "i < length (cf_Peers cfg)" "cf_Peers cfg ! i = p"
    using assms(2) by (auto simp: in_set_conv_nth)
  define p' where "p' = ps' ! i"
  have p': "p' \<in> set ps'" "canonical_form nt (map_of (peerMap (cf_Peers (de_config old)))) p = Some p'"
    using f i by (auto simp: list_all2_conv_all_nth p'_def)
  have "pe_PresharedKey p' = pe_PresharedKey q"
    using p'(2) assms(3,4) by (auto simp: canonical_form_def canonical_secret_def simp del: insert_iff split: sum.splits if_splits)
  then show ?thesis using p' canonical_form_Some(1) [OF p'(2)] by (auto simp: c)
qed

section \<open>Properties\<close>

text \<open>C8. The order in which a file lists its peers, the allowed prefixes of a peer and the addresses of the interface has
  no effect: when a configuration is accepted, every reordering of it is accepted too, with the same canonical
  configuration, the same decoded keys and the same digest.\<close>

theorem canonical_order_irrelevant:
  assumes d: "FromConfig nt dl (Some cfg) active = Inr d" and re: "reordered cfg cfg'"
  shows "\<exists>d'. FromConfig nt dl (Some cfg') active = Inr d' \<and> de_config d' = de_config d
    \<and> map_of (de_peerKeyBytes d') = map_of (de_peerKeyBytes d) \<and> de_nonSecretDigest d' = de_nonSecretDigest d"
proof -
  obtain c1 c2 where c: "canonicalizeInterface nt cfg = Inr c1" "canonicalizeTransport c1 = Inr c2"
    "canonicalizePeers nt c2 active = Inr (de_config d, de_peerKeyBytes d)" "Validate nt (de_config d) = None"
    "digestNonSecret dl (de_config d) = Inr (de_nonSecretDigest d)"
    using FromConfig_cases [OF d] by blast
  obtain as ps qs where as: "mset as = mset (if_Addresses (cf_Interface cfg))" and qs: "list_all2 same_peer (cf_Peers cfg) qs" "mset ps = mset qs"
    and cfg': "cfg' = cfg\<lparr>cf_Interface := (cf_Interface cfg)\<lparr>if_Addresses := as\<rparr>, cf_Peers := ps\<rparr>"
    using re by (auto simp: reordered_def)
  have "canonicalizeInterface nt cfg' = Inr (c1\<lparr>cf_Peers := ps\<rparr>)" "canonicalizeTransport (c1\<lparr>cf_Peers := ps\<rparr>) = Inr (c2\<lparr>cf_Peers := ps\<rparr>)"
    using canonicalizeInterface_reordered [OF c(1) as] canonicalizeTransport_peers(2) [OF c(2)] by (simp_all add: cfg')
  moreover obtain ks' where "canonicalizePeers nt (c2\<lparr>cf_Peers := ps\<rparr>) active = Inr (de_config d, ks')" "map_of ks' = map_of (de_peerKeyBytes d)"
    using canonicalizePeers_reordered [OF c(3) _ qs(2)] qs(1) canonicalizeInterface_peers [OF c(1)] canonicalizeTransport_peers(1) [OF c(2)] by auto
  ultimately show ?thesis using c(4,5) by (auto simp: FromConfig_def)
qed

text \<open>An accepted configuration is in canonical form: keys are the padded base64 text of 32 bytes, settings are
  supported values, the addresses and the prefixes of each peer are sorted without repetition, prefixes are masked, no
  prefix has two owners, the peers are sorted by their decoded keys, which the key table holds, and it still validates.
  A peer that was active and gives no preshared key keeps the one it had.\<close>

theorem FromConfig_establishes:
  assumes d: "FromConfig nt dl (Some cfg) active = Inr d"
  shows "config_canonical (de_config d) \<and> config_valid nt (de_config d)
    \<and> (\<forall>p \<in> set (cf_Peers (de_config d)). map_of (de_peerKeyBytes d) (pe_PublicKey p) = Some (by_key p))
    \<and> (\<forall>old q p. active = Some old \<and> p \<in> set (cf_Peers cfg) \<and> pe_PresharedKey p = []
        \<and> map_of (peerMap (cf_Peers (de_config old))) (pe_PublicKey p) = Some q
      \<longrightarrow> (\<exists>p' \<in> set (cf_Peers (de_config d)). pe_PublicKey p' = pe_PublicKey p \<and> pe_PresharedKey p' = pe_PresharedKey q))"
proof (intro conjI allI impI; (elim conjE)?)
  show "config_canonical (de_config d)" "config_valid nt (de_config d)"
    "\<forall>p \<in> set (cf_Peers (de_config d)). map_of (de_peerKeyBytes d) (pe_PublicKey p) = Some (by_key p)"
    using FromConfig_canonical [OF d] by (simp_all add: Validate_iff)
next
  fix old q p assume p: "active = Some old" "p \<in> set (cf_Peers cfg)" "pe_PresharedKey p = []"
    "map_of (peerMap (cf_Peers (de_config old))) (pe_PublicKey p) = Some q"
  obtain c1 c2 where c: "canonicalizeInterface nt cfg = Inr c1" "canonicalizeTransport c1 = Inr c2"
    "canonicalizePeers nt c2 active = Inr (de_config d, de_peerKeyBytes d)"
    using FromConfig_cases [OF d] by blast
  then have "cf_Peers c2 = cf_Peers cfg"
    using canonicalizeInterface_peers canonicalizeTransport_peers(1) by simp
  then show "\<exists>p' \<in> set (cf_Peers (de_config d)). pe_PublicKey p' = pe_PublicKey p \<and> pe_PresharedKey p' = pe_PresharedKey q"
    using retained_secret [of nt c2 old "de_config d" "de_peerKeyBytes d" p q] c(3) p by simp
qed

text \<open>C36. The digest, which the status of the coordinator reports, does not depend on secrets: two accepted configurations that
  differ only in the private key and the preshared keys have the same digest, whatever keys were active before.\<close>

theorem digest_hides_secrets:
  assumes "FromConfig nt dl (Some cfg) active = Inr d" "FromConfig nt dl (Some cfg') active' = Inr d'" "config_public cfg = config_public cfg'"
  shows "Desired_Digest (Some d) = Desired_Digest (Some d')"
proof -
  obtain c1 c2 where c: "canonicalizeInterface nt cfg = Inr c1" "canonicalizeTransport c1 = Inr c2"
    "canonicalizePeers nt c2 active = Inr (de_config d, de_peerKeyBytes d)" "digestNonSecret dl (de_config d) = Inr (de_nonSecretDigest d)"
    using FromConfig_cases [OF assms(1)] by blast
  obtain e1 e2 where e: "canonicalizeInterface nt cfg' = Inr e1" "canonicalizeTransport e1 = Inr e2"
    "canonicalizePeers nt e2 active' = Inr (de_config d', de_peerKeyBytes d')" "digestNonSecret dl (de_config d') = Inr (de_nonSecretDigest d')"
    using FromConfig_cases [OF assms(2)] by blast
  have "config_public (de_config d) = config_public (de_config d')"
    using canonicalizeInterface_public [OF c(1) e(1) assms(3)] canonicalizeTransport_public [OF c(2) e(2)] canonicalizePeers_public [OF c(3) e(3)] by blast
  then have "projection (de_config d) = projection (de_config d')"
    using projection_public by metis
  then show ?thesis
    using c(4) e(4) by (auto simp: digestNonSecret_def Desired_Digest_def split: option.splits)
qed


section \<open>Examples\<close>

definition sample_lib :: digest_lib where
  "sample_lib = \<lparr>dl_Marshal = (\<lambda>p. Some (map (\<lambda>q. of_nat (length (np_AllowedIPs q))) (nj_Peers p))), dl_Sum256 = (\<lambda>bs. bs)\<rparr>"

definition sample_peer :: "string \<Rightarrow> string \<Rightarrow> prefix list \<Rightarrow> Peer" where
  "sample_peer k psk ips = zeroPeer\<lparr>pe_PublicKey := k, pe_PresharedKey := psk, pe_AllowedIPs := ips\<rparr>"

abbreviation "key_A \<equiv> ''AAAAAAAAAAAAAAAAAAAAAAAAAAAAAAAAAAAAAAAAAAA=''"
abbreviation "key_B \<equiv> ''BAAAAAAAAAAAAAAAAAAAAAAAAAAAAAAAAAAAAAAAAAA=''"

definition sample_config :: "string \<Rightarrow> string \<Rightarrow> Config" where
  "sample_config k psk =
     \<lparr>cf_Interface = zeroInterface\<lparr>if_PrivateKey := k, if_Addresses := [(V4 0x0a000001, 24), (V4 0x0a000001, 8)]\<rparr>,
      cf_Peers = [sample_peer key_B psk [(V4 0x0a010000, 16), (V4 0x0a020000, 16)], sample_peer key_A [] [(V4 0x0a030000, 16)]],
      cf_Transport = DefaultTransport\<rparr>"

definition sample_reordered :: Config where
  "sample_reordered =
     (sample_config key_A key_B)\<lparr>cf_Interface := (cf_Interface (sample_config key_A key_B))\<lparr>if_Addresses := [(V4 0x0a000001, 8), (V4 0x0a000001, 24)]\<rparr>,
       cf_Peers := [sample_peer key_A [] [(V4 0x0a030000, 16)], sample_peer key_B key_B [(V4 0x0a020000, 16), (V4 0x0a010000, 16)]]\<rparr>"

lemma sample_accepted:
  "\<not> isl (FromConfig quad_text sample_lib (Some (sample_config key_A key_B)) None)"
  "\<not> isl (FromConfig quad_text sample_lib (Some (sample_config key_B [])) None)"
  by code_simp+

lemma sample_desired:
  obtains d where "FromConfig quad_text sample_lib (Some (sample_config key_A key_B)) None = Inr d"
  using sample_accepted(1) by (cases "FromConfig quad_text sample_lib (Some (sample_config key_A key_B)) None") auto

theorem canonical_order_irrelevant_witness:
  "\<exists>d d'. FromConfig quad_text sample_lib (Some (sample_config key_A key_B)) None = Inr d
     \<and> FromConfig quad_text sample_lib (Some sample_reordered) None = Inr d' \<and> de_config d' = de_config d"
proof -
  obtain d where d: "FromConfig quad_text sample_lib (Some (sample_config key_A key_B)) None = Inr d"
    by (rule sample_desired)
  have "reordered (sample_config key_A key_B) sample_reordered"
    unfolding reordered_def
    by (rule exI [of _ "if_Addresses (cf_Interface sample_reordered)"], rule exI [of _ "cf_Peers sample_reordered"],
        rule exI [of _ "rev (cf_Peers sample_reordered)"])
      (auto simp: sample_reordered_def sample_config_def sample_peer_def same_peer_def intro: exI [of _ "[(V4 0x0a020000, 16), (V4 0x0a010000, 16)]"])
  then show ?thesis using canonical_order_irrelevant [OF d] d by blast
qed

theorem FromConfig_establishes_witness:
  "\<exists>d. FromConfig quad_text sample_lib (Some (sample_config key_A key_B)) None = Inr d \<and> config_canonical (de_config d)"
proof -
  obtain d where d: "FromConfig quad_text sample_lib (Some (sample_config key_A key_B)) None = Inr d"
    by (rule sample_desired)
  then show ?thesis using FromConfig_establishes [OF d] by blast
qed

theorem digest_hides_secrets_witness:
  "\<exists>d d'. FromConfig quad_text sample_lib (Some (sample_config key_A key_B)) None = Inr d
     \<and> FromConfig quad_text sample_lib (Some (sample_config key_B [])) None = Inr d' \<and> Desired_Digest (Some d) = Desired_Digest (Some d')"
proof -
  obtain d where d: "FromConfig quad_text sample_lib (Some (sample_config key_A key_B)) None = Inr d"
    by (rule sample_desired)
  obtain d' where d': "FromConfig quad_text sample_lib (Some (sample_config key_B [])) None = Inr d'"
    using sample_accepted(2) by (cases "FromConfig quad_text sample_lib (Some (sample_config key_B [])) None") auto
  have "config_public (sample_config key_A key_B) = config_public (sample_config key_B [])"
    by (simp add: sample_config_def config_public_def sample_peer_def peer_public_def)
  then show ?thesis using digest_hides_secrets [OF d d'] d d' by blast
qed

end
