(* ===== verification/Reconcile_Diff.thy ===== *)
theory Reconcile_Diff
  imports Desired_State
begin

text \<open>
  What changes between two canonical configurations, \<open>internal/reconcile/diff.go\<close>.  Go ranges over a map in an order of
  its own choice, which is the argument \<open>ranged\<close>: a function that reorders the entries of a map.
\<close>

section \<open>The comparison\<close>

record PeerChange =
  pc_PublicKey :: string
  pc_Fields :: "string list"

record PrefixMove =
  pm_Prefix :: string
  pm_From :: string
  pm_To :: string

record Diff =
  df_Added :: "string list"
  df_Updated :: "PeerChange list"
  df_Removed :: "string list"
  df_RouteAdditions :: "prefix list"
  df_RouteRemovals :: "prefix list"
  df_OwnershipMoves :: "PrefixMove list"
  df_RestartReasons :: "string list"

definition emptyDiff :: Diff where
  "emptyDiff = \<lparr>df_Added = [], df_Updated = [], df_Removed = [], df_RouteAdditions = [], df_RouteRemovals = [],
     df_OwnershipMoves = [], df_RestartReasons = []\<rparr>"

definition Changed :: "Diff \<Rightarrow> bool" where
  "Changed d \<longleftrightarrow> df_Added d \<noteq> [] \<or> df_Updated d \<noteq> [] \<or> df_Removed d \<noteq> []"

definition RestartRequired :: "Diff \<Rightarrow> bool" where
  "RestartRequired d \<longleftrightarrow> df_RestartReasons d \<noteq> []"

definition add_reason :: "bool \<Rightarrow> string \<Rightarrow> Diff \<Rightarrow> Diff" where
  "add_reason changed reason result =
     (if changed then result\<lparr>df_RestartReasons := df_RestartReasons result @ [reason]\<rparr> else result)"

definition immutable_checks :: "Config \<Rightarrow> Config \<Rightarrow> (bool \<times> string) list" where
  "immutable_checks current desired =
     (let i = cf_Interface current; j = cf_Interface desired
      in [(\<not> equalSecret (if_PrivateKey i) (if_PrivateKey j), ''interface private key changed''),
          (if_Addresses i \<noteq> if_Addresses j, ''interface addresses changed''),
          (if_ListenPort i \<noteq> if_ListenPort j, ''interface listen port changed''),
          (if_FwMark i \<noteq> if_FwMark j, ''interface fwmark changed''),
          (if_DNS i \<noteq> if_DNS j, ''interface DNS policy changed''),
          (if_MTU i \<noteq> if_MTU j, ''interface MTU changed''),
          (if_Table i \<noteq> if_Table j, ''interface route table changed''),
          (if_PreUp i \<noteq> if_PreUp j, ''interface PreUp hooks changed''),
          (if_PostUp i \<noteq> if_PostUp j, ''interface PostUp hooks changed''),
          (if_PreDown i \<noteq> if_PreDown j, ''interface PreDown hooks changed''),
          (if_PostDown i \<noteq> if_PostDown j, ''interface PostDown hooks changed''),
          (if_SaveConfig i \<noteq> if_SaveConfig j, ''interface SaveConfig changed''),
          (cf_Transport current \<noteq> cf_Transport desired, ''interface transport policy changed'')])"

definition compareImmutable :: "Config \<Rightarrow> Config \<Rightarrow> Diff \<Rightarrow> Diff" where
  "compareImmutable current desired result =
     fold (\<lambda>(changed, reason). add_reason changed reason) (immutable_checks current desired) result"

definition changedPeerFields :: "Peer \<Rightarrow> Peer \<Rightarrow> string list" where
  "changedPeerFields current desired =
     (if pe_AllowedIPs current \<noteq> pe_AllowedIPs desired then [''allowed_ips''] else [])
     @ (if pe_Endpoint current \<noteq> pe_Endpoint desired then [''endpoint''] else [])
     @ (if pe_PersistentKeepalive current \<noteq> pe_PersistentKeepalive desired then [''persistent_keepalive''] else [])
     @ (if pe_FECPolicy current \<noteq> pe_FECPolicy desired then [''fec_policy''] else [])"

definition compare_peer :: "(string \<Rightarrow> Peer option) \<Rightarrow> Peer \<Rightarrow> Diff \<Rightarrow> Diff" where
  "compare_peer currentPeers peer result =
     (case currentPeers (pe_PublicKey peer) of
        None \<Rightarrow> result\<lparr>df_Added := df_Added result @ [pe_PublicKey peer]\<rparr>
      | Some old \<Rightarrow>
          let fields = changedPeerFields old peer;
              result = add_reason (\<not> equalSecret (pe_PresharedKey old) (pe_PresharedKey peer))
                         (''active peer '' @ shortKey (pe_PublicKey peer) @ '' preshared key changed'') result
          in if fields \<noteq> []
             then result\<lparr>df_Updated := df_Updated result @ [\<lparr>pc_PublicKey = pe_PublicKey peer, pc_Fields = fields\<rparr>]\<rparr>
             else result)"

definition removed_peer :: "(string \<Rightarrow> Peer option) \<Rightarrow> Peer \<Rightarrow> Diff \<Rightarrow> Diff" where
  "removed_peer desiredPeers peer result =
     (if desiredPeers (pe_PublicKey peer) = None then result\<lparr>df_Removed := df_Removed result @ [pe_PublicKey peer]\<rparr> else result)"

definition prefixOwners :: "Peer list \<Rightarrow> (prefix \<times> string) list" where
  "prefixOwners peers = fold (\<lambda>p m. fold (\<lambda>x m. AList.update x (pe_PublicKey p) m) (pe_AllowedIPs p) m) peers []"

definition owner_of :: "(prefix \<times> string) list \<Rightarrow> prefix \<Rightarrow> string" where
  "owner_of owners x = (case map_of owners x of Some k \<Rightarrow> k | None \<Rightarrow> [])"

definition compareRouteOwnership :: "netip_text \<Rightarrow> ((prefix \<times> string) list \<Rightarrow> (prefix \<times> string) list)
    \<Rightarrow> Peer list \<Rightarrow> Peer list \<Rightarrow> Diff \<Rightarrow> Diff" where
  "compareRouteOwnership nt ranged current desired result =
     (let currentOwners = prefixOwners current; desiredOwners = prefixOwners desired;
          additions = map fst (filter (\<lambda>(x, _). map_of currentOwners x = None) (ranged desiredOwners));
          moved = map fst (filter (\<lambda>(x, k). map_of currentOwners x \<noteq> None \<and> map_of currentOwners x \<noteq> Some k) (ranged desiredOwners));
          removals = map fst (filter (\<lambda>(x, _). map_of desiredOwners x = None) (ranged currentOwners))
      in result\<lparr>df_RouteAdditions := sortPrefixes additions, df_RouteRemovals := sortPrefixes removals,
           df_OwnershipMoves := df_OwnershipMoves result
             @ map (\<lambda>x. \<lparr>pm_Prefix = nt_PrefixString nt x, pm_From = owner_of currentOwners x, pm_To = owner_of desiredOwners x\<rparr>)
                 (sortPrefixes moved)\<rparr>)"

definition usesAutomaticTable :: "Config \<Rightarrow> bool" where
  "usesAutomaticTable cfg \<longleftrightarrow> if_Table (cf_Interface cfg) = ''auto''"

definition hasDefaultRoute :: "Config \<Rightarrow> bool \<Rightarrow> bool" where
  "hasDefaultRoute cfg ipv4 = list_ex (\<lambda>p. list_ex (\<lambda>x. snd x = 0 \<and> Addr_Is4 (fst x) = ipv4) (pe_AllowedIPs p)) (cf_Peers cfg)"

definition compare_tunnel :: "Config \<Rightarrow> Config \<Rightarrow> Diff \<Rightarrow> Diff" where
  "compare_tunnel current desired result =
     (if usesAutomaticTable current \<and> usesAutomaticTable desired
      then fold (\<lambda>(name, ipv4). add_reason (hasDefaultRoute current ipv4 \<noteq> hasDefaultRoute desired ipv4)
                   (''automatic '' @ name @ '' full-tunnel mode changed''))
             [(''IPv4'', True), (''IPv6'', False)] result
      else result)"

definition Compare :: "netip_text \<Rightarrow> ((prefix \<times> string) list \<Rightarrow> (prefix \<times> string) list) \<Rightarrow> Desired option \<Rightarrow> Desired option \<Rightarrow> Diff" where
  "Compare nt ranged current desired =
     (case (current, desired) of
        (Some c, Some d) \<Rightarrow>
          let cp = cf_Peers (de_config c); dp = cf_Peers (de_config d);
              result = compareImmutable (de_config c) (de_config d) emptyDiff;
              result = fold (compare_peer (map_of (peerMap cp))) dp result;
              result = fold (removed_peer (map_of (peerMap dp))) cp result;
              result = compareRouteOwnership nt ranged cp dp result
          in compare_tunnel (de_config c) (de_config d) result
      | _ \<Rightarrow> emptyDiff\<lparr>df_RestartReasons := [''current and desired configuration are required'']\<rparr>)"

section \<open>Lookup tables\<close>

lemma peerMap_snoc: "peerMap (ps @ [p]) = AList.update (pe_PublicKey p) p (peerMap ps)"
  by (simp add: peerMap_def)

lemma peerMap_in: "map_of (peerMap ps) k = Some q \<Longrightarrow> q \<in> set ps \<and> pe_PublicKey q = k"
  by (induction ps rule: rev_induct) (auto simp: peerMap_snoc update_conv' peerMap_def split: if_splits)

lemma peerMap_None: "map_of (peerMap ps) k = None \<longleftrightarrow> k \<notin> pe_PublicKey ` set ps"
  by (induction ps rule: rev_induct) (auto simp: peerMap_snoc update_conv' peerMap_def)

lemma peerMap_Some:
  assumes "distinct (map pe_PublicKey ps)"
  shows "map_of (peerMap ps) k = Some p \<longleftrightarrow> p \<in> set ps \<and> pe_PublicKey p = k"
proof
  assume p: "p \<in> set ps \<and> pe_PublicKey p = k"
  then obtain q where q: "map_of (peerMap ps) k = Some q"
    using peerMap_None [of ps k] by fastforce
  then have "q = p"
    using p assms peerMap_in [OF q] by (auto simp: distinct_map dest: inj_onD)
  then show "map_of (peerMap ps) k = Some p" using q by simp
qed (rule peerMap_in)

lemma owners_inner: "map_of (fold (\<lambda>x m. AList.update x k m) xs m) y = (if y \<in> set xs then Some k else map_of m y)"
  by (induction xs arbitrary: m) (auto simp: update_conv')

lemma prefixOwners_snoc: "map_of (prefixOwners (ps @ [p])) y = (if y \<in> set (pe_AllowedIPs p) then Some (pe_PublicKey p) else map_of (prefixOwners ps) y)"
  by (simp add: prefixOwners_def owners_inner)

lemma prefixOwners_in: "map_of (prefixOwners ps) y = Some k \<Longrightarrow> \<exists>p \<in> set ps. y \<in> set (pe_AllowedIPs p) \<and> pe_PublicKey p = k"
  by (induction ps rule: rev_induct) (auto simp: prefixOwners_snoc, auto simp: prefixOwners_def split: if_splits)

lemma prefixOwners_None: "map_of (prefixOwners ps) y = None \<longleftrightarrow> y \<notin> set (concat (map pe_AllowedIPs ps))"
  by (induction ps rule: rev_induct) (auto simp: prefixOwners_snoc, simp add: prefixOwners_def)

lemma prefixOwners_Some:
  assumes "distinct (concat (map pe_AllowedIPs ps))"
  shows "map_of (prefixOwners ps) y = Some k \<longleftrightarrow> (\<exists>p \<in> set ps. y \<in> set (pe_AllowedIPs p) \<and> pe_PublicKey p = k)"
  using assms
proof (induction ps rule: rev_induct)
  case Nil
  then show ?case by (simp add: prefixOwners_def)
next
  case (snoc p ps)
  then show ?case by (auto simp: prefixOwners_snoc)
qed

lemma gomap_fold_update: "gomap_ok m \<Longrightarrow> gomap_ok (fold (\<lambda>x m. AList.update x k m) xs m)"
  by (induction xs arbitrary: m) auto

lemma prefixOwners_ok: "gomap_ok (prefixOwners ps)"
proof -
  have "gomap_ok (fold (\<lambda>p m. fold (\<lambda>x m. AList.update x (pe_PublicKey p) m) (pe_AllowedIPs p) m) ps m)" if "gomap_ok m" for m
    using that by (induction ps arbitrary: m) (simp_all add: gomap_fold_update)
  then show ?thesis by (simp add: prefixOwners_def)
qed

section \<open>The parts of a comparison\<close>

lemma fold_add_reason:
  "fold (\<lambda>(changed, reason). add_reason changed reason) l r = r\<lparr>df_RestartReasons := df_RestartReasons r @ map snd (filter fst l)\<rparr>"
  by (induction l arbitrary: r) (auto simp: add_reason_def)

definition kept_changed :: "(string \<Rightarrow> Peer option) \<Rightarrow> (Peer \<Rightarrow> Peer \<Rightarrow> bool) \<Rightarrow> Peer list \<Rightarrow> Peer list" where
  "kept_changed old P ps = filter (\<lambda>p. case old (pe_PublicKey p) of Some q \<Rightarrow> P q p | None \<Rightarrow> False) ps"

lemma kept_changed_Nil: "kept_changed old P ps = [] \<longleftrightarrow> (\<forall>p \<in> set ps. \<forall>q. old (pe_PublicKey p) = Some q \<longrightarrow> \<not> P q p)"
  by (auto simp: kept_changed_def filter_empty_conv split: option.splits)

lemma fold_compare_peer:
  "fold (compare_peer old) ps r = r\<lparr>
     df_Added := df_Added r @ map pe_PublicKey (filter (\<lambda>p. old (pe_PublicKey p) = None) ps),
     df_Updated := df_Updated r
       @ map (\<lambda>p. \<lparr>pc_PublicKey = pe_PublicKey p, pc_Fields = changedPeerFields (the (old (pe_PublicKey p))) p\<rparr>)
           (kept_changed old (\<lambda>q p. changedPeerFields q p \<noteq> []) ps),
     df_RestartReasons := df_RestartReasons r
       @ map (\<lambda>p. ''active peer '' @ shortKey (pe_PublicKey p) @ '' preshared key changed'')
           (kept_changed old (\<lambda>q p. \<not> equalSecret (pe_PresharedKey q) (pe_PresharedKey p)) ps)\<rparr>"
  by (induction ps arbitrary: r) (auto simp: compare_peer_def kept_changed_def add_reason_def Let_def split: option.splits)

lemma fold_removed_peer:
  "fold (removed_peer new) ps r = r\<lparr>df_Removed := df_Removed r @ map pe_PublicKey (filter (\<lambda>p. new (pe_PublicKey p) = None) ps)\<rparr>"
  by (induction ps arbitrary: r) (auto simp: removed_peer_def)

definition tunnel_checks :: "Config \<Rightarrow> Config \<Rightarrow> (bool \<times> string) list" where
  "tunnel_checks c d =
     (if usesAutomaticTable c \<and> usesAutomaticTable d
      then [(hasDefaultRoute c True \<noteq> hasDefaultRoute d True, ''automatic IPv4 full-tunnel mode changed''),
            (hasDefaultRoute c False \<noteq> hasDefaultRoute d False, ''automatic IPv6 full-tunnel mode changed'')]
      else [])"

lemma compare_tunnel_reasons:
  "compare_tunnel c d r = r\<lparr>df_RestartReasons := df_RestartReasons r @ map snd (filter fst (tunnel_checks c d))\<rparr>"
  by (auto simp: compare_tunnel_def tunnel_checks_def add_reason_def)

lemma Compare_fields:
  fixes c d :: Desired and nt ranged
  defines "old \<equiv> map_of (peerMap (cf_Peers (de_config c)))" and "new \<equiv> map_of (peerMap (cf_Peers (de_config d)))"
    and "r \<equiv> Compare nt ranged (Some c) (Some d)"
  shows "df_Added r = map pe_PublicKey (filter (\<lambda>p. old (pe_PublicKey p) = None) (cf_Peers (de_config d)))"
    and "df_Removed r = map pe_PublicKey (filter (\<lambda>p. new (pe_PublicKey p) = None) (cf_Peers (de_config c)))"
    and "df_Updated r = map (\<lambda>p. \<lparr>pc_PublicKey = pe_PublicKey p, pc_Fields = changedPeerFields (the (old (pe_PublicKey p))) p\<rparr>)
           (kept_changed old (\<lambda>q p. changedPeerFields q p \<noteq> []) (cf_Peers (de_config d)))"
    and "df_RestartReasons r = map snd (filter fst (immutable_checks (de_config c) (de_config d)))
       @ map (\<lambda>p. ''active peer '' @ shortKey (pe_PublicKey p) @ '' preshared key changed'')
           (kept_changed old (\<lambda>q p. \<not> equalSecret (pe_PresharedKey q) (pe_PresharedKey p)) (cf_Peers (de_config d)))
       @ map snd (filter fst (tunnel_checks (de_config c) (de_config d)))"
  by (simp_all add: Compare_def compareImmutable_def fold_add_reason fold_compare_peer fold_removed_peer compareRouteOwnership_def
      compare_tunnel_reasons Let_def old_def new_def r_def emptyDiff_def)

lemma immutable_checks_none:
  assumes "filter fst (immutable_checks c d) = []"
  shows "cf_Interface c = cf_Interface d" and "cf_Transport c = cf_Transport d"
  using assms [unfolded filter_empty_conv immutable_checks_def Let_def equalSecret_def] by (auto intro: Interface.equality)

lemma changedPeerFields_Nil:
  "changedPeerFields p q = [] \<longleftrightarrow>
     pe_AllowedIPs p = pe_AllowedIPs q \<and> pe_Endpoint p = pe_Endpoint q \<and> pe_PersistentKeepalive p = pe_PersistentKeepalive q \<and> pe_FECPolicy p = pe_FECPolicy q"
  by (simp add: changedPeerFields_def)

text \<open>Canonical peers are determined by their set.\<close>

lemma peers_canonical_unique:
  assumes "peers_canonical ps" "peers_canonical qs" "set ps = set qs"
  shows "ps = qs"
proof -
  have d: "distinct ps" "distinct qs"
    using assms(1,2) by (auto simp: peers_canonical_def distinct_map)
  have "inj_on by_key (set ps)"
    using assms(1) by (intro by_key_inj) (auto simp: peers_canonical_def peer_canonical_def)
  moreover have "mset ps = mset qs"
    using d assms(3) set_eq_iff_mset_eq_distinct by blast
  ultimately have "sort_key by_key ps = qs"
    using assms(2) by (intro sort_key_inj_key_eq) (simp_all add: peers_canonical_def)
  moreover have "sort_key by_key ps = ps"
    using assms(1) by (intro sort_key_id_if_sorted) (simp add: peers_canonical_def)
  ultimately show ?thesis by simp
qed

lemma Compare_empty:
  assumes c: "peers_canonical (cf_Peers (de_config c))" and d: "peers_canonical (cf_Peers (de_config d))"
    and same: "\<not> Changed (Compare nt ranged (Some c) (Some d))" "\<not> RestartRequired (Compare nt ranged (Some c) (Some d))"
  shows "de_config c = de_config d"
proof -
  let ?cp = "cf_Peers (de_config c)" and ?dp = "cf_Peers (de_config d)"
  have dist: "distinct (map pe_PublicKey ?cp)" "distinct (map pe_PublicKey ?dp)"
    using c d by (simp_all add: peers_canonical_def)
  have none: "df_Added (Compare nt ranged (Some c) (Some d)) = []" "df_Removed (Compare nt ranged (Some c) (Some d)) = []"
      "df_Updated (Compare nt ranged (Some c) (Some d)) = []" "df_RestartReasons (Compare nt ranged (Some c) (Some d)) = []"
    using same by (simp_all add: Changed_def RestartRequired_def)
  have upd: "\<forall>p \<in> set ?dp. \<forall>q. map_of (peerMap ?cp) (pe_PublicKey p) = Some q \<longrightarrow> changedPeerFields q p = []"
    using none(3) unfolding Compare_fields map_is_Nil_conv kept_changed_Nil by simp
  have psk: "\<forall>p \<in> set ?dp. \<forall>q. map_of (peerMap ?cp) (pe_PublicKey p) = Some q \<longrightarrow> pe_PresharedKey q = pe_PresharedKey p"
    using none(4) unfolding Compare_fields append_is_Nil_conv map_is_Nil_conv kept_changed_Nil equalSecret_def by blast
  have eq: "p = q" if p: "p \<in> set ?dp" and q: "map_of (peerMap ?cp) (pe_PublicKey p) = Some q" for p q
  proof -
    have "changedPeerFields q p = []" "pe_PresharedKey q = pe_PresharedKey p" "pe_PublicKey q = pe_PublicKey p"
      using upd psk p q peerMap_in [OF q] by blast+
    then show ?thesis by (intro Peer.equality) (simp_all add: changedPeerFields_Nil)
  qed
  have keys: "pe_PublicKey ` set ?cp \<subseteq> pe_PublicKey ` set ?dp"
    using none(2) peerMap_None [of ?dp] unfolding Compare_fields by (auto simp: filter_empty_conv)
  have sub: "set ?dp \<subseteq> set ?cp"
  proof
    fix p assume p: "p \<in> set ?dp"
    then obtain q where "map_of (peerMap ?cp) (pe_PublicKey p) = Some q"
      using none(1) unfolding Compare_fields by (auto simp: filter_empty_conv)
    then show "p \<in> set ?cp" using eq [OF p] peerMap_in by blast
  qed
  have "set ?cp \<subseteq> set ?dp"
  proof
    fix p assume p: "p \<in> set ?cp"
    then obtain q where q: "q \<in> set ?dp" "pe_PublicKey q = pe_PublicKey p"
      using keys by force
    then have "q = p"
      using sub p dist(1) by (auto simp: distinct_map dest: inj_onD)
    then show "p \<in> set ?dp" using q by simp
  qed
  then have "?cp = ?dp"
    using sub c d by (intro peers_canonical_unique) auto
  moreover have "filter fst (immutable_checks (de_config c) (de_config d)) = []"
    using none(4) unfolding Compare_fields by simp
  ultimately show ?thesis
    using immutable_checks_none by (intro Config.Config.equality) auto
qed

lemma checks_same: "filter fst (immutable_checks c c) = []" "filter fst (tunnel_checks c c) = []"
  by (simp_all add: immutable_checks_def tunnel_checks_def equalSecret_def Let_def)

lemma Compare_same:
  assumes "distinct (map pe_PublicKey (cf_Peers (de_config c)))" "de_config c = de_config d"
  shows "\<not> Changed (Compare nt ranged (Some c) (Some d)) \<and> \<not> RestartRequired (Compare nt ranged (Some c) (Some d))"
proof -
  let ?cp = "cf_Peers (de_config c)"
  have "map_of (peerMap ?cp) (pe_PublicKey p) = Some p" if "p \<in> set ?cp" for p
    using that assms(1) by (simp add: peerMap_Some)
  then show ?thesis
    using assms(2)
    by (simp add: Changed_def RestartRequired_def Compare_fields kept_changed_Nil changedPeerFields_Nil equalSecret_def
        checks_same del: filter.simps)
qed

section \<open>Routes\<close>

abbreviation owns :: "Desired \<Rightarrow> prefix \<Rightarrow> string \<Rightarrow> bool" where
  "owns d x k \<equiv> \<exists>p \<in> set (cf_Peers (de_config d)). x \<in> set (pe_AllowedIPs p) \<and> pe_PublicKey p = k"

lemma ranged_keys:
  assumes "\<forall>m. mset (ranged m) = mset m"
  shows "set (ranged (prefixOwners ps)) = set (prefixOwners ps)" and "distinct (map fst (filter P (ranged (prefixOwners ps))))"
proof -
  let ?m = "prefixOwners ps"
  show "set (ranged ?m) = set ?m"
    using assms by (metis set_mset_mset)
  have "distinct (map fst (ranged ?m)) = distinct (map fst ?m)"
    using assms by (intro mset_eq_imp_distinct_iff) (metis mset_map)
  then show "distinct (map fst (filter P (ranged ?m)))"
    using prefixOwners_ok [of ps] by (simp add: gomap_ok_def distinct_map_filter)
qed

lemma ranged_filter:
  assumes "\<forall>m. mset (ranged m) = mset m"
  shows "fst ` {e \<in> set (ranged (prefixOwners ps)). P (fst e) (snd e)} = {x. \<exists>k. map_of (prefixOwners ps) x = Some k \<and> P x k}"
  using ranged_keys(1) [OF assms, of ps] prefixOwners_ok [of ps] by (force simp: gomap_ok_def)

lemma prefixOwners_owns:
  assumes "peers_canonical (cf_Peers (de_config d))"
  shows "map_of (prefixOwners (cf_Peers (de_config d))) x = Some k \<longleftrightarrow> owns d x k"
  using assms by (intro prefixOwners_Some) (simp add: peers_canonical_def)

lemma prefixOwners_unowned:
  assumes "peers_canonical (cf_Peers (de_config d))"
  shows "map_of (prefixOwners (cf_Peers (de_config d))) x = None \<longleftrightarrow> (\<forall>k. \<not> owns d x k)"
  using prefixOwners_owns [OF assms, of x] by (metis not_None_eq option.distinct(1))

lemma Compare_routes:
  fixes c d :: Desired and nt ranged
  assumes "\<forall>m. mset (ranged m) = mset m" and c: "peers_canonical (cf_Peers (de_config c))" and d: "peers_canonical (cf_Peers (de_config d))"
  defines "r \<equiv> Compare nt ranged (Some c) (Some d)"
  shows "set (df_RouteAdditions r) = {x. (\<exists>k. owns d x k) \<and> (\<forall>k. \<not> owns c x k)}" "distinct (df_RouteAdditions r)" "sorted (map prefix_rank (df_RouteAdditions r))"
    and "set (df_RouteRemovals r) = {x. (\<exists>k. owns c x k) \<and> (\<forall>k. \<not> owns d x k)}" "distinct (df_RouteRemovals r)" "sorted (map prefix_rank (df_RouteRemovals r))"
    and "\<exists>xs. set xs = {x. \<exists>k l. owns c x k \<and> owns d x l \<and> k \<noteq> l} \<and> distinct xs \<and> sorted (map prefix_rank xs)
      \<and> df_OwnershipMoves r = map (\<lambda>x. \<lparr>pm_Prefix = nt_PrefixString nt x, pm_From = owner_of (prefixOwners (cf_Peers (de_config c))) x,
            pm_To = owner_of (prefixOwners (cf_Peers (de_config d))) x\<rparr>) xs"
proof -
  let ?co = "prefixOwners (cf_Peers (de_config c))" and ?do = "prefixOwners (cf_Peers (de_config d))"
  note keys = ranged_keys [OF assms(1)] and fil = ranged_filter [OF assms(1)]
  have add: "df_RouteAdditions r = sortPrefixes (map fst (filter (\<lambda>(x, _). map_of ?co x = None) (ranged ?do)))"
    and rem: "df_RouteRemovals r = sortPrefixes (map fst (filter (\<lambda>(x, _). map_of ?do x = None) (ranged ?co)))"
    by (simp_all add: r_def Compare_def compareRouteOwnership_def compare_tunnel_reasons Let_def)
  show "set (df_RouteAdditions r) = {x. (\<exists>k. owns d x k) \<and> (\<forall>k. \<not> owns c x k)}"
    using fil [of "cf_Peers (de_config d)" "\<lambda>x k. map_of ?co x = None"]
    by (simp add: add case_prod_unfold prefixOwners_owns [OF d] prefixOwners_unowned [OF c])
  show "set (df_RouteRemovals r) = {x. (\<exists>k. owns c x k) \<and> (\<forall>k. \<not> owns d x k)}"
    using fil [of "cf_Peers (de_config c)" "\<lambda>x k. map_of ?do x = None"]
    by (simp add: rem case_prod_unfold prefixOwners_owns [OF c] prefixOwners_unowned [OF d])
  show "distinct (df_RouteAdditions r)" "sorted (map prefix_rank (df_RouteAdditions r))"
    "distinct (df_RouteRemovals r)" "sorted (map prefix_rank (df_RouteRemovals r))"
    by (simp_all only: add rem sortPrefixes_set sortPrefixes_sorted keys)
  let ?moved = "\<lambda>x k. map_of ?co x \<noteq> None \<and> map_of ?co x \<noteq> Some k"
  define xs where "xs = sortPrefixes (map fst (filter (\<lambda>(x, k). ?moved x k) (ranged ?do)))"
  have "set xs = fst ` {e \<in> set (ranged ?do). ?moved (fst e) (snd e)}"
    by (simp add: xs_def case_prod_unfold)
  also have "\<dots> = {x. \<exists>k. map_of ?do x = Some k \<and> ?moved x k}"
    by (rule fil)
  also have "\<dots> = {x. \<exists>k l. owns c x k \<and> owns d x l \<and> k \<noteq> l}"
    unfolding prefixOwners_owns [OF c, symmetric] prefixOwners_owns [OF d, symmetric] by auto
  finally show "\<exists>xs. set xs = {x. \<exists>k l. owns c x k \<and> owns d x l \<and> k \<noteq> l} \<and> distinct xs \<and> sorted (map prefix_rank xs)
      \<and> df_OwnershipMoves r = map (\<lambda>x. \<lparr>pm_Prefix = nt_PrefixString nt x, pm_From = owner_of ?co x, pm_To = owner_of ?do x\<rparr>) xs"
    by (intro exI [of _ xs] conjI)
      (simp_all add: xs_def keys sortPrefixes_sorted r_def Compare_def compareRouteOwnership_def compare_tunnel_reasons Let_def
        compareImmutable_def fold_add_reason fold_compare_peer fold_removed_peer emptyDiff_def)
qed

section \<open>Properties\<close>

text \<open>C9. The comparison misses nothing and invents nothing: for two accepted configurations it reports neither a change of
  peers nor a reason to restart exactly when their canonical forms are equal, in every order in which the maps may be
  traversed.\<close>

theorem Compare_detects_all:
  assumes "FromConfig nt dl (Some cfg) active = Inr c" "FromConfig nt dl' (Some cfg') active' = Inr d"
  shows "\<not> Changed (Compare nt ranged (Some c) (Some d)) \<and> \<not> RestartRequired (Compare nt ranged (Some c) (Some d))
    \<longleftrightarrow> de_config c = de_config d"
proof -
  have "peers_canonical (cf_Peers (de_config c))" "peers_canonical (cf_Peers (de_config d))"
    using assms [THEN FromConfig_canonical(1)] by (simp_all add: config_canonical_def)
  moreover from this have "distinct (map pe_PublicKey (cf_Peers (de_config c)))"
    by (simp add: peers_canonical_def)
  ultimately show ?thesis
    using Compare_empty [of c d nt ranged] Compare_same [of c d nt ranged] by blast
qed


section \<open>Examples\<close>

definition sample_desired_config :: Config where
  "sample_desired_config =
     (sample_config key_A key_B)\<lparr>cf_Peers := [sample_peer key_B key_B [(V4 0x0a010000, 16), (V4 0x0a040000, 16)], sample_peer key_A [] [(V4 0x0a020000, 16)]]\<rparr>"

lemma sample_desired_accepted:
  obtains d where "FromConfig quad_text sample_lib (Some sample_desired_config) None = Inr d"
proof -
  have "\<not> isl (FromConfig quad_text sample_lib (Some sample_desired_config) None)"
    by code_simp
  then show thesis using that by (cases "FromConfig quad_text sample_lib (Some sample_desired_config) None") auto
qed

theorem Compare_detects_all_witness:
  "\<exists>c. FromConfig quad_text sample_lib (Some (sample_config key_A key_B)) None = Inr c
     \<and> \<not> Changed (Compare quad_text rev (Some c) (Some c)) \<and> \<not> RestartRequired (Compare quad_text rev (Some c) (Some c))"
proof -
  obtain c where c: "FromConfig quad_text sample_lib (Some (sample_config key_A key_B)) None = Inr c"
    by (rule sample_desired)
  then show ?thesis using Compare_detects_all [OF c c, of rev] by blast
qed


end
