(* ===== verification/Coordinator.thy ===== *)
theory Coordinator
  imports Reconcile_Diff
begin

text \<open>
  The transaction coordinator, \<open>internal/reconcile/coordinator.go\<close>.  The mutex makes the locked part of every method one
  step on the state; the goroutine of an accepted transaction is the field \<open>co_running\<close>, and its calls back into the
  coordinator (progress and the end of the execution) are steps too.  The executor is the environment: what it returns
  is part of the step that ends an execution.
\<close>

section \<open>Data\<close>

datatype State =
    StateAccepted | StateValidating | StatePreparing | StateSwitching | StateCommitting | StateFinalizing | StateRollingBack
  | StateCommitted | StateNoOp | StateRejected | StateRolledBack | StateDegraded | StateOther string

record Failure =
  fa_Code :: string
  fa_Stage :: State
  fa_Retryable :: bool
  fa_Committed :: bool
  fa_Degraded :: bool
  fa_Message :: string

record TransactionResult =
  re_Epoch :: string
  re_RequestID :: string
  re_State :: State
  re_Generation :: u64
  re_Changed :: bool
  re_Added :: "string list"
  re_Updated :: "string list"
  re_Removed :: "string list"
  re_RestartRequired :: bool
  re_CleanupPending :: bool
  re_Failure :: "Failure option"
  re_RestartReasons :: "string list"
  re_CompletedAt :: "instant option"

record Request =
  rq_ExpectedEpoch :: string
  rq_ExpectedGeneration :: u64
  rq_RequestID :: string
  rq_Deadline :: "instant option"
  rq_Desired :: "Desired option"

record Transaction =
  tx_Epoch :: string
  tx_RequestID :: string
  tx_BaseGeneration :: u64
  tx_NextGeneration :: u64
  tx_Current :: Desired
  tx_Desired :: Desired
  tx_Diff :: Diff

record ApplyResult =
  ap_State :: State
  ap_CleanupPending :: bool
  ap_Failure :: "Failure option"

record Options =
  op_Epoch :: string
  op_FingerprintKey :: bytes
  op_CacheEntries :: int
  op_CacheTTL :: duration
  op_MinOperationTimeout :: duration
  op_MaxOperationTimeout :: duration

record CoordinatorStatus =
  cs_Epoch :: string
  cs_Generation :: u64
  cs_DesiredDigest :: string
  cs_Transaction :: "TransactionResult option"
  cs_LastTransaction :: "TransactionResult option"

record requestEntry =
  en_fingerprint :: bytes
  en_createdAt :: instant
  en_completedAt :: "instant option"
  en_state :: State
  en_result :: TransactionResult

record Coordinator =
  co_options :: Options
  co_epoch :: string
  co_fingerprint :: bytes
  co_generation :: u64
  co_current :: Desired
  co_entries :: "(string \<times> requestEntry) list"
  co_active :: string
  co_last :: "TransactionResult option"
  co_closed :: bool
  co_shutdownID :: string
  co_closeErr :: "string option"
  co_running :: "(Transaction \<times> instant) option"

text \<open>What the coordinator calls: text forms, JSON of a request, HMAC-SHA256, and the orders in which maps are traversed.\<close>

record coordinator_env =
  ce_text :: netip_text
  ce_Marshal :: "string \<times> u64 \<times> Config \<Rightarrow> bytes option"
  ce_hmac :: "bytes \<Rightarrow> bytes \<Rightarrow> bytes"
  ce_owners :: "(prefix \<times> string) list \<Rightarrow> (prefix \<times> string) list"
  ce_entries :: "(string \<times> requestEntry) list \<Rightarrow> (string \<times> requestEntry) list"

section \<open>Construction\<close>

datatype coordinator_error =
    InitialRequired | ExecutorRequired | RandomFailed | FingerprintKeyShort
  | RequestIDInvalid | DesiredRequired | FingerprintEncode | CoordinatorClosed

definition defaultCoordinatorOptions :: "Options \<Rightarrow> Options" where
  "defaultCoordinatorOptions opts =
     (let opts = (if op_CacheEntries opts \<le> 0 then opts\<lparr>op_CacheEntries := 256\<rparr> else opts);
          opts = (if op_CacheTTL opts \<le> 0 then opts\<lparr>op_CacheTTL := 30 * 60 * 1000000000\<rparr> else opts);
          opts = (if op_MinOperationTimeout opts \<le> 0 then opts\<lparr>op_MinOperationTimeout := 1000000000\<rparr> else opts);
          opts = (if op_MaxOperationTimeout opts < op_MinOperationTimeout opts then opts\<lparr>op_MaxOperationTimeout := 2 * 60 * 1000000000\<rparr> else opts)
      in opts)"

text \<open>The two reads of random bytes are arguments; \<open>None\<close> is a failed read.\<close>

definition NewCoordinator :: "Desired option \<Rightarrow> bool \<Rightarrow> Options \<Rightarrow> bytes option \<Rightarrow> bytes option \<Rightarrow> coordinator_error + Coordinator" where
  "NewCoordinator initial has_executor options random1 random2 =
     (case initial of
        None \<Rightarrow> Inl InitialRequired
      | Some desired \<Rightarrow>
          if \<not> has_executor then Inl ExecutorRequired
          else let options = defaultCoordinatorOptions options
          in (case (if op_Epoch options \<noteq> [] then Some (op_Epoch options) else map_option hex_EncodeToString random1) of
                None \<Rightarrow> Inl RandomFailed
              | Some epoch \<Rightarrow>
                  (case (if op_FingerprintKey options \<noteq> [] then Some (op_FingerprintKey options) else random2) of
                     None \<Rightarrow> Inl RandomFailed
                   | Some fingerprintKey \<Rightarrow>
                       if length fingerprintKey < 16 then Inl FingerprintKeyShort
                       else Inr \<lparr>co_options = options, co_epoch = epoch, co_fingerprint = fingerprintKey, co_generation = 1,
                              co_current = desired, co_entries = [], co_active = [], co_last = None, co_closed = False,
                              co_shutdownID = [], co_closeErr = None, co_running = None\<rparr>)))"

section \<open>Helpers\<close>

definition progressState :: "State \<Rightarrow> bool" where
  "progressState state \<longleftrightarrow> state \<in> {StateAccepted, StateValidating, StatePreparing, StateSwitching, StateCommitting, StateFinalizing, StateRollingBack}"

definition terminalExecutionState :: "State \<Rightarrow> bool" where
  "terminalExecutionState state \<longleftrightarrow> state = StateCommitted \<or> state = StateRolledBack \<or> state = StateDegraded"

text \<open>The two error messages of \<open>validateRequestID\<close> are one value.\<close>

definition request_char :: "char \<Rightarrow> bool" where
  "request_char c \<longleftrightarrow> CHR ''a'' \<le> c \<and> c \<le> CHR ''z'' \<or> CHR ''A'' \<le> c \<and> c \<le> CHR ''Z'' \<or> CHR ''0'' \<le> c \<and> c \<le> CHR ''9''
     \<or> c \<in> set ''-_.:''"

definition validateRequestID :: "string \<Rightarrow> bool" where
  "validateRequestID value \<longleftrightarrow> value \<noteq> [] \<and> length value \<le> 128 \<and> list_all request_char value"

definition operationDeadline :: "Options \<Rightarrow> instant \<Rightarrow> instant option \<Rightarrow> instant" where
  "operationDeadline opts now requested =
     (let d = (case requested of None \<Rightarrow> op_MaxOperationTimeout opts | Some t \<Rightarrow> t - now);
          d = (if d < op_MinOperationTimeout opts then op_MinOperationTimeout opts else d);
          d = (if d > op_MaxOperationTimeout opts then op_MaxOperationTimeout opts else d)
      in now + d)"

definition requestFingerprint :: "coordinator_env \<Rightarrow> Coordinator \<Rightarrow> Request \<Rightarrow> Desired \<Rightarrow> bytes option" where
  "requestFingerprint env c request desired =
     map_option (ce_hmac env (co_fingerprint c)) (ce_Marshal env (rq_ExpectedEpoch request, rq_ExpectedGeneration request, de_config desired))"

text \<open>\<open>evictLocked\<close>: completed entries past their lifetime, then the oldest beyond the number to keep.\<close>

definition evictLocked :: "coordinator_env \<Rightarrow> instant \<Rightarrow> Coordinator \<Rightarrow> Coordinator" where
  "evictLocked env now c =
     (let expired = (\<lambda>e. case en_completedAt e of None \<Rightarrow> False | Some t \<Rightarrow> now - t \<ge> op_CacheTTL (co_options c));
          kept = filter (\<lambda>(k, e). \<not> expired e) (co_entries c);
          terminal = filter (\<lambda>(k, e). en_completedAt e \<noteq> None \<and> \<not> expired e) (ce_entries env (co_entries c));
          limit = nat (op_CacheEntries (co_options c))
      in if length terminal \<le> limit then c\<lparr>co_entries := kept\<rparr>
         else c\<lparr>co_entries := fold (\<lambda>(k, e) m. AList.delete k m)
                  (take (length terminal - limit) (sort_key (\<lambda>(k, e). the (en_completedAt e)) terminal)) kept\<rparr>)"

definition update_entry :: "string \<Rightarrow> requestEntry \<Rightarrow> Coordinator \<Rightarrow> Coordinator" where
  "update_entry k e c = c\<lparr>co_entries := AList.update k e (co_entries c)\<rparr>"

definition finishLocked :: "coordinator_env \<Rightarrow> string \<Rightarrow> requestEntry \<Rightarrow> TransactionResult \<Rightarrow> instant \<Rightarrow> Coordinator \<Rightarrow> requestEntry \<times> Coordinator" where
  "finishLocked env k entry result now c =
     (let result = result\<lparr>re_CompletedAt := Some now\<rparr>;
          entry = entry\<lparr>en_state := re_State result, en_result := result, en_completedAt := Some now\<rparr>
      in (entry, evictLocked env now ((update_entry k entry c)\<lparr>co_last := Some result\<rparr>)))"

definition plainFailure :: "string \<Rightarrow> bool \<Rightarrow> string \<Rightarrow> Failure" where
  "plainFailure code retryable message =
     \<lparr>fa_Code = code, fa_Stage = StateValidating, fa_Retryable = retryable, fa_Committed = False, fa_Degraded = False, fa_Message = message\<rparr>"

definition finishRejectedLocked :: "coordinator_env \<Rightarrow> string \<Rightarrow> requestEntry \<Rightarrow> instant \<Rightarrow> string \<Rightarrow> string \<Rightarrow> bool \<Rightarrow> string list
    \<Rightarrow> Coordinator \<Rightarrow> requestEntry \<times> Coordinator" where
  "finishRejectedLocked env k entry now code message retryable reasons c =
     finishLocked env k entry ((en_result entry)\<lparr>re_State := StateRejected, re_Generation := co_generation c,
       re_RestartReasons := reasons, re_Failure := Some (plainFailure code retryable message)\<rparr>) now c"

definition newResult :: "Coordinator \<Rightarrow> string \<Rightarrow> State \<Rightarrow> TransactionResult" where
  "newResult c requestID state =
     \<lparr>re_Epoch = co_epoch c, re_RequestID = requestID, re_State = state, re_Generation = co_generation c, re_Changed = False,
      re_Added = [], re_Updated = [], re_Removed = [], re_RestartRequired = False, re_CleanupPending = False, re_Failure = None,
      re_RestartReasons = [], re_CompletedAt = None\<rparr>"

definition rejectedResultLocked :: "Coordinator \<Rightarrow> instant \<Rightarrow> string \<Rightarrow> string \<Rightarrow> string \<Rightarrow> bool \<Rightarrow> TransactionResult" where
  "rejectedResultLocked c now requestID code message retryable =
     (newResult c requestID StateRejected)\<lparr>re_CompletedAt := Some now, re_Failure := Some (plainFailure code retryable message)\<rparr>"

section \<open>Submission\<close>

text \<open>
  The answer to the caller: an error, a result, or that it waits for the entry of the request.  The second reading of the
  clock, for a conflict, is the argument \<open>now'\<close>.
\<close>

datatype answer = Failed coordinator_error | Answered TransactionResult | Waiting string

definition freshEntry :: "Coordinator \<Rightarrow> string \<Rightarrow> bytes \<Rightarrow> instant \<Rightarrow> requestEntry" where
  "freshEntry c requestID fingerprint now =
     \<lparr>en_fingerprint = fingerprint, en_createdAt = now, en_completedAt = None, en_state = StateValidating,
      en_result = newResult c requestID StateValidating\<rparr>"

definition rejected :: "requestEntry \<times> Coordinator \<Rightarrow> answer \<times> Coordinator" where
  "rejected ec = (Answered (en_result (fst ec)), snd ec)"

text \<open>What follows the registration of a new entry.\<close>

definition submit_new :: "coordinator_env \<Rightarrow> instant \<Rightarrow> Request \<Rightarrow> Desired \<Rightarrow> requestEntry \<Rightarrow> Coordinator \<Rightarrow> answer \<times> Coordinator" where
  "submit_new env now request desired entry c =
     (let requestID = rq_RequestID request
      in if rq_ExpectedEpoch request \<noteq> co_epoch c
         then rejected (finishRejectedLocked env requestID entry now ''stale_epoch'' ''supervisor epoch does not match'' False [] c)
         else if rq_ExpectedGeneration request \<noteq> co_generation c
         then rejected (finishRejectedLocked env requestID entry now ''stale_generation'' ''desired generation does not match'' False [] c)
         else if co_active c \<noteq> []
         then rejected (finishRejectedLocked env requestID entry now ''transaction_in_progress''
                ''another desired-state transaction is active'' True [] c)
         else let diff = Compare (ce_text env) (ce_owners env) (Some (co_current c)) (Some desired);
                  entry = entry\<lparr>en_result := (en_result entry)\<lparr>re_Added := df_Added diff, re_Updated := map pc_PublicKey (df_Updated diff),
                            re_Removed := df_Removed diff, re_Changed := Changed diff\<rparr>\<rparr>
         in if RestartRequired diff
            then let entry = entry\<lparr>en_result := (en_result entry)\<lparr>re_RestartRequired := True, re_RestartReasons := df_RestartReasons diff\<rparr>\<rparr>
                 in rejected (finishRejectedLocked env requestID entry now ''restart_required''
                      ''configuration contains changes that require an interface restart'' False (df_RestartReasons diff) c)
            else if \<not> Changed diff
            then rejected (finishLocked env requestID entry (newResult c requestID StateNoOp) now c)
            else let entry = entry\<lparr>en_state := StateAccepted, en_result := (en_result entry)\<lparr>re_State := StateAccepted\<rparr>\<rparr>;
                     transaction = \<lparr>tx_Epoch = co_epoch c, tx_RequestID = requestID, tx_BaseGeneration = co_generation c,
                       tx_NextGeneration = co_generation c + 1, tx_Current = co_current c, tx_Desired = desired, tx_Diff = diff\<rparr>
                 in (Waiting requestID,
                     (update_entry requestID entry c)\<lparr>co_active := requestID,
                       co_running := Some (transaction, operationDeadline (co_options c) now (rq_Deadline request))\<rparr>))"

definition Submit :: "coordinator_env \<Rightarrow> instant \<Rightarrow> instant \<Rightarrow> Request \<Rightarrow> Coordinator \<Rightarrow> answer \<times> Coordinator" where
  "Submit env now now' request c =
     (if \<not> validateRequestID (rq_RequestID request) then (Failed RequestIDInvalid, c)
      else (case rq_Desired request of
        None \<Rightarrow> (Failed DesiredRequired, c)
      | Some desired \<Rightarrow>
          (case requestFingerprint env c request desired of
             None \<Rightarrow> (Failed FingerprintEncode, c)
           | Some fingerprint \<Rightarrow>
               let c = evictLocked env now c; requestID = rq_RequestID request
               in (case map_of (co_entries c) requestID of
                     Some existing \<Rightarrow>
                       if en_fingerprint existing \<noteq> fingerprint
                       then (Answered (rejectedResultLocked c now' requestID ''request_id_conflict''
                               ''request ID was already used for different content'' False), c)
                       else (Waiting requestID, c)
                   | None \<Rightarrow>
                       if co_closed c then (Failed CoordinatorClosed, c)
                       else let entry = freshEntry c requestID fingerprint now
                            in submit_new env now request desired entry (update_entry requestID entry c)))))"

text \<open>\<open>waitForEntry\<close>, on the entry as it is when it is read: the result once the entry is complete, or the one so far,
  with an error, when the caller gives up; \<open>None\<close> is that the caller still waits.  When both hold, \<open>select\<close> takes either
  branch.\<close>

definition waitForEntry :: "bool \<Rightarrow> bool \<Rightarrow> requestEntry \<Rightarrow> (TransactionResult \<times> bool) option" where
  "waitForEntry cancelled prefer_cancel e =
     (if en_completedAt e \<noteq> None \<and> \<not> (cancelled \<and> prefer_cancel) then Some (en_result e, True)
      else if cancelled then Some (en_result e, False) else None)"

section \<open>Execution\<close>

definition setProgress :: "string \<Rightarrow> State \<Rightarrow> Coordinator \<Rightarrow> Coordinator" where
  "setProgress requestID state c =
     (if \<not> progressState state then c
      else (case map_of (co_entries c) requestID of
              None \<Rightarrow> c
            | Some e \<Rightarrow>
                if en_completedAt e = None
                then update_entry requestID (e\<lparr>en_state := state, en_result := (en_result e)\<lparr>re_State := state\<rparr>\<rparr>) c
                else c))"

definition SetState :: "Transaction \<Rightarrow> State \<Rightarrow> Coordinator \<Rightarrow> Coordinator" where
  "SetState t state c = setProgress (tx_RequestID t) state c"

text \<open>What \<open>execute\<close> makes of the result of the executor; \<open>cancelled\<close> is the error of the operation context.\<close>

definition normalize_apply :: "State \<Rightarrow> string option \<Rightarrow> ApplyResult \<Rightarrow> ApplyResult" where
  "normalize_apply stage cancelled apply =
     (let apply = (if ap_State apply = StateOther []
                   then apply\<lparr>ap_State := (if ap_Failure apply = None then StateCommitted else StateRolledBack)\<rparr> else apply);
          apply = (if \<not> terminalExecutionState (ap_State apply)
                   then \<lparr>ap_State = StateDegraded, ap_CleanupPending = False,
                         ap_Failure = Some \<lparr>fa_Code = ''invalid_executor_result'', fa_Stage = stage, fa_Retryable = False, fa_Committed = False,
                           fa_Degraded = True, fa_Message = ''reconciliation executor returned a non-terminal state''\<rparr>\<rparr>
                   else apply)
      in (case cancelled of
            Some message \<Rightarrow>
              if ap_Failure apply = None \<and> ap_State apply \<noteq> StateCommitted
              then apply\<lparr>ap_Failure := Some \<lparr>fa_Code = ''operation_cancelled'', fa_Stage = stage, fa_Retryable = True, fa_Committed = False,
                     fa_Degraded = False, fa_Message = message\<rparr>\<rparr>
              else apply
          | None \<Rightarrow> apply))"

definition execute_end :: "coordinator_env \<Rightarrow> instant \<Rightarrow> string option \<Rightarrow> ApplyResult \<Rightarrow> Coordinator \<Rightarrow> Coordinator" where
  "execute_end env now cancelled apply c =
     (case co_running c of
        None \<Rightarrow> c
      | Some (t, _) \<Rightarrow>
          (case map_of (co_entries c) (tx_RequestID t) of
             None \<Rightarrow> c
           | Some entry \<Rightarrow>
               let apply = normalize_apply (en_state entry) cancelled apply;
                   c = (if ap_State apply = StateCommitted then c\<lparr>co_current := tx_Desired t, co_generation := tx_NextGeneration t\<rparr> else c);
                   failure = map_option (\<lambda>f. if ap_State apply = StateCommitted then f\<lparr>fa_Committed := True\<rparr>
                               else if ap_State apply = StateDegraded then f\<lparr>fa_Degraded := True\<rparr> else f) (ap_Failure apply);
                   result = (en_result entry)\<lparr>re_State := ap_State apply, re_CleanupPending := ap_CleanupPending apply,
                     re_Failure := failure, re_Generation := co_generation c,
                     re_Changed := (if ap_State apply = StateCommitted then True else re_Changed (en_result entry))\<rparr>;
                   c = snd (finishLocked env (tx_RequestID t) entry result now c);
                   c = (if co_active c = re_RequestID result then c\<lparr>co_active := []\<rparr> else c)
               in c\<lparr>co_running := None\<rparr>))"

section \<open>Queries and shutdown\<close>

definition TransactionStatus :: "coordinator_env \<Rightarrow> instant \<Rightarrow> string \<Rightarrow> Coordinator \<Rightarrow> TransactionResult option \<times> Coordinator" where
  "TransactionStatus env now requestID c =
     (let c = evictLocked env now c in (map_option en_result (map_of (co_entries c) requestID), c))"

definition Coordinator_Status :: "coordinator_env \<Rightarrow> instant \<Rightarrow> Coordinator \<Rightarrow> CoordinatorStatus \<times> Coordinator" where
  "Coordinator_Status env now c =
     (let c = evictLocked env now c
      in (\<lparr>cs_Epoch = co_epoch c, cs_Generation = co_generation c, cs_DesiredDigest = Desired_Digest (Some (co_current c)),
           cs_Transaction = (if co_active c \<noteq> [] then map_option en_result (map_of (co_entries c) (co_active c)) else None),
           cs_LastTransaction = co_last c\<rparr>, c))"

definition Coordinator_Current :: "Coordinator \<Rightarrow> Desired" where
  "Coordinator_Current c = co_current c"

text \<open>The two locked parts of \<open>Close\<close>, before and after it has waited for the worker.\<close>

definition Close_begin :: "Coordinator \<Rightarrow> Coordinator" where
  "Close_begin c = (if co_closed c then c else c\<lparr>co_closed := True, co_shutdownID := co_active c\<rparr>)"

definition Close_end :: "Coordinator \<Rightarrow> Coordinator" where
  "Close_end c =
     (if co_running c = None \<and> co_closed c \<and> co_shutdownID c \<noteq> []
      then (case map_of (co_entries c) (co_shutdownID c) of
              None \<Rightarrow> c
            | Some e \<Rightarrow>
                if re_State (en_result e) = StateDegraded
                then c\<lparr>co_closeErr := Some (''reconciliation rollback remained degraded during supervisor shutdown''
                       @ (case re_Failure (en_result e) of
                            Some f \<Rightarrow> if fa_Message f \<noteq> [] then '': '' @ fa_Message f else []
                          | None \<Rightarrow> []))\<rparr>
                else c)
      else c)"

section \<open>The steps\<close>

text \<open>
  Progress is reported by the running transaction; a report that comes after its end finds the entry complete and does
  nothing.
\<close>

datatype event =
    SubmitEvent instant instant Request
  | ProgressEvent State
  | EndEvent instant "string option" ApplyResult
  | StatusEvent instant
  | TransactionStatusEvent instant string
  | CloseBegin
  | CloseEnd

fun co_step :: "coordinator_env \<Rightarrow> event \<Rightarrow> Coordinator \<Rightarrow> Coordinator" where
  "co_step env (SubmitEvent now now' request) c = snd (Submit env now now' request c)"
| "co_step env (ProgressEvent state) c = (case co_running c of None \<Rightarrow> c | Some (t, _) \<Rightarrow> SetState t state c)"
| "co_step env (EndEvent now cancelled apply) c = execute_end env now cancelled apply c"
| "co_step env (StatusEvent now) c = snd (Coordinator_Status env now c)"
| "co_step env (TransactionStatusEvent now k) c = snd (TransactionStatus env now k c)"
| "co_step env CloseBegin c = Close_begin c"
| "co_step env CloseEnd c = Close_end c"

inductive co_reach :: "coordinator_env \<Rightarrow> Coordinator \<Rightarrow> bool" for env where
  start: "NewCoordinator initial ex options r1 r2 = Inr c \<Longrightarrow> co_reach env c"
| step: "co_reach env c \<Longrightarrow> co_reach env (co_step env ev c)"

definition map_orders :: "coordinator_env \<Rightarrow> bool" where
  "map_orders env \<longleftrightarrow> (\<forall>m. mset (ce_entries env m) = mset m) \<and> (\<forall>m. mset (ce_owners env m) = mset m)"

section \<open>Eviction\<close>

abbreviation completed :: "string \<times> requestEntry \<Rightarrow> bool" where
  "completed ke \<equiv> en_completedAt (snd ke) \<noteq> None"

definition expired_at :: "instant \<Rightarrow> Coordinator \<Rightarrow> string \<times> requestEntry \<Rightarrow> bool" where
  "expired_at now c ke = (case en_completedAt (snd ke) of None \<Rightarrow> False | Some t \<Rightarrow> now - t \<ge> op_CacheTTL (co_options c))"

lemma fold_delete_filter: "fold (\<lambda>(k, e) m. AList.delete k m) xs m = filter (\<lambda>ke. fst ke \<notin> fst ` set xs) m"
proof (induction xs arbitrary: m)
  case (Cons x xs)
  have "AList.delete (fst x) m = filter (\<lambda>ke. fst ke \<noteq> fst x) m"
    by (simp add: AList.delete_eq case_prod_unfold eq_commute)
  with Cons show ?case by (simp add: case_prod_unfold conj_commute)
qed simp

lemma length_filter_keys:
  assumes "distinct (map fst xs)" "T \<subseteq> fst ` set xs"
  shows "length (filter (\<lambda>ke. fst ke \<notin> T) xs) = length xs - card T"
proof -
  have "map fst (filter (\<lambda>ke. fst ke \<notin> T) xs) = filter (\<lambda>k. k \<notin> T) (map fst xs)"
    by (simp add: filter_map comp_def)
  then have "length (filter (\<lambda>ke. fst ke \<notin> T) xs) = length (filter (\<lambda>k. k \<notin> T) (map fst xs))"
    by (metis length_map)
  also have "\<dots> = card (set (filter (\<lambda>k. k \<notin> T) (map fst xs)))"
    using assms(1) by (intro distinct_card [symmetric]) simp
  also have "\<dots> = card (fst ` set xs - T)"
    by (rule arg_cong [of _ _ card]) auto
  also have "\<dots> = length xs - card T"
    using assms by (simp add: card_Diff_subset finite_subset distinct_card [of "map fst xs", simplified])
  finally show ?thesis .
qed

text \<open>The completed entries that stay unless there are too many, the oldest of them, and the keys that go.\<close>

definition terminal_entries :: "coordinator_env \<Rightarrow> instant \<Rightarrow> Coordinator \<Rightarrow> (string \<times> requestEntry) list" where
  "terminal_entries env now c = filter (\<lambda>ke. completed ke \<and> \<not> expired_at now c ke) (ce_entries env (co_entries c))"

definition cache_limit :: "Coordinator \<Rightarrow> nat" where
  "cache_limit c = nat (op_CacheEntries (co_options c))"

definition oldest_entries :: "coordinator_env \<Rightarrow> instant \<Rightarrow> Coordinator \<Rightarrow> (string \<times> requestEntry) list" where
  "oldest_entries env now c =
     take (length (terminal_entries env now c) - cache_limit c) (sort_key (\<lambda>ke. the (en_completedAt (snd ke))) (terminal_entries env now c))"

definition evicted_keys :: "coordinator_env \<Rightarrow> instant \<Rightarrow> Coordinator \<Rightarrow> string set" where
  "evicted_keys env now c = fst ` {ke \<in> set (co_entries c). expired_at now c ke} \<union> fst ` set (oldest_entries env now c)"

lemma evictLocked_folds:
  "evictLocked env now c = c\<lparr>co_entries := filter (\<lambda>ke. fst ke \<notin> fst ` set (oldest_entries env now c))
     (filter (\<lambda>ke. \<not> expired_at now c ke) (co_entries c))\<rparr>"
  by (simp add: evictLocked_def Let_def terminal_entries_def oldest_entries_def cache_limit_def expired_at_def case_prod_unfold
      fold_delete_filter [unfolded case_prod_unfold])

lemma expired_key:
  assumes "gomap_ok (co_entries c)" "ke \<in> set (co_entries c)"
  shows "fst ke \<in> fst ` {ke \<in> set (co_entries c). expired_at now c ke} \<longleftrightarrow> expired_at now c ke"
  using assms by (auto simp: gomap_ok_def distinct_map dest: inj_onD)

lemma oldest_in: "set (oldest_entries env now c) \<subseteq> set (terminal_entries env now c)"
  using set_take_subset [of _ "sort_key (\<lambda>ke. the (en_completedAt (snd ke))) (terminal_entries env now c)"] by (simp add: oldest_entries_def)

lemma terminal_in:
  assumes "map_orders env"
  shows "set (terminal_entries env now c) = {ke \<in> set (co_entries c). completed ke \<and> \<not> expired_at now c ke}"
proof -
  have "set (ce_entries env (co_entries c)) = set (co_entries c)"
    using assms by (metis map_orders_def set_mset_mset)
  then show ?thesis by (auto simp: terminal_entries_def)
qed

lemma terminal_distinct:
  assumes "map_orders env" "gomap_ok (co_entries c)"
  shows "distinct (map fst (terminal_entries env now c))"
proof -
  have "distinct (map fst (ce_entries env (co_entries c))) = distinct (map fst (co_entries c))"
    using assms(1) by (intro mset_eq_imp_distinct_iff) (simp add: map_orders_def)
  then show ?thesis using assms(2) by (simp add: terminal_entries_def gomap_ok_def distinct_map_filter)
qed

lemma evictLocked_filter:
  assumes "gomap_ok (co_entries c)"
  shows "evictLocked env now c = c\<lparr>co_entries := filter (\<lambda>ke. fst ke \<notin> evicted_keys env now c) (co_entries c)\<rparr>"
proof -
  have "filter (\<lambda>ke. \<not> expired_at now c ke \<and> fst ke \<notin> fst ` set (oldest_entries env now c)) (co_entries c)
      = filter (\<lambda>ke. fst ke \<notin> evicted_keys env now c) (co_entries c)"
    using expired_key [OF assms] by (intro filter_cong) (auto simp: evicted_keys_def)
  then show ?thesis by (simp add: evictLocked_folds)
qed

lemma evicted_completed:
  assumes "map_orders env" "gomap_ok (co_entries c)" "(k, e) \<in> set (co_entries c)" "k \<in> evicted_keys env now c"
  shows "en_completedAt e \<noteq> None"
proof -
  have "\<forall>ke \<in> set (oldest_entries env now c). ke \<in> set (co_entries c) \<and> completed ke"
    using oldest_in [of env now c] terminal_in [OF assms(1), of now c] by blast
  then obtain e' where "(k, e') \<in> set (co_entries c)" "en_completedAt e' \<noteq> None"
    using assms(4) by (fastforce simp: evicted_keys_def expired_at_def split: option.splits)
  moreover from this have "e' = e"
    using assms(2,3) eq_key_imp_eq_value by (fastforce simp: gomap_ok_def)
  ultimately show ?thesis by simp
qed

lemma evictLocked_count:
  assumes "map_orders env" "gomap_ok (co_entries c)"
  shows "length (filter completed (co_entries (evictLocked env now c))) \<le> cache_limit c"
proof -
  let ?t = "terminal_entries env now c" and ?o = "oldest_entries env now c"
  define live where "live = filter completed (filter (\<lambda>ke. \<not> expired_at now c ke) (co_entries c))"
  have m: "mset live = mset ?t"
    using assms(1) by (simp add: live_def terminal_entries_def map_orders_def conj_commute)
  have d: "distinct (map fst live)" "set ?o \<subseteq> set live" "length live = length ?t"
    using assms(2) mset_eq_setD [OF m] oldest_in mset_eq_length [OF m] by (auto simp: live_def gomap_ok_def distinct_map_filter)
  have "distinct (map fst (sort_key (\<lambda>ke. the (en_completedAt (snd ke))) ?t)) = distinct (map fst ?t)"
    by (intro mset_eq_imp_distinct_iff) simp
  then have "distinct (map fst ?o)"
    using terminal_distinct [OF assms] by (simp add: oldest_entries_def distinct_take flip: take_map)
  then have "card (fst ` set ?o) = length ?o"
    using distinct_card by fastforce
  then have "length (filter (\<lambda>ke. fst ke \<notin> fst ` set ?o) live) = length live - length ?o"
    using length_filter_keys [OF d(1), of "fst ` set ?o"] d(2) by auto
  also have "\<dots> \<le> cache_limit c"
    using d(3) by (simp add: oldest_entries_def)
  finally show ?thesis
    by (simp add: evictLocked_folds live_def conj_ac)
qed

text \<open>While the cache is within its limit only expired entries go.\<close>

lemma evicted_expired:
  assumes "map_orders env" "length (filter completed (co_entries c)) \<le> cache_limit c"
  shows "evicted_keys env now c = fst ` {ke \<in> set (co_entries c). expired_at now c ke}"
proof -
  have "mset (terminal_entries env now c) = mset (filter (\<lambda>ke. \<not> expired_at now c ke) (filter completed (co_entries c)))"
    using assms(1) by (simp add: terminal_entries_def map_orders_def)
  then have "length (terminal_entries env now c) \<le> length (filter completed (co_entries c))"
    by (metis mset_eq_length length_filter_le)
  then show ?thesis
    using assms(2) by (simp add: evicted_keys_def oldest_entries_def)
qed

section \<open>The invariant\<close>

definition finalState :: "State \<Rightarrow> bool" where
  "finalState st \<longleftrightarrow> st \<in> {StateCommitted, StateNoOp, StateRejected, StateRolledBack, StateDegraded}"

definition entry_ok :: "Coordinator \<Rightarrow> string \<times> requestEntry \<Rightarrow> bool" where
  "entry_ok c ke \<longleftrightarrow>
     re_RequestID (en_result (snd ke)) = fst ke \<and> re_Epoch (en_result (snd ke)) = co_epoch c \<and> fst ke \<noteq> []
     \<and> re_CompletedAt (en_result (snd ke)) = en_completedAt (snd ke) \<and> en_state (snd ke) = re_State (en_result (snd ke))
     \<and> (if en_completedAt (snd ke) = None then progressState (en_state (snd ke)) else finalState (en_state (snd ke)))"

definition running_ok :: "Coordinator \<Rightarrow> bool" where
  "running_ok c \<longleftrightarrow>
     (case co_running c of
        None \<Rightarrow> co_active c = []
      | Some (t, _) \<Rightarrow>
          co_active c \<noteq> [] \<and> tx_RequestID t = co_active c \<and> tx_Epoch t = co_epoch c \<and> tx_BaseGeneration t = co_generation c
          \<and> tx_NextGeneration t = co_generation c + 1 \<and> tx_Current t = co_current c
          \<and> (\<exists>e. map_of (co_entries c) (co_active c) = Some e \<and> en_completedAt e = None))"

text \<open>The invariant, with the keys of entries that are being registered.\<close>

definition co_inv :: "string set \<Rightarrow> Coordinator \<Rightarrow> bool" where
  "co_inv K c \<longleftrightarrow>
     gomap_ok (co_entries c) \<and> (\<forall>ke \<in> set (co_entries c). entry_ok c ke) \<and> running_ok c
     \<and> (\<forall>(k, e) \<in> set (co_entries c). en_completedAt e = None \<longrightarrow> k = co_active c \<or> k \<in> K)
     \<and> length (filter completed (co_entries c)) \<le> cache_limit c"

abbreviation co_ok :: "Coordinator \<Rightarrow> bool" where
  "co_ok \<equiv> co_inv {}"

lemma evictLocked_fields [simp]:
  "co_options (evictLocked env now c) = co_options c" "co_epoch (evictLocked env now c) = co_epoch c"
  "co_fingerprint (evictLocked env now c) = co_fingerprint c" "co_generation (evictLocked env now c) = co_generation c"
  "co_current (evictLocked env now c) = co_current c" "co_active (evictLocked env now c) = co_active c"
  "co_last (evictLocked env now c) = co_last c" "co_closed (evictLocked env now c) = co_closed c"
  "co_shutdownID (evictLocked env now c) = co_shutdownID c" "co_closeErr (evictLocked env now c) = co_closeErr c"
  "co_running (evictLocked env now c) = co_running c"
  by (simp_all add: evictLocked_folds)

lemma update_entry_fields [simp]:
  "co_options (update_entry k e c) = co_options c" "co_epoch (update_entry k e c) = co_epoch c"
  "co_fingerprint (update_entry k e c) = co_fingerprint c" "co_generation (update_entry k e c) = co_generation c"
  "co_current (update_entry k e c) = co_current c" "co_active (update_entry k e c) = co_active c"
  "co_last (update_entry k e c) = co_last c" "co_closed (update_entry k e c) = co_closed c"
  "co_shutdownID (update_entry k e c) = co_shutdownID c" "co_closeErr (update_entry k e c) = co_closeErr c"
  "co_running (update_entry k e c) = co_running c" "co_entries (update_entry k e c) = AList.update k e (co_entries c)"
  by (simp_all add: update_entry_def)

lemma entry_ok_cong: "co_epoch c = co_epoch d \<Longrightarrow> entry_ok c = entry_ok d"
  by (simp add: entry_ok_def fun_eq_iff)

text \<open>Eviction restores the limit and keeps the rest of the invariant; the running entry always stays.\<close>

definition co_core :: "string set \<Rightarrow> Coordinator \<Rightarrow> bool" where
  "co_core K c \<longleftrightarrow>
     gomap_ok (co_entries c) \<and> (\<forall>ke \<in> set (co_entries c). entry_ok c ke) \<and> running_ok c
     \<and> (\<forall>(k, e) \<in> set (co_entries c). en_completedAt e = None \<longrightarrow> k = co_active c \<or> k \<in> K)"

lemma co_inv_core: "co_inv K c \<longleftrightarrow> co_core K c \<and> length (filter completed (co_entries c)) \<le> cache_limit c"
  by (simp add: co_inv_def co_core_def)

lemma map_of_filter_keys: "map_of (filter (\<lambda>ke. fst ke \<notin> S) m) k = (if k \<in> S then None else map_of m k)"
  by (induction m) auto

lemma evictLocked_lookup:
  assumes "gomap_ok (co_entries c)"
  shows "map_of (co_entries (evictLocked env now c)) k = (if k \<in> evicted_keys env now c then None else map_of (co_entries c) k)"
  by (simp add: evictLocked_filter [OF assms] map_of_filter_keys)

lemma evictLocked_keeps_incomplete:
  assumes "map_orders env" "gomap_ok (co_entries c)" "map_of (co_entries c) k = Some e" "en_completedAt e = None"
  shows "map_of (co_entries (evictLocked env now c)) k = Some e"
  using evicted_completed [OF assms(1,2) map_of_SomeD [OF assms(3)]] assms by (auto simp: evictLocked_lookup)

lemma evictLocked_inv:
  assumes env: "map_orders env" and core: "co_core K c"
  shows "co_inv K (evictLocked env now c)"
proof -
  have ok: "gomap_ok (co_entries c)"
    using core by (simp add: co_core_def)
  let ?c = "evictLocked env now c"
  have sub: "set (co_entries ?c) \<subseteq> set (co_entries c)"
    by (auto simp: evictLocked_filter [OF ok])
  have "gomap_ok (co_entries ?c)"
    using ok by (simp add: evictLocked_filter [OF ok])
  moreover have "running_ok ?c"
    using core evictLocked_keeps_incomplete [OF env ok] by (fastforce simp: co_core_def running_ok_def split: option.splits)
  moreover have "length (filter completed (co_entries ?c)) \<le> cache_limit ?c"
    using evictLocked_count [OF env ok] by (simp add: cache_limit_def)
  moreover have "\<forall>ke \<in> set (co_entries ?c). entry_ok ?c ke"
    using core sub entry_ok_cong [of ?c c] by (auto simp: co_core_def)
  ultimately show ?thesis
    using core sub by (auto simp: co_inv_def co_core_def)
qed

lemma update_incomplete_count:
  assumes "en_completedAt e = None" "\<forall>e'. map_of m k = Some e' \<longrightarrow> en_completedAt e' = None"
  shows "length (filter completed (AList.update k e m)) = length (filter completed m)"
  using assms by (induction m) (auto split: if_splits)

lemma update_entry_core:
  assumes core: "co_core K c" and e: "entry_ok c (k, e)" and k: "k \<in> K \<or> en_completedAt e \<noteq> None" and other: "co_active c \<noteq> k"
  shows "co_core (if en_completedAt e = None then K else K - {k}) (update_entry k e c)"
proof -
  have ok: "gomap_ok (co_entries c)"
    using core by (simp add: co_core_def)
  have "running_ok (update_entry k e c)"
    using core other by (auto simp: co_core_def running_ok_def gomap_lookup_update split: option.splits)
  moreover have "\<forall>ke \<in> set (co_entries (update_entry k e c)). entry_ok (update_entry k e c) ke"
    using core e entry_ok_cong [of "update_entry k e c" c] by (auto simp: co_core_def in_set_update [OF ok] split: if_splits)
  ultimately show ?thesis
    using core k ok by (auto simp: co_core_def in_set_update [OF ok] split: if_splits)
qed

lemma co_core_unrelated [simp]:
  "co_core K (c\<lparr>co_last := l\<rparr>) = co_core K c" "co_core K (c\<lparr>co_closeErr := err\<rparr>) = co_core K c"
  "co_core K (c\<lparr>co_closed := b, co_shutdownID := sid\<rparr>) = co_core K c"
  by (simp_all add: co_core_def running_ok_def entry_ok_def cong: option.case_cong)

text \<open>An accepted transaction: its entry is the only incomplete one.\<close>

lemma accept_inv:
  assumes inv: "co_inv {k} c" and idle: "co_active c = []" and k: "k \<noteq> []" and e: "entry_ok c (k, e)" "en_completedAt e = None"
    and old: "map_of (co_entries c) k = Some e0" "en_completedAt e0 = None"
    and t: "tx_RequestID t = k" "tx_Epoch t = co_epoch c" "tx_BaseGeneration t = co_generation c" "tx_NextGeneration t = co_generation c + 1"
      "tx_Current t = co_current c"
  shows "co_ok ((update_entry k e c)\<lparr>co_active := k, co_running := Some (t, dl)\<rparr>)" (is "co_ok ?c")
proof -
  have ok: "gomap_ok (co_entries c)" and es: "\<forall>ke \<in> set (co_entries c). entry_ok c ke"
    and inc: "\<forall>(k', e') \<in> set (co_entries c). en_completedAt e' = None \<longrightarrow> k' = co_active c \<or> k' \<in> {k}"
    using inv by (simp_all add: co_inv_def)
  have "running_ok ?c"
    using k t e by (simp add: running_ok_def gomap_lookup_update)
  moreover have "\<forall>ke \<in> set (co_entries ?c). entry_ok ?c ke"
    using es e entry_ok_cong [of ?c c] by (auto simp: in_set_update [OF ok] split: if_splits)
  moreover have "\<forall>(k', e') \<in> set (co_entries ?c). en_completedAt e' = None \<longrightarrow> k' = k"
    using inc es idle by (auto simp: in_set_update [OF ok] entry_ok_def split: if_splits) fastforce
  moreover have "length (filter completed (co_entries ?c)) \<le> cache_limit ?c"
    using update_incomplete_count [of e "co_entries c" k] e old inv by (simp add: co_inv_def cache_limit_def)
  ultimately show ?thesis
    using ok by (auto simp: co_inv_def)
qed

lemma finishLocked_inv:
  assumes env: "map_orders env" and core: "co_core {k} c" and k: "co_active c \<noteq> k" "k \<noteq> []"
    and r: "re_RequestID r = k" "re_Epoch r = co_epoch c" "finalState (re_State r)"
  shows "co_ok (snd (finishLocked env k e r now c))"
proof -
  define e' where "e' = e\<lparr>en_state := re_State r, en_result := r\<lparr>re_CompletedAt := Some now\<rparr>, en_completedAt := Some now\<rparr>"
  have "entry_ok c (k, e')"
    using k r by (simp add: entry_ok_def e'_def)
  then have "co_core {} (update_entry k e' c)"
    using update_entry_core [OF core, of k e'] k by (simp add: e'_def)
  then have "co_core {} ((update_entry k e' c)\<lparr>co_last := Some (r\<lparr>re_CompletedAt := Some now\<rparr>)\<rparr>)"
    by simp
  from evictLocked_inv [OF env this] show ?thesis
    by (simp add: finishLocked_def Let_def e'_def)
qed

lemma finishRejectedLocked_inv:
  assumes "map_orders env" "co_core {k} c" "co_active c \<noteq> k" "k \<noteq> []"
    "re_RequestID (en_result e) = k" "re_Epoch (en_result e) = co_epoch c"
  shows "co_ok (snd (finishRejectedLocked env k e now code msg retry reasons c))"
  unfolding finishRejectedLocked_def using assms by (intro finishLocked_inv) (simp_all add: finalState_def)

lemma submit_new_inv:
  assumes env: "map_orders env" and inv: "co_inv {rq_RequestID rq} c" and k: "co_active c \<noteq> rq_RequestID rq" "rq_RequestID rq \<noteq> []"
    and e: "map_of (co_entries c) (rq_RequestID rq) = Some e" "en_completedAt e = None" "entry_ok c (rq_RequestID rq, e)"
  shows "co_ok (snd (submit_new env now rq desired e c))"
proof -
  let ?k = "rq_RequestID rq" and ?d = "Compare (ce_text env) (ce_owners env) (Some (co_current c)) (Some desired)"
  have core: "co_core {?k} c"
    using inv by (simp add: co_inv_core)
  have r: "re_RequestID (en_result e) = ?k" "re_Epoch (en_result e) = co_epoch c"
    using e(3) by (simp_all add: entry_ok_def)
  note rej = finishRejectedLocked_inv [OF env core k]
  consider (reject) "\<not> (rq_ExpectedEpoch rq = co_epoch c \<and> rq_ExpectedGeneration rq = co_generation c \<and> co_active c = []) \<or> RestartRequired ?d"
    | (noop) "rq_ExpectedEpoch rq = co_epoch c" "rq_ExpectedGeneration rq = co_generation c" "co_active c = []" "\<not> RestartRequired ?d" "\<not> Changed ?d"
    | (accept) "rq_ExpectedEpoch rq = co_epoch c" "rq_ExpectedGeneration rq = co_generation c" "co_active c = []" "\<not> RestartRequired ?d" "Changed ?d"
    by blast
  then show ?thesis
  proof cases
    case reject
    then show ?thesis
      by (auto simp: submit_new_def Let_def rejected_def r intro!: rej)
  next
    case noop
    then show ?thesis
      by (simp add: submit_new_def Let_def rejected_def finishLocked_inv [OF env core k] newResult_def finalState_def)
  next
    case accept
    have "entry_ok c (?k, e\<lparr>en_state := StateAccepted, en_result := (en_result e)\<lparr>re_Added := a, re_Updated := u, re_Removed := d,
        re_Changed := ch, re_State := StateAccepted\<rparr>\<rparr>)" for a u d ch
      using e by (simp add: entry_ok_def progressState_def)
    then show ?thesis
      using accept e(2) by (simp add: submit_new_def Let_def accept_inv [OF inv accept(3) k(2) _ _ e(1,2)])
  qed
qed

lemma validateRequestID_nonempty: "validateRequestID k \<Longrightarrow> k \<noteq> []"
  by (simp add: validateRequestID_def)

lemma fresh_inv:
  assumes inv: "co_ok c" and new: "map_of (co_entries c) k = None" and k: "k \<noteq> []"
  shows "co_inv {k} (update_entry k (freshEntry c k fp now) c)" and "co_active c \<noteq> k" and "entry_ok c (k, freshEntry c k fp now)"
proof -
  show other: "co_active c \<noteq> k"
    using inv new k by (auto simp: co_inv_def running_ok_def split: option.splits)
  show e: "entry_ok c (k, freshEntry c k fp now)"
    using k by (simp add: entry_ok_def freshEntry_def newResult_def progressState_def)
  have "co_core {k} c"
    using inv by (auto simp: co_inv_core co_core_def)
  then have "co_core {k} (update_entry k (freshEntry c k fp now) c)"
    using update_entry_core [OF _ e, of "{k}"] other by (simp add: freshEntry_def)
  moreover have "length (filter completed (co_entries (update_entry k (freshEntry c k fp now) c))) \<le> cache_limit (update_entry k (freshEntry c k fp now) c)"
    using update_incomplete_count [of "freshEntry c k fp now" "co_entries c" k] inv new by (simp add: co_inv_def cache_limit_def freshEntry_def)
  ultimately show "co_inv {k} (update_entry k (freshEntry c k fp now) c)"
    by (simp add: co_inv_core)
qed

lemma evictLocked_ok: "map_orders env \<Longrightarrow> co_ok c \<Longrightarrow> co_ok (evictLocked env now c)"
  using evictLocked_inv co_inv_core by blast

lemma Submit_inv:
  assumes env: "map_orders env" and inv: "co_ok c"
  shows "co_ok (snd (Submit env now now' rq c))"
proof -
  define d where "d = evictLocked env now c"
  have d: "co_ok d"
    using evictLocked_ok [OF env inv] by (simp add: d_def)
  have new: "co_ok (snd (submit_new env now rq desired (freshEntry d (rq_RequestID rq) fp now) (update_entry (rq_RequestID rq) (freshEntry d (rq_RequestID rq) fp now) d)))"
    if "map_of (co_entries d) (rq_RequestID rq) = None" "validateRequestID (rq_RequestID rq)" for desired fp
  proof -
    note f = fresh_inv [OF d that(1) validateRequestID_nonempty [OF that(2)]]
    show ?thesis
      using f(1) [of fp now] f(2) f(3) [of fp now] validateRequestID_nonempty [OF that(2)]
      by (intro submit_new_inv [OF env]) (simp_all add: gomap_lookup_update, simp_all add: freshEntry_def entry_ok_def)
  qed
  show ?thesis
    using inv d new unfolding Submit_def Let_def d_def [symmetric] by (auto split: option.splits)
qed

lemma setProgress_inv:
  assumes inv: "co_ok c"
  shows "co_ok (setProgress k st c)"
proof (cases "progressState st \<and> (\<exists>e. map_of (co_entries c) k = Some e \<and> en_completedAt e = None)")
  case True
  then obtain e where st: "progressState st" and e: "map_of (co_entries c) k = Some e" "en_completedAt e = None"
    by blast
  define e' where "e' = e\<lparr>en_state := st, en_result := (en_result e)\<lparr>re_State := st\<rparr>\<rparr>"
  have ok: "gomap_ok (co_entries c)" and inc: "en_completedAt e' = None"
    using inv e by (simp_all add: co_inv_def e'_def)
  have "entry_ok c (k, e)" "k = co_active c"
    using inv map_of_SomeD [OF e(1)] e(2) by (auto simp: co_inv_def)
  then have e': "entry_ok (update_entry k e' c) (k, e')"
    using st e(2) by (simp add: entry_ok_def e'_def)
  have "running_ok (update_entry k e' c)"
    using inv inc by (auto simp: co_inv_def running_ok_def gomap_lookup_update split: option.splits)
  moreover have "\<forall>ke \<in> set (co_entries (update_entry k e' c)). entry_ok (update_entry k e' c) ke"
    using inv e' entry_ok_cong [of "update_entry k e' c" c] by (auto simp: co_inv_def in_set_update [OF ok] split: if_splits)
  moreover have "length (filter completed (co_entries (update_entry k e' c))) \<le> cache_limit (update_entry k e' c)"
    using update_incomplete_count [of e' "co_entries c" k] inc e inv by (simp add: co_inv_def cache_limit_def)
  ultimately have "co_ok (update_entry k e' c)"
    using inv ok \<open>k = co_active c\<close> by (auto simp: co_inv_def in_set_update [OF ok] split: if_splits)
  then show ?thesis
    using st e by (simp add: setProgress_def e'_def)
next
  case False
  then have "setProgress k st c = c"
    by (auto simp: setProgress_def split: option.splits)
  then show ?thesis using inv by simp
qed

lemma evictLocked_idle: "(evictLocked env now c)\<lparr>co_active := a, co_running := r\<rparr> = evictLocked env now (c\<lparr>co_active := a, co_running := r\<rparr>)"
proof -
  have e: "expired_at now (c\<lparr>co_active := a, co_running := r\<rparr>) = expired_at now c"
    by (simp add: expired_at_def fun_eq_iff split: option.split)
  show ?thesis
    by (simp add: evictLocked_folds oldest_entries_def terminal_entries_def cache_limit_def e)
qed

lemma normalize_apply_final: "finalState (ap_State (normalize_apply st cancelled ap))"
  by (auto simp: normalize_apply_def Let_def finalState_def terminalExecutionState_def split: option.splits)

text \<open>The end of an execution in one update: the final result, the new current state if it committed, and an idle
  coordinator.\<close>

definition end_result :: "string option \<Rightarrow> ApplyResult \<Rightarrow> requestEntry \<Rightarrow> Transaction \<Rightarrow> Coordinator \<Rightarrow> TransactionResult" where
  "end_result cancelled apply e t c =
     (let ap = normalize_apply (en_state e) cancelled apply; com = (ap_State ap = StateCommitted)
      in (en_result e)\<lparr>re_State := ap_State ap, re_CleanupPending := ap_CleanupPending ap,
           re_Failure := map_option (\<lambda>f. if com then f\<lparr>fa_Committed := True\<rparr> else if ap_State ap = StateDegraded then f\<lparr>fa_Degraded := True\<rparr> else f) (ap_Failure ap),
           re_Generation := (if com then tx_NextGeneration t else co_generation c),
           re_Changed := (if com then True else re_Changed (en_result e))\<rparr>)"

definition end_state :: "string option \<Rightarrow> ApplyResult \<Rightarrow> requestEntry \<Rightarrow> Transaction \<Rightarrow> Coordinator \<Rightarrow> Coordinator" where
  "end_state cancelled apply e t c =
     (if ap_State (normalize_apply (en_state e) cancelled apply) = StateCommitted
      then c\<lparr>co_current := tx_Desired t, co_generation := tx_NextGeneration t\<rparr> else c)"

lemma end_state_fields [simp]:
  "co_entries (end_state cancelled apply e t c) = co_entries c" "co_epoch (end_state cancelled apply e t c) = co_epoch c"
  "co_options (end_state cancelled apply e t c) = co_options c" "co_active (end_state cancelled apply e t c) = co_active c"
  by (simp_all add: end_state_def)

lemma end_result_fields [simp]:
  "re_RequestID (end_result cancelled apply e t c) = re_RequestID (en_result e)" "re_Epoch (end_result cancelled apply e t c) = re_Epoch (en_result e)"
  "finalState (re_State (end_result cancelled apply e t c))"
  by (simp_all add: end_result_def Let_def normalize_apply_final)

lemma execute_end_running:
  assumes inv: "co_ok c" and run: "co_running c = Some (t, dl)"
  obtains e where "map_of (co_entries c) (co_active c) = Some e" "en_completedAt e = None" "tx_RequestID t = co_active c"
    "entry_ok c (co_active c, e)"
    "execute_end env now cancelled apply c =
       evictLocked env now ((update_entry (co_active c) (e\<lparr>en_state := re_State (end_result cancelled apply e t c),
           en_result := (end_result cancelled apply e t c)\<lparr>re_CompletedAt := Some now\<rparr>, en_completedAt := Some now\<rparr>) (end_state cancelled apply e t c))
         \<lparr>co_last := Some ((end_result cancelled apply e t c)\<lparr>re_CompletedAt := Some now\<rparr>), co_active := [], co_running := None\<rparr>)"
proof -
  obtain e where e: "map_of (co_entries c) (co_active c) = Some e" "en_completedAt e = None" and t: "tx_RequestID t = co_active c"
    using inv run by (auto simp: co_inv_def running_ok_def)
  have ok: "entry_ok c (co_active c, e)"
    using inv map_of_SomeD [OF e(1)] by (auto simp: co_inv_def)
  then have id: "re_RequestID (en_result e) = co_active c"
    by (simp add: entry_ok_def)
  define ap where "ap = normalize_apply (en_state e) cancelled apply"
  have "execute_end env now cancelled apply c = evictLocked env now ((update_entry (co_active c) (e\<lparr>en_state := re_State (end_result cancelled apply e t c),
           en_result := (end_result cancelled apply e t c)\<lparr>re_CompletedAt := Some now\<rparr>, en_completedAt := Some now\<rparr>) (end_state cancelled apply e t c))
         \<lparr>co_last := Some ((end_result cancelled apply e t c)\<lparr>re_CompletedAt := Some now\<rparr>), co_active := [], co_running := None\<rparr>)"
    using e t id unfolding execute_end_def run option.case prod.case
    by (cases "ap_State ap = StateCommitted")
      (simp_all add: Let_def finishLocked_def end_state_def end_result_def ap_def [symmetric] flip: evictLocked_idle)
  with e t ok show thesis by (intro that)
qed

lemma execute_end_inv:
  assumes env: "map_orders env" and inv: "co_ok c"
  shows "co_ok (execute_end env now cancelled apply c)"
proof (cases "co_running c")
  case None
  then show ?thesis using inv by (simp add: execute_end_def)
next
  case (Some r)
  obtain t dl where run: "co_running c = Some (t, dl)"
    using Some by (cases r) auto
  obtain e where e: "map_of (co_entries c) (co_active c) = Some e" "entry_ok c (co_active c, e)"
    and out: "execute_end env now cancelled apply c = evictLocked env now ((update_entry (co_active c) (e\<lparr>en_state := re_State (end_result cancelled apply e t c),
           en_result := (end_result cancelled apply e t c)\<lparr>re_CompletedAt := Some now\<rparr>, en_completedAt := Some now\<rparr>) (end_state cancelled apply e t c))
         \<lparr>co_last := Some ((end_result cancelled apply e t c)\<lparr>re_CompletedAt := Some now\<rparr>), co_active := [], co_running := None\<rparr>)" (is "_ = evictLocked env now ?c")
    by (rule execute_end_running [OF inv run])
  have ok: "gomap_ok (co_entries c)"
    using inv by (simp add: co_inv_def)
  define e' where "e' = e\<lparr>en_state := re_State (end_result cancelled apply e t c),
           en_result := (end_result cancelled apply e t c)\<lparr>re_CompletedAt := Some now\<rparr>, en_completedAt := Some now\<rparr>"
  have ents: "co_entries ?c = AList.update (co_active c) e' (co_entries c)" and "entry_ok c (co_active c, e')"
    using e(2) by (simp_all add: e'_def entry_ok_def)
  then have "\<forall>ke \<in> set (co_entries ?c). entry_ok ?c ke"
    using inv entry_ok_cong [of ?c c] by (auto simp: ents in_set_update [OF ok] co_inv_def split: if_splits)
  moreover have "\<forall>(k, e') \<in> set (co_entries ?c). en_completedAt e' \<noteq> None"
    using inv by (auto simp: ents e'_def in_set_update [OF ok] co_inv_def split: if_splits)
  ultimately have "co_core {} ?c"
    using ok by (auto simp: co_core_def running_ok_def ents)
  then show ?thesis
    unfolding out by (rule evictLocked_inv [OF env])
qed

lemma co_step_inv:
  assumes "map_orders env" "co_ok c"
  shows "co_ok (co_step env ev c)"
proof (cases ev)
  case (ProgressEvent st)
  then show ?thesis
    using assms by (auto simp: SetState_def setProgress_inv split: option.splits)
next
  case CloseBegin
  then show ?thesis
    using assms by (simp add: Close_begin_def co_inv_core cache_limit_def)
next
  case CloseEnd
  then show ?thesis
    using assms by (auto simp: Close_end_def co_inv_core cache_limit_def split: option.splits)
qed (use assms in \<open>simp_all add: Submit_inv execute_end_inv Coordinator_Status_def TransactionStatus_def Let_def evictLocked_ok\<close>)

lemma NewCoordinator_inv: "NewCoordinator initial ex options r1 r2 = Inr c \<Longrightarrow> co_ok c"
  by (auto simp: NewCoordinator_def Let_def co_inv_def running_ok_def split: option.splits if_splits)

lemma co_reach_ok: "co_reach env c \<Longrightarrow> map_orders env \<Longrightarrow> co_ok c"
  by (induction rule: co_reach.induct) (simp_all add: NewCoordinator_inv co_step_inv)

section \<open>The abstract register\<close>

text \<open>
  What the coordinator promises: a register with a generation that changes only by compare-and-set.  A pending value is
  accepted for the generation it names, and is then either stored, under the next generation, or dropped.
\<close>

type_synonym register = "u64 \<times> Desired \<times> Desired option"

datatype cas_label = Quiet | AcceptFor u64 Desired | Store | Drop

inductive cas_step :: "cas_label \<Rightarrow> register \<Rightarrow> register \<Rightarrow> bool" where
  "cas_step Quiet r r"
| "cas_step (AcceptFor g w) (g, v, None) (g, v, Some w)"
| "cas_step Store (g, v, Some w) (g + 1, w, None)"
| "cas_step Drop (g, v, Some w) (g, v, None)"

inductive_simps cas_step_simps [simp]:
  "cas_step Quiet r r'" "cas_step (AcceptFor g w) r r'" "cas_step Store r r'" "cas_step Drop r r'"

definition register_of :: "Coordinator \<Rightarrow> register" where
  "register_of c = (co_generation c, co_current c, map_option (\<lambda>(t, _). tx_Desired t) (co_running c))"

definition executor_committed :: "ApplyResult \<Rightarrow> bool" where
  "executor_committed ap \<longleftrightarrow> ap_State ap = StateCommitted \<or> ap_State ap = StateOther [] \<and> ap_Failure ap = None"

fun label_of :: "coordinator_env \<Rightarrow> event \<Rightarrow> Coordinator \<Rightarrow> cas_label" where
  "label_of env (SubmitEvent now now' rq) c =
     (if co_running (co_step env (SubmitEvent now now' rq) c) = co_running c then Quiet
      else AcceptFor (rq_ExpectedGeneration rq) (the (rq_Desired rq)))"
| "label_of env (EndEvent now cancelled ap) c =
     (if co_running c = None then Quiet else if executor_committed ap then Store else Drop)"
| "label_of env _ c = Quiet"

lemma normalize_apply_committed: "ap_State (normalize_apply st cancelled ap) = StateCommitted \<longleftrightarrow> executor_committed ap"
  by (auto simp: normalize_apply_def executor_committed_def Let_def terminalExecutionState_def split: option.splits)

lemma finishLocked_fields [simp]:
  "co_generation (snd (finishLocked env k e r now c)) = co_generation c" "co_current (snd (finishLocked env k e r now c)) = co_current c"
  "co_running (snd (finishLocked env k e r now c)) = co_running c" "co_active (snd (finishLocked env k e r now c)) = co_active c"
  by (simp_all add: finishLocked_def Let_def)

lemma finishRejectedLocked_fields [simp]:
  "co_generation (snd (finishRejectedLocked env k e now code msg retry reasons c)) = co_generation c"
  "co_current (snd (finishRejectedLocked env k e now code msg retry reasons c)) = co_current c"
  "co_running (snd (finishRejectedLocked env k e now code msg retry reasons c)) = co_running c"
  by (simp_all add: finishRejectedLocked_def)

text \<open>A submission either leaves the register alone or is accepted, and then every condition held.\<close>

definition accepts :: "coordinator_env \<Rightarrow> Request \<Rightarrow> Desired \<Rightarrow> Coordinator \<Rightarrow> bool" where
  "accepts env rq d c \<longleftrightarrow>
     rq_ExpectedEpoch rq = co_epoch c \<and> rq_ExpectedGeneration rq = co_generation c \<and> co_active c = []
     \<and> \<not> RestartRequired (Compare (ce_text env) (ce_owners env) (Some (co_current c)) (Some d))
     \<and> Changed (Compare (ce_text env) (ce_owners env) (Some (co_current c)) (Some d))"

lemma submit_new_effect:
  fixes env now rq d e c
  defines "c' \<equiv> snd (submit_new env now rq d e c)"
  shows "co_generation c' = co_generation c" and "co_current c' = co_current c"
    and "if accepts env rq d c then \<exists>t. co_running c' = Some (t, operationDeadline (co_options c) now (rq_Deadline rq)) \<and> tx_Desired t = d
      \<and> tx_RequestID t = rq_RequestID rq else co_running c' = co_running c"
  unfolding c'_def by (auto simp: submit_new_def accepts_def rejected_def Let_def)

lemma Submit_effect:
  assumes "co_ok c"
  defines "c' \<equiv> \<lambda>env now now' rq. snd (Submit env now now' rq c)"
  shows "co_generation (c' env now now' rq) = co_generation c \<and> co_current (c' env now now' rq) = co_current c
    \<and> (co_running (c' env now now' rq) = co_running c
       \<or> (\<exists>d t. rq_Desired rq = Some d \<and> \<not> co_closed c \<and> accepts env rq d c \<and> co_running c = None
            \<and> co_running (c' env now now' rq) = Some (t, operationDeadline (co_options c) now (rq_Deadline rq))
            \<and> tx_Desired t = d \<and> tx_RequestID t = rq_RequestID rq))"
proof -
  define v where "v = evictLocked env now c"
  define sub where "sub = (\<lambda>d fp. snd (submit_new env now rq d (freshEntry v (rq_RequestID rq) fp now) (update_entry (rq_RequestID rq) (freshEntry v (rq_RequestID rq) fp now) v)))"
  have idle: "co_active c = [] \<longleftrightarrow> co_running c = None"
    using assms(1) by (auto simp: co_inv_def running_ok_def split: option.splits)
  have v: "co_options v = co_options c" "co_generation v = co_generation c" "co_current v = co_current c" "co_running v = co_running c"
    "co_closed v = co_closed c"
    by (simp_all add: v_def)
  have "accepts env rq d (update_entry k e v) = accepts env rq d c" for d k e
    by (simp add: accepts_def v_def)
  then have sub: "co_generation (sub d fp) = co_generation c" "co_current (sub d fp) = co_current c"
      "if accepts env rq d c then \<exists>t. co_running (sub d fp) = Some (t, operationDeadline (co_options c) now (rq_Deadline rq)) \<and> tx_Desired t = d
        \<and> tx_RequestID t = rq_RequestID rq else co_running (sub d fp) = co_running c" for d fp
    using submit_new_effect [where env = env and now = now and rq = rq and d = d and e = "freshEntry v (rq_RequestID rq) fp now"
        and c = "update_entry (rq_RequestID rq) (freshEntry v (rq_RequestID rq) fp now) v"]
    by (simp_all add: sub_def v cong: if_cong)
  have "c' env now now' rq = c \<or> c' env now now' rq = v \<or> (\<exists>d fp. rq_Desired rq = Some d \<and> \<not> co_closed c \<and> c' env now now' rq = sub d fp)"
    unfolding c'_def Submit_def Let_def v_def [symmetric] sub_def by (auto simp: v split: option.splits)
  then show ?thesis
  proof (elim disjE exE conjE)
    fix d fp assume s: "rq_Desired rq = Some d" "\<not> co_closed c" "c' env now now' rq = sub d fp"
    then show ?thesis
      using sub [of d fp] idle by (cases "accepts env rq d c") (auto simp: accepts_def)
  qed (simp_all add: v)
qed

lemma setProgress_fields [simp]:
  "co_generation (setProgress k st c) = co_generation c" "co_current (setProgress k st c) = co_current c"
  "co_running (setProgress k st c) = co_running c" "co_active (setProgress k st c) = co_active c"
  by (auto simp: setProgress_def split: option.splits)

lemma Close_fields [simp]:
  "co_generation (Close_begin c) = co_generation c" "co_current (Close_begin c) = co_current c" "co_running (Close_begin c) = co_running c"
  "co_entries (Close_begin c) = co_entries c" "co_entries (Close_end c) = co_entries c"
  "co_generation (Close_end c) = co_generation c" "co_current (Close_end c) = co_current c" "co_running (Close_end c) = co_running c"
  by (auto simp: Close_begin_def Close_end_def split: option.splits)

lemma execute_end_register:
  assumes "co_ok c" "co_running c = Some (t, dl)"
  shows "register_of (execute_end env now cancelled ap c) =
      (if executor_committed ap then (co_generation c + 1, tx_Desired t, None) else (co_generation c, co_current c, None))"
proof -
  have "tx_NextGeneration t = co_generation c + 1"
    using assms by (simp add: co_inv_def running_ok_def)
  then show ?thesis
    by (rule_tac execute_end_running [OF assms, of env now cancelled ap])
      (simp add: register_of_def end_state_def normalize_apply_committed)
qed

section \<open>Results that are final\<close>

lemma evictLocked_completed:
  assumes "gomap_ok (co_entries c)" "map_of (co_entries (evictLocked env now c)) k = Some e'"
  shows "map_of (co_entries c) k = Some e'" "k \<notin> evicted_keys env now c"
  using assms by (auto simp: evictLocked_lookup split: if_splits)

lemma finishLocked_other:
  assumes "gomap_ok (co_entries c)" "map_of (co_entries (snd (finishLocked env k0 e0 r now c))) k = Some e" "k \<noteq> k0"
  shows "map_of (co_entries c) k = Some e"
proof -
  let ?e = "e0\<lparr>en_state := re_State r, en_result := r\<lparr>re_CompletedAt := Some now\<rparr>, en_completedAt := Some now\<rparr>"
  let ?c = "(update_entry k0 ?e c)\<lparr>co_last := Some (r\<lparr>re_CompletedAt := Some now\<rparr>)\<rparr>"
  have "gomap_ok (co_entries ?c)" "map_of (co_entries (evictLocked env now ?c)) k = Some e"
    using assms(1,2) by (simp_all add: finishLocked_def Let_def)
  from evictLocked_completed(1) [OF this] show ?thesis
    using assms(3) by (simp add: gomap_lookup_update)
qed

lemma submit_new_other:
  assumes "gomap_ok (co_entries c)" "map_of (co_entries (snd (submit_new env now rq d e0 c))) k = Some e" "k \<noteq> rq_RequestID rq"
  shows "map_of (co_entries c) k = Some e"
  using assms(2,3) finishLocked_other [OF assms(1) _ assms(3)]
  by (auto simp: submit_new_def rejected_def finishRejectedLocked_def Let_def gomap_lookup_update split: if_splits)

lemma Submit_other:
  assumes inv: "co_ok c" "map_orders env" and e: "map_of (co_entries c) k = Some e" "en_completedAt e \<noteq> None"
    and e': "map_of (co_entries (snd (Submit env now now' rq c))) k = Some e'"
  shows "e' = e \<or> rq_RequestID rq = k \<and> k \<in> evicted_keys env now c"
proof (rule ccontr)
  assume "\<not> ?thesis"
  then have ne: "e' \<noteq> e" and k: "rq_RequestID rq = k \<longrightarrow> k \<notin> evicted_keys env now c"
    by auto
  define v where "v = evictLocked env now c"
  have ok: "gomap_ok (co_entries c)" "gomap_ok (co_entries v)"
    using inv evictLocked_ok [OF inv(2,1), of now] by (simp_all add: co_inv_def v_def)
  have v: "map_of (co_entries v) k \<noteq> Some e'"
    using evictLocked_completed(1) [OF ok(1), of env now k e'] e(1) ne by (auto simp: v_def)
  have here: "map_of (co_entries v) k = Some e" if "rq_RequestID rq = k"
    using k that e(1) by (simp add: v_def evictLocked_lookup [OF ok(1)])
  have sub: "map_of (co_entries (snd (submit_new env now rq d e0 (update_entry (rq_RequestID rq) e0 v)))) k \<noteq> Some e'" if "k \<noteq> rq_RequestID rq" for d e0
    using submit_new_other [of "update_entry (rq_RequestID rq) e0 v" env now rq d e0 k e'] that ok(2) v by (auto simp: gomap_lookup_update)
  show False
    using e' e(1) ne v here sub unfolding Submit_def Let_def v_def [symmetric]
    by (cases "rq_RequestID rq = k") (auto split: if_splits option.splits)
qed

lemma setProgress_completed: "map_of (co_entries c) k = Some e \<Longrightarrow> en_completedAt e \<noteq> None \<Longrightarrow> map_of (co_entries (setProgress j st c)) k = Some e"
  by (auto simp: setProgress_def gomap_lookup_update split: option.splits)

lemma execute_end_completed:
  assumes "co_ok c" and e: "map_of (co_entries c) k = Some e" "en_completedAt e \<noteq> None"
    and e': "map_of (co_entries (execute_end env now cancelled ap c)) k = Some e'"
  shows "e' = e"
proof (cases "co_running c")
  case None
  then show ?thesis using e e' by (simp add: execute_end_def)
next
  case (Some r)
  obtain t dl where run: "co_running c = Some (t, dl)"
    using Some by (cases r) auto
  have ok: "gomap_ok (co_entries c)"
    using assms(1) by (simp add: co_inv_def)
  show ?thesis
  proof (rule execute_end_running [OF assms(1) run, of env now cancelled ap])
    fix a assume "map_of (co_entries c) (co_active c) = Some a" "en_completedAt a = None"
      and out: "execute_end env now cancelled ap c =
       evictLocked env now ((update_entry (co_active c) (a\<lparr>en_state := re_State (end_result cancelled ap a t c),
           en_result := (end_result cancelled ap a t c)\<lparr>re_CompletedAt := Some now\<rparr>, en_completedAt := Some now\<rparr>) (end_state cancelled ap a t c))
         \<lparr>co_last := Some ((end_result cancelled ap a t c)\<lparr>re_CompletedAt := Some now\<rparr>), co_active := [], co_running := None\<rparr>)"
    then have "k \<noteq> co_active c"
      using e by auto
    then show "e' = e"
      using e(1) e' ok unfolding out by (auto dest!: evictLocked_completed(1) [rotated] simp: gomap_lookup_update)
  qed
qed

lemma length_entries:
  assumes "co_ok c"
  shows "length (co_entries c) \<le> cache_limit c + 1"
proof -
  let ?inc = "filter (\<lambda>ke. \<not> completed ke) (co_entries c)"
  have "distinct (map fst ?inc)" "set (map fst ?inc) \<subseteq> {co_active c}"
    using assms by (auto simp: co_inv_def gomap_ok_def distinct_map_filter)
  then have "length ?inc \<le> 1"
    by (metis card_mono card.empty card.insert distinct_card empty_iff finite.intros(1,2) length_map One_nat_def)
  moreover have "length (co_entries c) = length (filter completed (co_entries c)) + length ?inc"
    by (rule sum_length_filter_compl [symmetric])
  moreover have "length (filter completed (co_entries c)) \<le> cache_limit c"
    using assms by (simp add: co_inv_def)
  ultimately show ?thesis by simp
qed

section \<open>Properties\<close>

text \<open>C10. In every reachable state at most one transaction runs, and exactly when a request is active; the running
  transaction is based on the current generation and configuration; every other request that is remembered has a final
  state and a completion time; and no more than the configured number of finished requests are kept beside it.\<close>

theorem coordinator_safe:
  assumes "co_reach env c" "map_orders env"
  shows "(co_active c = [] \<longleftrightarrow> co_running c = None)
    \<and> (\<forall>t dl. co_running c = Some (t, dl) \<longrightarrow> tx_RequestID t = co_active c \<and> tx_BaseGeneration t = co_generation c
         \<and> tx_NextGeneration t = co_generation c + 1 \<and> tx_Current t = co_current c)
    \<and> (\<forall>(k, e) \<in> set (co_entries c). k \<noteq> co_active c \<longrightarrow> finalState (re_State (en_result e)) \<and> re_CompletedAt (en_result e) \<noteq> None)
    \<and> length (co_entries c) \<le> cache_limit c + 1"
proof -
  have inv: "co_ok c"
    by (rule co_reach_ok [OF assms])
  have "finalState (re_State (en_result e)) \<and> re_CompletedAt (en_result e) \<noteq> None"
    if ke: "(k, e) \<in> set (co_entries c)" "k \<noteq> co_active c" for k e
  proof -
    have "entry_ok c (k, e)" "en_completedAt e \<noteq> None"
      using inv ke by (auto simp: co_inv_def)
    then show ?thesis by (auto simp: entry_ok_def)
  qed
  moreover have "(co_active c = [] \<longleftrightarrow> co_running c = None)
    \<and> (\<forall>t dl. co_running c = Some (t, dl) \<longrightarrow> tx_RequestID t = co_active c \<and> tx_BaseGeneration t = co_generation c
         \<and> tx_NextGeneration t = co_generation c + 1 \<and> tx_Current t = co_current c)"
    using inv by (auto simp: co_inv_def running_ok_def split: option.splits)
  ultimately show ?thesis
    using length_entries [OF inv] by blast
qed

text \<open>C5. The coordinator implements a compare-and-set register: every step of it, in every reachable state, is a step of the
  register or leaves it alone.  A configuration is accepted only for the generation and epoch the request names, while
  no other is pending and the difference to the current one needs no restart; it is stored, under the next generation,
  exactly when the executor reports that it committed, and dropped otherwise.\<close>

theorem coordinator_refines_register:
  assumes "co_reach env c" "map_orders env"
  shows "cas_step (label_of env ev c) (register_of c) (register_of (co_step env ev c))
    \<and> (\<forall>now now' rq g w. ev = SubmitEvent now now' rq \<and> label_of env ev c = AcceptFor g w \<longrightarrow> rq_Desired rq = Some w \<and> accepts env rq w c)"
proof -
  have inv: "co_ok c"
    by (rule co_reach_ok [OF assms])
  show ?thesis
  proof (cases ev)
    case (SubmitEvent now now' rq)
    then show ?thesis
      using Submit_effect [OF inv, of env now now' rq] by (auto simp: register_of_def accepts_def)
  next
    case (ProgressEvent st)
    then show ?thesis by (auto simp: register_of_def SetState_def split: option.splits)
  next
    case (EndEvent now cancelled ap)
    show ?thesis
    proof (cases "co_running c")
      case None
      with EndEvent show ?thesis by (simp add: execute_end_def register_of_def)
    next
      case (Some r)
      obtain t dl where run: "co_running c = Some (t, dl)"
        using Some by (cases r) auto
      show ?thesis
        using EndEvent run execute_end_register [OF inv run, of env now cancelled ap] by (simp add: register_of_def)
    qed
  qed (auto simp: register_of_def Coordinator_Status_def TransactionStatus_def Let_def)
qed


text \<open>C40. A finished result is never altered: in every later state the entry of the request is the same or gone, unless a
  submission finds it evicted and uses the identifier anew.\<close>

theorem finished_result_stable:
  assumes reach: "co_reach env c" "map_orders env" and e: "map_of (co_entries c) k = Some e" "en_completedAt e \<noteq> None"
    and e': "map_of (co_entries (co_step env ev c)) k = Some e'"
  shows "e' = e \<or> (\<exists>now now' rq. ev = SubmitEvent now now' rq \<and> rq_RequestID rq = k \<and> k \<in> evicted_keys env now c)"
proof -
  have inv: "co_ok c"
    by (rule co_reach_ok [OF reach])
  then have ok: "gomap_ok (co_entries c)"
    by (simp add: co_inv_def)
  have ev: "e' = e" if "map_of (co_entries (evictLocked env now c)) k = Some e'" for now
    using evictLocked_completed(1) [OF ok that] e(1) by simp
  show ?thesis
  proof (cases ev)
    case (SubmitEvent now now' rq)
    then show ?thesis using Submit_other [OF inv reach(2) e, of now now' rq e'] e' by auto
  next
    case (ProgressEvent st)
    then show ?thesis
      using e' e setProgress_completed [OF e] by (auto simp: SetState_def split: option.splits)
  next
    case (EndEvent now cancelled ap)
    then show ?thesis using execute_end_completed [OF inv e] e' by auto
  qed (use e e' ev in \<open>auto simp: Coordinator_Status_def TransactionStatus_def Let_def\<close>)
qed

section \<open>An example run\<close>

definition sample_env :: coordinator_env where
  "sample_env = \<lparr>ce_text = quad_text, ce_Marshal = (\<lambda>(ep, g, cfg). Some (map (\<lambda>p. of_nat (length (pe_AllowedIPs p))) (cf_Peers cfg))),
     ce_hmac = (\<lambda>k m. k @ m), ce_owners = rev, ce_entries = rev\<rparr>"

definition sample_options :: Options where
  "sample_options = \<lparr>op_Epoch = ''e1'', op_FingerprintKey = replicate 16 7, op_CacheEntries = 0, op_CacheTTL = 0, op_MinOperationTimeout = 0, op_MaxOperationTimeout = 0\<rparr>"

definition sample_initial :: Desired where
  "sample_initial = \<lparr>de_config = \<lparr>cf_Interface = zeroInterface, cf_Peers = [], cf_Transport = DefaultTransport\<rparr>, de_peerKeyBytes = [], de_nonSecretDigest = ''d0''\<rparr>"

definition sample_next :: Desired where
  "sample_next = \<lparr>de_config = \<lparr>cf_Interface = zeroInterface, cf_Peers = [zeroPeer\<lparr>pe_PublicKey := ''p1''\<rparr>], cf_Transport = DefaultTransport\<rparr>,
     de_peerKeyBytes = [(''p1'', [1])], de_nonSecretDigest = ''d1''\<rparr>"

definition sample_coordinator :: Coordinator where
  "sample_coordinator = projr (NewCoordinator (Some sample_initial) True sample_options None None)"

definition sample_request :: Request where
  "sample_request = \<lparr>rq_ExpectedEpoch = ''e1'', rq_ExpectedGeneration = 1, rq_RequestID = ''r1'', rq_Deadline = None, rq_Desired = Some sample_next\<rparr>"

abbreviation "sample_submit \<equiv> SubmitEvent 0 0 sample_request"

definition sample_running :: Coordinator where
  "sample_running = co_step sample_env sample_submit sample_coordinator"

definition sample_finished :: Coordinator where
  "sample_finished = co_step sample_env (EndEvent 5 None \<lparr>ap_State = StateCommitted, ap_CleanupPending = False, ap_Failure = None\<rparr>) sample_running"

definition sample_entry :: requestEntry where
  "sample_entry = the (map_of (co_entries sample_finished) ''r1'')"

lemma sample_orders: "map_orders sample_env"
  by (simp add: map_orders_def sample_env_def)

lemma sample_coordinator_reach: "co_reach sample_env sample_coordinator" "co_reach sample_env sample_running" "co_reach sample_env sample_finished"
proof -
  have "\<not> isl (NewCoordinator (Some sample_initial) True sample_options None None)"
    by code_simp
  then have "NewCoordinator (Some sample_initial) True sample_options None None = Inr sample_coordinator"
    by (simp add: sample_coordinator_def)
  then show r: "co_reach sample_env sample_coordinator"
    by (rule co_reach.start)
  show r2: "co_reach sample_env sample_running"
    unfolding sample_running_def by (rule co_reach.step [OF r])
  show "co_reach sample_env sample_finished"
    unfolding sample_finished_def by (rule co_reach.step [OF r2])
qed

lemma sample_entry_facts:
  "map_of (co_entries sample_finished) ''r1'' = Some sample_entry" "en_completedAt sample_entry = Some 5" "\<not> expired_at 60 sample_finished (''r1'', sample_entry)"
  "requestFingerprint sample_env sample_finished sample_request sample_next = Some (en_fingerprint sample_entry)"
  by code_simp+

theorem coordinator_safe_witness: "co_running sample_running \<noteq> None \<and> co_active sample_running \<noteq> []"
proof -
  have "co_running sample_running \<noteq> None"
    by code_simp
  then show ?thesis using conjunct1 [OF coordinator_safe [OF sample_coordinator_reach(2) sample_orders]] by simp
qed

theorem coordinator_refines_register_witness:
  "cas_step (AcceptFor 1 sample_next) (register_of sample_coordinator) (register_of sample_running)"
proof -
  have "label_of sample_env sample_submit sample_coordinator = AcceptFor 1 sample_next"
    by code_simp
  then show ?thesis
    using coordinator_refines_register [OF sample_coordinator_reach(1) sample_orders, of sample_submit] by (simp only: sample_running_def)
qed


theorem finished_result_stable_witness:
  "map_of (co_entries (co_step sample_env (StatusEvent 60) sample_finished)) ''r1'' = Some sample_entry"
proof -
  have "map_of (co_entries (co_step sample_env (StatusEvent 60) sample_finished)) ''r1'' \<noteq> None"
    by code_simp
  then obtain e' where e': "map_of (co_entries (co_step sample_env (StatusEvent 60) sample_finished)) ''r1'' = Some e'"
    by blast
  then show ?thesis
    using finished_result_stable [OF sample_coordinator_reach(3) sample_orders sample_entry_facts(1) _ e'] sample_entry_facts(2) by auto
qed

end
