(* ===== verification/Event_Log.thy ===== *)
theory Event_Log
  imports Go_Prelude
begin

text \<open>
  The session event log of \<open>internal/bind/event_log.go\<close>: a ring of 4096 events that a client reads with a
  cursor.  The metrics an event carries before and after a change are opaque to the log, a type
  variable.  \<open>sort.Search\<close> is Go's binary search.  The log is shown to be a window on the whole
  history of recorded events, and a client that follows the cursor reads that window once and in order.
\<close>

definition maxSessionEvents :: nat where
  "maxSessionEvents = 4096"

definition maxSessionEventQuery :: int where
  "maxSessionEventQuery = 1024"

definition SessionEventTelemetryVersion :: int where
  "SessionEventTelemetryVersion = 1"

record 'm SessionEvent =
  ev_TelemetryVersion :: int
  ev_EventStreamID :: string
  ev_EventSequence :: u64
  ev_SessionID :: u64
  ev_SessionGeneration :: u64
  ev_EventType :: string
  ev_Reason :: string
  ev_MonotonicElapsedNS :: int
  ev_WallTime :: "instant option"
  ev_Before :: "'m option"
  ev_After :: "'m option"

record 'm SessionEventBatch =
  eb_TelemetryVersion :: int
  eb_EventStreamID :: string
  eb_SampledAt :: instant
  eb_MonotonicElapsedNS :: int
  eb_FirstAvailableSequence :: u64
  eb_LastSequence :: u64
  eb_EventsDroppedTotal :: u64
  eb_Events :: "'m SessionEvent list"

record 'm sessionEventLog =
  el_origin :: instant
  el_streamID :: string
  el_sequence :: u64
  el_dropped :: u64
  el_entries :: "'m SessionEvent list"
  el_first :: nat

datatype event_error = EventStreamChanged string string

text \<open>A new log; the random stream identifier and the clock are arguments.\<close>

definition newSessionEventLog :: "instant \<Rightarrow> string \<Rightarrow> 'm sessionEventLog" where
  "newSessionEventLog now streamID =
     \<lparr>el_origin = now, el_streamID = streamID, el_sequence = 0, el_dropped = 0, el_entries = [], el_first = 0\<rparr>"

definition stamp :: "instant \<Rightarrow> 'm sessionEventLog \<Rightarrow> 'm SessionEvent \<Rightarrow> 'm SessionEvent" where
  "stamp now h event =
     (let wall = (case ev_WallTime event of None \<Rightarrow> now | Some w \<Rightarrow> w)
      in event\<lparr>ev_WallTime := Some wall, ev_TelemetryVersion := SessionEventTelemetryVersion,
               ev_EventStreamID := el_streamID h, ev_EventSequence := el_sequence h + 1,
               ev_MonotonicElapsedNS := max 0 (wall - el_origin h)\<rparr>)"

definition append_event :: "instant \<Rightarrow> 'm SessionEvent \<Rightarrow> 'm sessionEventLog \<Rightarrow> 'm sessionEventLog" where
  "append_event now event h =
     (let event = stamp now h event; h = h\<lparr>el_sequence := el_sequence h + 1\<rparr>
      in if length (el_entries h) < maxSessionEvents
         then h\<lparr>el_entries := el_entries h @ [event]\<rparr>
         else h\<lparr>el_entries := (el_entries h)[el_first h := event],
                el_first := (el_first h + 1) mod length (el_entries h),
                el_dropped := el_dropped h + 1\<rparr>)"

definition recordSessionEventAt ::
  "instant \<Rightarrow> u64 \<Rightarrow> u64 \<Rightarrow> string \<Rightarrow> string \<Rightarrow> instant option \<Rightarrow> 'm option \<Rightarrow> 'm option \<Rightarrow> 'm sessionEventLog \<Rightarrow> 'm sessionEventLog" where
  "recordSessionEventAt now sid generation kind reason wall metrics_before metrics_after h =
     append_event now
       \<lparr>ev_TelemetryVersion = 0, ev_EventStreamID = [], ev_EventSequence = 0, ev_SessionID = sid,
        ev_SessionGeneration = generation, ev_EventType = kind, ev_Reason = reason, ev_MonotonicElapsedNS = 0,
        ev_WallTime = wall, ev_Before = metrics_before, ev_After = metrics_after\<rparr> h"

text \<open>\<open>sort.Search(n, f)\<close>: the loop keeps \<open>f(i-1) = false\<close> and \<open>f(j) = true\<close>.\<close>

function search_loop :: "(nat \<Rightarrow> bool) \<Rightarrow> nat \<Rightarrow> nat \<Rightarrow> nat" where
  "search_loop f i j =
     (if i < j then let h = (i + j) div 2 in if \<not> f h then search_loop f (h + 1) j else search_loop f i h
      else i)"
  by auto
termination
  by (relation "measure (\<lambda>(f, i, j). j - i)") (auto simp: Let_def)

declare search_loop.simps [simp del]

definition sort_Search :: "nat \<Rightarrow> (nat \<Rightarrow> bool) \<Rightarrow> nat" where
  "sort_Search n f = search_loop f 0 n"

definition event_at :: "'m sessionEventLog \<Rightarrow> nat \<Rightarrow> 'm SessionEvent" where
  "event_at h i = el_entries h ! ((el_first h + i) mod length (el_entries h))"

definition query_limit :: "int \<Rightarrow> nat" where
  "query_limit limit = nat (min (if limit \<le> 0 then 256 else limit) maxSessionEventQuery)"

definition page :: "instant \<Rightarrow> string \<Rightarrow> u64 \<Rightarrow> int \<Rightarrow> 'm sessionEventLog \<Rightarrow> event_error + 'm SessionEventBatch" where
  "page now streamID after limit h =
     (if streamID \<noteq> [] \<and> streamID \<noteq> el_streamID h then Inl (EventStreamChanged streamID (el_streamID h))
      else let batch = \<lparr>eb_TelemetryVersion = SessionEventTelemetryVersion, eb_EventStreamID = el_streamID h,
                        eb_SampledAt = now, eb_MonotonicElapsedNS = max 0 (now - el_origin h),
                        eb_FirstAvailableSequence = 0, eb_LastSequence = min after (el_sequence h),
                        eb_EventsDroppedTotal = el_dropped h, eb_Events = []\<rparr>;
               n = length (el_entries h)
           in if n = 0 then Inr batch
              else let batch = batch\<lparr>eb_FirstAvailableSequence := ev_EventSequence (event_at h 0)\<rparr>;
                       first = sort_Search n (\<lambda>i. ev_EventSequence (event_at h i) > after);
                       last = min n (first + query_limit limit)
                   in if last > first
                      then let events = map (\<lambda>i. event_at h (first + i)) [0..<last - first]
                           in Inr (batch\<lparr>eb_Events := events, eb_LastSequence := ev_EventSequence (List.last events)\<rparr>)
                      else Inr batch)"

definition SessionEvents :: "instant \<Rightarrow> string \<Rightarrow> u64 \<Rightarrow> int \<Rightarrow> 'm sessionEventLog \<Rightarrow> event_error + 'm SessionEventBatch" where
  "SessionEvents now streamID after limit h = page now streamID after limit h"

section \<open>Binary search\<close>

lemma search_loop_correct:
  assumes "i \<le> j" "\<And>a b. a \<le> b \<Longrightarrow> b < j \<Longrightarrow> f a \<Longrightarrow> f b"
  shows "i \<le> search_loop f i j \<and> search_loop f i j \<le> j \<and> (\<forall>k. i \<le> k \<and> k < search_loop f i j \<longrightarrow> \<not> f k)
    \<and> (\<forall>k. search_loop f i j \<le> k \<and> k < j \<longrightarrow> f k)"
  using assms
proof (induction f i j rule: search_loop.induct)
  case (1 f i j)
  define h where "h = (i + j) div 2"
  show ?case
  proof (cases "i < j")
    case False
    with 1(3) have "search_loop f i j = i" "i = j" by (auto simp: search_loop.simps)
    then show ?thesis by auto
  next
    case True
    then have h: "i \<le> h" "h < j" by (auto simp: h_def)
    show ?thesis
    proof (cases "f h")
      case True
      have s: "search_loop f i j = search_loop f i h"
        using \<open>i < j\<close> True by (simp add: search_loop.simps [of f i j] h_def Let_def)
      have up: "f k" if "h \<le> k" "k < j" for k using 1(4) [of h k] True that by blast
      have "i \<le> search_loop f i h \<and> search_loop f i h \<le> h \<and> (\<forall>k. i \<le> k \<and> k < search_loop f i h \<longrightarrow> \<not> f k)
        \<and> (\<forall>k. search_loop f i h \<le> k \<and> k < h \<longrightarrow> f k)"
        using True h 1(4) by (intro 1(2) [OF \<open>i < j\<close> h_def]) auto
      then show ?thesis using h up s by (metis less_imp_le_nat linorder_not_le order_trans)
    next
      case False
      have s: "search_loop f i j = search_loop f (h + 1) j"
        using \<open>i < j\<close> False by (simp add: search_loop.simps [of f i j] h_def Let_def)
      have down: "\<not> f k" if "k \<le> h" for k using 1(4) [of k h] False that h by blast
      have "h + 1 \<le> search_loop f (h + 1) j \<and> search_loop f (h + 1) j \<le> j
        \<and> (\<forall>k. h + 1 \<le> k \<and> k < search_loop f (h + 1) j \<longrightarrow> \<not> f k) \<and> (\<forall>k. search_loop f (h + 1) j \<le> k \<and> k < j \<longrightarrow> f k)"
        using False h 1(4) by (intro 1(1) [OF \<open>i < j\<close> h_def]) auto
      then show ?thesis using h down s by (metis Suc_eq_plus1 le_trans not_less_eq_eq nle_le)
    qed
  qed
qed

lemma filter_sorted_suffix:
  assumes "m \<le> length xs" "\<And>k. k < m \<Longrightarrow> \<not> P (xs ! k)" "\<And>k. m \<le> k \<Longrightarrow> k < length xs \<Longrightarrow> P (xs ! k)"
  shows "filter P xs = drop m xs"
proof -
  have "filter P (take m xs) = []" using assms by (auto simp: filter_empty_conv in_set_conv_nth)
  moreover have "filter P (drop m xs) = drop m xs"
    using assms by (auto simp: filter_id_conv in_set_conv_nth)
  moreover have "filter P xs = filter P (take m xs) @ filter P (drop m xs)"
    by (metis append_take_drop_id filter_append)
  ultimately show ?thesis by simp
qed

lemma sort_Search_filter:
  assumes mono: "\<And>a b. a \<le> b \<Longrightarrow> b < length xs \<Longrightarrow> P (xs ! a) \<Longrightarrow> P (xs ! b)"
  shows "drop (sort_Search (length xs) (\<lambda>i. P (xs ! i))) xs = filter P xs"
    "sort_Search (length xs) (\<lambda>i. P (xs ! i)) \<le> length xs"
proof -
  define m where "m = sort_Search (length xs) (\<lambda>i. P (xs ! i))"
  have s: "0 \<le> m \<and> m \<le> length xs \<and> (\<forall>k. 0 \<le> k \<and> k < m \<longrightarrow> \<not> P (xs ! k)) \<and> (\<forall>k. m \<le> k \<and> k < length xs \<longrightarrow> P (xs ! k))"
    unfolding m_def sort_Search_def by (rule search_loop_correct, simp, rule mono)
  then show "sort_Search (length xs) (\<lambda>i. P (xs ! i)) \<le> length xs" unfolding m_def [symmetric] by (elim conjE)
  have "filter P xs = drop m xs" by (rule filter_sorted_suffix) (use s in simp_all)
  then show "drop (sort_Search (length xs) (\<lambda>i. P (xs ! i))) xs = filter P xs" unfolding m_def [symmetric] by (rule sym)
qed

section \<open>The ring is a window on the history\<close>

definition chronological :: "'m sessionEventLog \<Rightarrow> 'm SessionEvent list" where
  "chronological h = map (event_at h) [0..<length (el_entries h)]"

definition run_log :: "(instant \<times> 'm SessionEvent) list \<Rightarrow> 'm sessionEventLog \<Rightarrow> 'm sessionEventLog" where
  "run_log evs h = fold (\<lambda>(now, e). append_event now e) evs h"

text \<open>All the events ever recorded, the \<open>i\<close>-th stamped with sequence number \<open>i + 1\<close>.\<close>

definition history :: "instant \<Rightarrow> string \<Rightarrow> (instant \<times> 'm SessionEvent) list \<Rightarrow> 'm SessionEvent list" where
  "history t0 sid evs =
     map (\<lambda>(i, now, e). stamp now ((newSessionEventLog t0 sid)\<lparr>el_sequence := of_nat i\<rparr>) e) (enumerate 0 evs)"

lemma length_history [simp]: "length (history t0 sid evs) = length evs"
  by (simp add: history_def)

lemma history_snoc:
  "history t0 sid (evs @ [(now, e)]) =
     history t0 sid evs @ [stamp now ((newSessionEventLog t0 sid)\<lparr>el_sequence := of_nat (length evs)\<rparr>) e]"
  by (simp add: history_def enumerate_append_eq)

lemma history_sequence: "i < length evs \<Longrightarrow> ev_EventSequence (history t0 sid evs ! i) = of_nat (Suc i)"
  by (simp add: history_def nth_enumerate_eq stamp_def Let_def split: prod.split)

lemma stamp_cong:
  "el_origin h = el_origin h' \<Longrightarrow> el_streamID h = el_streamID h' \<Longrightarrow> el_sequence h = el_sequence h' \<Longrightarrow> stamp now h e = stamp now h' e"
  by (simp add: stamp_def)

lemma ring_update:
  assumes "f < length xs"
  shows "map (\<lambda>i. xs[f := x] ! ((Suc f mod length xs + i) mod length xs)) [0..<length xs]
    = tl (map (\<lambda>i. xs ! ((f + i) mod length xs)) [0..<length xs]) @ [x]"
proof (rule nth_equalityI)
  show "length (map (\<lambda>i. xs[f := x] ! ((Suc f mod length xs + i) mod length xs)) [0..<length xs])
    = length (tl (map (\<lambda>i. xs ! ((f + i) mod length xs)) [0..<length xs]) @ [x])" using assms by simp
next
  fix i assume "i < length (map (\<lambda>i. xs[f := x] ! ((Suc f mod length xs + i) mod length xs)) [0..<length xs])"
  then have i: "i < length xs" by simp
  have m: "(Suc f mod length xs + i) mod length xs = (f + Suc i) mod length xs"
    by (metis add_Suc_right add_Suc mod_add_left_eq)
  show "map (\<lambda>i. xs[f := x] ! ((Suc f mod length xs + i) mod length xs)) [0..<length xs] ! i
    = (tl (map (\<lambda>i. xs ! ((f + i) mod length xs)) [0..<length xs]) @ [x]) ! i"
  proof (cases "Suc i = length xs")
    case True
    then have "(f + Suc i) mod length xs = f" using assms by simp
    moreover have "\<not> i < length xs - Suc 0" using True by simp
    ultimately show ?thesis using i m True assms by (simp add: nth_append)
  next
    case False
    then have si: "Suc i < length xs" using i by simp
    have "(f + Suc i) mod length xs \<noteq> f"
    proof (cases "f + Suc i < length xs")
      case False
      then have "(f + Suc i) mod length xs = f + Suc i - length xs" using si assms by (simp add: mod_if)
      then show ?thesis using si False by simp
    qed simp
    moreover have "i < length xs - Suc 0" using si by simp
    ultimately show ?thesis using i m False by (simp add: nth_append nth_tl)
  qed
qed

lemma ring_start: "el_first h = 0 \<Longrightarrow> chronological h = el_entries h"
  by (rule nth_equalityI) (simp_all add: chronological_def event_at_def)

definition log_ok :: "instant \<Rightarrow> string \<Rightarrow> 'm SessionEvent list \<Rightarrow> 'm sessionEventLog \<Rightarrow> bool" where
  "log_ok t0 sid hist h \<longleftrightarrow>
     el_origin h = t0 \<and> el_streamID h = sid \<and> el_sequence h = of_nat (length hist)
     \<and> el_dropped h = of_nat (length hist - maxSessionEvents)
     \<and> length (el_entries h) = min (length hist) maxSessionEvents
     \<and> (if length hist \<le> maxSessionEvents then el_first h = 0 else el_first h < maxSessionEvents)
     \<and> chronological h = drop (length hist - maxSessionEvents) hist"

lemma append_event_ok:
  assumes "log_ok t0 sid hist h"
  shows "log_ok t0 sid (hist @ [stamp now h e]) (append_event now e h)"
proof (cases "length hist < maxSessionEvents")
  case True
  with assms have "el_first h = 0" "chronological h = hist" by (auto simp: log_ok_def)
  then have e: "el_entries h = hist" by (simp add: ring_start)
  define h' where "h' = append_event now e h"
  have h': "el_entries h' = hist @ [stamp now h e]" "el_first h' = 0"
    "el_origin h' = el_origin h" "el_streamID h' = el_streamID h" "el_sequence h' = el_sequence h + 1" "el_dropped h' = el_dropped h"
    using True e \<open>el_first h = 0\<close> by (simp_all add: h'_def append_event_def Let_def)
  then show ?thesis unfolding h'_def [symmetric] using assms True
    by (simp add: log_ok_def ring_start Suc_le_eq)
next
  case False
  have n: "length (el_entries h) = maxSessionEvents" and first: "el_first h < maxSessionEvents"
    and c: "chronological h = drop (length hist - maxSessionEvents) hist"
    using assms False by (auto simp: log_ok_def maxSessionEvents_def split: if_splits)
  define h' where "h' = append_event now e h"
  have h': "el_entries h' = (el_entries h)[el_first h := stamp now h e]" "el_first h' = Suc (el_first h) mod length (el_entries h)"
    "el_origin h' = el_origin h" "el_streamID h' = el_streamID h" "el_sequence h' = el_sequence h + 1" "el_dropped h' = el_dropped h + 1"
    using n by (simp_all add: h'_def append_event_def Let_def)
  have "chronological h' = tl (chronological h) @ [stamp now h e]"
    using ring_update [of "el_first h" "el_entries h" "stamp now h e"] first n
    by (simp add: chronological_def event_at_def [abs_def] h')
  also have "tl (chronological h) = drop (Suc (length hist - maxSessionEvents)) hist" by (simp add: c drop_Suc tl_drop)
  also have "\<dots> @ [stamp now h e] = drop (length (hist @ [stamp now h e]) - maxSessionEvents) (hist @ [stamp now h e])"
  proof -
    have "Suc (length hist - maxSessionEvents) = length (hist @ [stamp now h e]) - maxSessionEvents" "0 < maxSessionEvents"
      using False by (simp_all add: Suc_diff_le maxSessionEvents_def)
    moreover have "length (hist @ [stamp now h e]) - maxSessionEvents \<le> length hist" using \<open>0 < maxSessionEvents\<close> by simp
    ultimately show ?thesis by (simp only: drop_append) simp
  qed
  finally have "chronological h' = drop (length (hist @ [stamp now h e]) - maxSessionEvents) (hist @ [stamp now h e])" .
  moreover have "el_first h' < maxSessionEvents" using n by (simp add: h' maxSessionEvents_def)
  ultimately show ?thesis unfolding h'_def [symmetric] using assms False n
    by (simp add: log_ok_def h' Suc_diff_le)
qed

lemma run_log_ok: "log_ok t0 sid (history t0 sid evs) (run_log evs (newSessionEventLog t0 sid))"
proof (induction evs rule: rev_induct)
  case Nil
  then show ?case by (simp add: log_ok_def history_def run_log_def newSessionEventLog_def chronological_def maxSessionEvents_def)
next
  case (snoc p evs)
  obtain now e where p: "p = (now, e)" by force
  have "stamp now ((newSessionEventLog t0 sid)\<lparr>el_sequence := of_nat (length evs)\<rparr>) e = stamp now (run_log evs (newSessionEventLog t0 sid)) e"
    using snoc by (intro stamp_cong) (simp_all add: log_ok_def newSessionEventLog_def)
  then show ?case using append_event_ok [OF snoc, of now e] by (simp add: p history_snoc run_log_def)
qed

section \<open>Reading with a cursor\<close>

text \<open>What a page is of the whole history: the oldest \<open>query_limit limit\<close> events of the window that are newer than the cursor.\<close>

definition window :: "'m SessionEvent list \<Rightarrow> 'm SessionEvent list" where
  "window hist = drop (length hist - maxSessionEvents) hist"

definition selected :: "u64 \<Rightarrow> int \<Rightarrow> 'm SessionEvent list \<Rightarrow> 'm SessionEvent list" where
  "selected after limit hist = take (query_limit limit) (filter (\<lambda>e. after < ev_EventSequence e) (window hist))"

definition page_of :: "instant \<Rightarrow> instant \<Rightarrow> string \<Rightarrow> u64 \<Rightarrow> int \<Rightarrow> 'm SessionEvent list \<Rightarrow> 'm SessionEventBatch" where
  "page_of now t0 sid after limit hist =
     \<lparr>eb_TelemetryVersion = SessionEventTelemetryVersion, eb_EventStreamID = sid, eb_SampledAt = now,
      eb_MonotonicElapsedNS = max 0 (now - t0),
      eb_FirstAvailableSequence = (if hist = [] then 0 else ev_EventSequence (hd (window hist))),
      eb_LastSequence = (if selected after limit hist = [] then min after (of_nat (length hist))
                         else ev_EventSequence (last (selected after limit hist))),
      eb_EventsDroppedTotal = of_nat (length hist - maxSessionEvents), eb_Events = selected after limit hist\<rparr>"

lemma search_loop_cong: "(\<And>k. k < j \<Longrightarrow> f k = g k) \<Longrightarrow> search_loop f i j = search_loop g i j"
proof (induction f i j rule: search_loop.induct)
  case (1 f i j)
  define h where "h = (i + j) div 2"
  show ?case
  proof (cases "i < j")
    case True
    then have "h < j" by (simp add: h_def)
    then have "f h = g h" "h \<le> j" using 1(3) by simp_all
    then show ?thesis
      using 1(1) [OF True h_def] 1(2) [OF True h_def] 1(3)
      by (simp add: search_loop.simps [of f i j] search_loop.simps [of g i j] h_def [symmetric] Let_def)
  qed (simp add: search_loop.simps)
qed

lemma query_limit_pos: "0 < query_limit limit"
  by (simp add: query_limit_def maxSessionEventQuery_def)

definition sequenced :: "nat \<Rightarrow> 'm SessionEvent list \<Rightarrow> bool" where
  "sequenced b es \<longleftrightarrow> b + length es < 2 ^ 64 \<and> (\<forall>i<length es. ev_EventSequence (es ! i) = of_nat (Suc (b + i)))"

lemma sequenced_less:
  assumes "sequenced b es" "i < length es"
  shows "unat (ev_EventSequence (es ! i)) = Suc (b + i)"
proof -
  have "ev_EventSequence (es ! i) = of_nat (Suc (b + i))" "Suc (b + i) < 2 ^ 64"
    using assms unfolding sequenced_def by auto
  then show ?thesis by (simp only: unat_of_nat) simp
qed

lemma sequenced_window: "length evs < 2 ^ 64 \<Longrightarrow> sequenced (length evs - maxSessionEvents) (window (history t0 sid evs))"
  by (auto simp: sequenced_def window_def history_sequence)

lemma page_window:
  assumes ok: "log_ok t0 sid hist h" and seq: "sequenced (length hist - maxSessionEvents) (window hist)"
    and stream: "streamID = [] \<or> streamID = sid"
  shows "page now streamID after limit h = Inr (page_of now t0 sid after limit hist)"
proof -
  define n where "n = length (el_entries h)"
  define w where "w = window hist"
  define P where "P = (\<lambda>e :: 'a SessionEvent. after < ev_EventSequence e)"
  have h: "el_origin h = t0" "el_streamID h = sid" "el_sequence h = of_nat (length hist)"
    "el_dropped h = of_nat (length hist - maxSessionEvents)"
    using ok by (simp_all add: log_ok_def)
  have "chronological h = w" using ok by (simp add: log_ok_def w_def window_def)
  then have cw: "map (event_at h) [0..<n] = w" by (simp add: chronological_def n_def)
  then have wn: "length w = n" by (metis diff_zero length_map length_upt)
  have wi: "event_at h i = w ! i" if "i < n" for i
    using that by (simp add: cw [symmetric])
  define first where "first = sort_Search n (\<lambda>i. P (event_at h i))"
  have "first = sort_Search (length w) (\<lambda>i. P (w ! i))"
    unfolding first_def sort_Search_def wn by (rule search_loop_cong) (simp add: wi)
  moreover have "P (w ! b)" if "a \<le> b" "b < length w" "P (w ! a)" for a b
    using that sequenced_less [OF seq, of a] sequenced_less [OF seq, of b]
    by (auto simp: P_def word_less_nat_alt w_def)
  ultimately have fd: "drop first w = filter P w" and fl: "first \<le> n"
    using sort_Search_filter [of w P] wn by simp_all
  define sel where "sel = map (\<lambda>i. event_at h (first + i)) [0..<min n (first + query_limit limit) - first]"
  have "sel = take (query_limit limit) (drop first w)"
  proof (rule nth_equalityI)
    fix i assume "i < length sel"
    then have "i < query_limit limit" "first + i < n" by (auto simp: sel_def)
    then show "sel ! i = take (query_limit limit) (drop first w) ! i" using fl wn by (simp add: sel_def wi)
  qed (use fl wn in \<open>auto simp: sel_def min_def\<close>)
  then have sel: "sel = selected after limit hist" by (simp only: fd) (simp add: selected_def w_def P_def)
  have "n = min (length hist) 4096" using ok by (simp add: log_ok_def n_def maxSessionEvents_def)
  then have emp: "hist = [] \<longleftrightarrow> n = 0" by (auto simp: min_def split: if_splits)
  have hd: "n \<noteq> 0 \<Longrightarrow> event_at h 0 = hd w" using wi [of 0] wn by (cases w) auto
  have se: "sel = [] \<longleftrightarrow> \<not> first < min n (first + query_limit limit)" unfolding sel_def by auto
  have fa: "first = sort_Search n (\<lambda>i. after < ev_EventSequence (event_at h i))" by (simp add: first_def P_def)
  show ?thesis
    unfolding page_def Let_def h n_def [symmetric] fa [symmetric] sel_def [symmetric]
    using emp hd se sel wn stream by (auto simp: page_of_def w_def selected_def window_def)
qed

text \<open>A client that passes the \<open>LastSequence\<close> of each page as the cursor of the next.\<close>

fun follow :: "nat \<Rightarrow> instant \<Rightarrow> string \<Rightarrow> u64 \<Rightarrow> int \<Rightarrow> 'm sessionEventLog \<Rightarrow> 'm SessionEvent list" where
  "follow 0 now streamID after limit h = []"
| "follow (Suc k) now streamID after limit h =
     (case SessionEvents now streamID after limit h of
        Inl _ \<Rightarrow> []
      | Inr b \<Rightarrow> eb_Events b @ follow k now streamID (eb_LastSequence b) limit h)"

lemma filter_newer:
  assumes "sequenced b es"
  shows "filter (\<lambda>e. after < ev_EventSequence e) es = drop (unat after - b) es"
proof (cases "unat after - b \<le> length es")
  case True
  then show ?thesis
    using assms sequenced_less [OF assms] by (intro filter_sorted_suffix) (auto simp: word_less_nat_alt)
next
  case False
  then have "\<not> after < ev_EventSequence (es ! i)" if "i < length es" for i
    using that sequenced_less [OF assms that] by (simp add: word_less_nat_alt)
  then show ?thesis using False by (auto simp: filter_empty_conv in_set_conv_nth)
qed

lemma next_cursor:
  fixes hist :: "'m SessionEvent list"
  assumes "sequenced (length hist - maxSessionEvents) (window hist)" "length hist < 2 ^ 64"
  defines "newer \<equiv> \<lambda>after. filter (\<lambda>e. after < ev_EventSequence e) (window hist)"
  shows "newer (eb_LastSequence (page_of now t0 sid after limit hist)) = drop (query_limit limit) (newer after)"
proof -
  define b w l where "b = length hist - maxSessionEvents" and "w = window hist" and "l = query_limit limit"
  define c where "c = eb_LastSequence (page_of now t0 sid after limit hist)"
  have seq: "sequenced b w" using assms by (simp add: b_def w_def)
  have bw: "b + length w = length hist" by (auto simp: b_def w_def window_def)
  have sel: "selected after limit hist = take l (drop (unat after - b) w)"
    using filter_newer [OF seq, of after] by (simp add: selected_def w_def l_def)
  have l: "0 < l" by (simp add: l_def query_limit_pos)
  have "drop (unat c - b) w = drop l (drop (unat after - b) w)"
  proof (cases "selected after limit hist = []")
    case True
    then have "length w \<le> unat after - b" using sel l by simp
    moreover have "c = min after (of_nat (length hist))" using True by (simp add: c_def page_of_def)
    then have "unat c = min (unat after) (length hist)"
      using assms(2) by (simp add: unat_of_nat min_def word_le_nat_alt)
    ultimately show ?thesis using bw by simp
  next
    case False
    define a where "a = unat after - b"
    have a: "a < length w" using False sel by (simp add: a_def)
    define m where "m = min l (length w - a) - 1"
    have m: "a + m < length w" "Suc m = min l (length w - a)" using a l by (auto simp: m_def)
    have "last (take l (drop a w)) = w ! (a + m)"
      using a l by (simp add: last_conv_nth m_def min.commute)
    moreover have "c = ev_EventSequence (last (take l (drop a w)))"
      using False by (simp add: c_def page_of_def sel a_def)
    ultimately have "unat c = Suc (b + (a + m))"
      using sequenced_less [OF seq m(1)] by simp
    then have "unat c - b = a + min l (length w - a)" using m(2) by simp
    then show ?thesis by (simp add: a_def [symmetric] min_def add.commute)
  qed
  then show ?thesis unfolding newer_def c_def [symmetric] using filter_newer [OF seq, of c] filter_newer [OF seq, of after]
    by (simp add: w_def l_def)
qed

text \<open>C16. The ring of events is the window of the newest 4096 events on the whole history, with the number of
  the older ones counted as dropped, and a page is the oldest events of that window that are newer than the cursor;
  a client that follows the cursor for \<open>k\<close> pages reads the first \<open>k\<close> limits of those events, each once and in order;
  a request for another stream is refused.\<close>

theorem event_log_window:
  fixes evs :: "(instant \<times> 'm SessionEvent) list" and t0 :: instant and sid :: string
  assumes "length evs < 2 ^ 64"
  defines "h \<equiv> run_log evs (newSessionEventLog t0 sid)" and "hist \<equiv> history t0 sid evs"
  shows "SessionEvents now streamID after limit h =
      (if streamID \<noteq> [] \<and> streamID \<noteq> sid then Inl (EventStreamChanged streamID sid)
       else Inr (page_of now t0 sid after limit hist))
    \<and> follow k now sid after limit h =
        take (k * query_limit limit) (filter (\<lambda>e. after < ev_EventSequence e) (window hist))"
proof
  have ok: "log_ok t0 sid hist h" unfolding h_def hist_def by (rule run_log_ok)
  have seq: "sequenced (length hist - maxSessionEvents) (window hist)"
    using sequenced_window [OF assms(1)] by (simp add: hist_def)
  note pw = page_window [OF ok seq]
  show "SessionEvents now streamID after limit h = (if streamID \<noteq> [] \<and> streamID \<noteq> sid
      then Inl (EventStreamChanged streamID sid) else Inr (page_of now t0 sid after limit hist))"
  proof (cases "streamID = [] \<or> streamID = sid")
    case False
    moreover have "el_streamID h = sid" using ok by (simp add: log_ok_def)
    ultimately show ?thesis by (simp add: SessionEvents_def page_def)
  qed (auto simp: SessionEvents_def pw)
  have len: "length hist < 2 ^ 64" using assms(1) by (simp add: hist_def)
  show "follow k now sid after limit h = take (k * query_limit limit) (filter (\<lambda>e. after < ev_EventSequence e) (window hist))"
  proof (induction k arbitrary: after)
    case (Suc k)
    define p where "p = page_of now t0 sid after limit hist"
    have "follow (Suc k) now sid after limit h = eb_Events p @ follow k now sid (eb_LastSequence p) limit h"
      by (simp add: SessionEvents_def pw p_def)
    also have "\<dots> = eb_Events p @ take (k * query_limit limit) (drop (query_limit limit) (filter (\<lambda>e. after < ev_EventSequence e) (window hist)))"
      unfolding Suc using next_cursor [OF seq len, of now t0 sid after limit] by (simp add: p_def)
    also have "eb_Events p = take (query_limit limit) (filter (\<lambda>e. after < ev_EventSequence e) (window hist))"
      by (simp add: p_def page_of_def selected_def)
    finally show ?case by (simp add: take_add [symmetric] add.commute)
  qed simp
qed

definition sample_event :: "string \<Rightarrow> unit SessionEvent" where
  "sample_event kind =
     \<lparr>ev_TelemetryVersion = 0, ev_EventStreamID = [], ev_EventSequence = 0, ev_SessionID = 1, ev_SessionGeneration = 1,
      ev_EventType = kind, ev_Reason = [], ev_MonotonicElapsedNS = 0, ev_WallTime = None, ev_Before = None, ev_After = None\<rparr>"

theorem event_log_window_witness:
  "length [(1 :: instant, sample_event ''created''), (2, sample_event ''pto''), (3, sample_event ''closed'')] < 2 ^ 64
   \<and> map ev_EventType (follow 2 9 ''s'' 1 1 (run_log [(1, sample_event ''created''), (2, sample_event ''pto''), (3, sample_event ''closed'')]
       (newSessionEventLog 0 ''s''))) = [''pto'', ''closed'']"
proof -
  define evs where "evs = [(1 :: instant, sample_event ''created''), (2, sample_event ''pto''), (3, sample_event ''closed'')]"
  have l: "length evs < 2 ^ 64" by (simp add: evs_def)
  have "follow 2 9 ''s'' 1 1 (run_log evs (newSessionEventLog 0 ''s''))
      = take (2 * query_limit 1) (filter (\<lambda>e. 1 < ev_EventSequence e) (window (history 0 ''s'' evs)))"
    using event_log_window [OF l] by blast
  moreover have "map ev_EventType (take (2 * query_limit 1) (filter (\<lambda>e. 1 < ev_EventSequence e) (window (history 0 ''s'' evs))))
    = [''pto'', ''closed'']"
    unfolding evs_def by code_simp
  ultimately show ?thesis using l by (simp add: evs_def)
qed

end
