(* ===== verification/Send_Budget.thy ===== *)
theory Send_Budget
  imports Framing
begin

text \<open>
  The data queue of a session, \<open>internal/bind/send_budget.go\<close>: the byte budget derived from the measured rate, the
  bounded wait of \<open>enqueueData\<close> and the release of bytes by the send loop.  Any number of \<open>Send\<close> calls run
  \<open>enqueueData\<close> next to one send loop, so a call is a small machine whose step is what happens between two
  operations on shared state; a step of a \<open>select\<close> names the branch taken and is undefined when that branch is not
  ready.  Atomic counters are integers: the invariant bounds them far below the 63-bit range.
\<close>

definition sendAdmissionWait :: duration where
  "sendAdmissionWait = 2 * millisecond"

record outboundPacket =
  ob_preparedFrame :: bytes
  ob_id :: u64
  ob_queuedAt :: "instant option"

record sendQueue =
  sq_cap :: nat
  sq_send :: "outboundPacket list"
  sq_sendSpace :: bool
  sq_sendBytes :: int
  sq_sendBudgetBytes :: int
  sq_sendAgeNanos :: int
  sq_done :: bool
  sq_queueDrops :: u64
  sq_sendQueueExpired :: u64

text \<open>The queue of a new session.\<close>

definition newSendQueue :: "nat \<Rightarrow> sendQueue" where
  "newSendQueue n =
     \<lparr>sq_cap = n, sq_send = [], sq_sendSpace = False, sq_sendBytes = 0, sq_sendBudgetBytes = 0, sq_sendAgeNanos = 0,
      sq_done = False, sq_queueDrops = 0, sq_sendQueueExpired = 0\<rparr>"

text \<open>The admission deadline of one batch; \<open>None\<close> while the timer has not been created.\<close>

type_synonym sendAdmission = "instant option"

definition admission_timeout :: "instant \<Rightarrow> sendAdmission \<Rightarrow> sendAdmission \<times> bool" where
  "admission_timeout now a =
     (let deadline = (case a of None \<Rightarrow> now + sendAdmissionWait | Some d \<Rightarrow> d) in (Some deadline, \<not> now < deadline))"

definition notifySendSpace :: "sendQueue \<Rightarrow> sendQueue" where
  "notifySendSpace s = s\<lparr>sq_sendSpace := True\<rparr>"

definition updateSendBudget :: "u64 \<Rightarrow> u64 \<Rightarrow> bool \<Rightarrow> sendQueue \<Rightarrow> sendQueue" where
  "updateSendBudget bandwidth pacing startup s =
     (let rate = (if bandwidth = 0 \<or> (pacing \<noteq> 0 \<and> pacing < bandwidth) then pacing else bandwidth)
      in if rate = 0 then s
         else let budget = max 6000 (rate div 400);
                  budget = (if startup then max budget (64 * 1024) else budget);
                  limit = sint (min (of_nat (sq_cap s) * 1500) budget);
                  old = sq_sendBudgetBytes s;
                  s = s\<lparr>sq_sendBudgetBytes := limit\<rparr>;
                  s = (if old < limit then notifySendSpace s else s);
                  age = max (100 * millisecond) (sint (min (2000000000 :: u64) (6000 * 8 * 1000000000 div rate)))
              in s\<lparr>sq_sendAgeNanos := age\<rparr>)"

definition sendMaxAge :: "sendQueue \<Rightarrow> duration" where
  "sendMaxAge s = (if sq_sendAgeNanos s > 0 then sq_sendAgeNanos s else 100 * millisecond)"

text \<open>\<open>reserveSendBytes\<close> reads the budget once and then repeats a compare-and-swap on the byte count: the limit it
  uses was read by \<open>reserve_limit\<close>, and \<open>reserve_bytes\<close> is the iteration that decides.\<close>

definition reserve_limit :: "sendQueue \<Rightarrow> int" where
  "reserve_limit s = (if sq_sendBudgetBytes s = 0 then 64 * 1024 else sq_sendBudgetBytes s)"

definition reserve_bytes :: "int \<Rightarrow> nat \<Rightarrow> sendQueue \<Rightarrow> sendQueue option" where
  "reserve_bytes limit n s =
     (if sq_sendBytes s \<noteq> 0 \<and> sq_sendBytes s + int n > limit then None
      else Some (s\<lparr>sq_sendBytes := sq_sendBytes s + int n\<rparr>))"

definition releaseSendBytes :: "outboundPacket \<Rightarrow> sendQueue \<Rightarrow> sendQueue" where
  "releaseSendBytes p s =
     (if ob_queuedAt p \<noteq> None
      then notifySendSpace (s\<lparr>sq_sendBytes := sq_sendBytes s - int (length (ob_preparedFrame p))\<rparr>) else s)"

definition recordSendDrop :: "string \<Rightarrow> sendQueue \<Rightarrow> sendQueue" where
  "recordSendDrop reason s =
     (let s = (if reason = ''send_queue_expired'' then s\<lparr>sq_sendQueueExpired := sq_sendQueueExpired s + 1\<rparr> else s)
      in s\<lparr>sq_queueDrops := sq_queueDrops s + 1\<rparr>)"

section \<open>One call of enqueueData\<close>

datatype enqueue_result = Queued | Rejected string | ErrClosed

text \<open>Where a call stands.  The flag is the local variable \<open>waited\<close>; \<open>Reserve\<close> holds the limit that was read.\<close>

datatype enqueue_pc =
    Begin | ReadLimit bool | Reserve int bool | AwaitSpace bool | Reserved bool | TrySend | AwaitSend
  | Returned enqueue_result

datatype branch = Go | FromSpace | FromTimeout | FromDone | IntoSend

definition queue_full :: "sendQueue \<Rightarrow> bool" where
  "queue_full s \<longleftrightarrow> sq_cap s \<le> length (sq_send s)"

definition put_packet :: "outboundPacket \<Rightarrow> sendQueue \<Rightarrow> sendQueue" where
  "put_packet p s = s\<lparr>sq_send := sq_send s @ [p]\<rparr>"

definition passed :: "instant \<Rightarrow> sendAdmission \<Rightarrow> bool" where
  "passed now a = (case a of None \<Rightarrow> False | Some d \<Rightarrow> d \<le> now)"

fun enqueueData :: "branch \<Rightarrow> instant \<Rightarrow> outboundPacket \<Rightarrow> sendAdmission \<times> enqueue_pc \<times> sendQueue
    \<Rightarrow> (sendAdmission \<times> enqueue_pc \<times> sendQueue) option" where
  "enqueueData Go now p (a, Begin, s) = Some (a, if sq_done s then Returned ErrClosed else ReadLimit False, s)"
| "enqueueData Go now p (a, ReadLimit w, s) = Some (a, Reserve (reserve_limit s) w, s)"
| "enqueueData Go now p (a, Reserve limit w, s) =
     (case reserve_bytes limit (length (ob_preparedFrame p)) s of
        Some s' \<Rightarrow> Some (a, Reserved w, s')
      | None \<Rightarrow> (case admission_timeout now a of
                   (a', expired) \<Rightarrow> Some (a', if expired then Returned (Rejected ''send_queue_budget'') else AwaitSpace w, s)))"
| "enqueueData FromSpace now p (a, AwaitSpace w, s) =
     (if sq_sendSpace s then Some (a, ReadLimit True, s\<lparr>sq_sendSpace := False\<rparr>) else None)"
| "enqueueData FromTimeout now p (a, AwaitSpace w, s) =
     (if passed now a then Some (a, Returned (Rejected ''send_queue_budget''), s) else None)"
| "enqueueData FromDone now p (a, AwaitSpace w, s) = (if sq_done s then Some (a, Returned ErrClosed, s) else None)"
| "enqueueData Go now p (a, Reserved w, s) = Some (a, TrySend, if w then notifySendSpace s else s)"
| "enqueueData Go now p (a, TrySend, s) =
     (if \<not> queue_full s then Some (a, Returned Queued, put_packet p s)
      else case admission_timeout now a of
             (a', expired) \<Rightarrow>
               if expired then Some (a', Returned (Rejected ''send_queue_full''), releaseSendBytes p s)
               else Some (a', AwaitSend, s))"
| "enqueueData IntoSend now p (a, AwaitSend, s) =
     (if \<not> queue_full s then Some (a, Returned Queued, put_packet p s) else None)"
| "enqueueData FromDone now p (a, AwaitSend, s) =
     (if sq_done s then Some (a, Returned ErrClosed, releaseSendBytes p s) else None)"
| "enqueueData FromTimeout now p (a, AwaitSend, s) =
     (if passed now a then Some (a, Returned (Rejected ''send_queue_full''), releaseSendBytes p s) else None)"
| "enqueueData _ now p _ = None"

section \<open>The calls and the send loop together\<close>

record sendSystem =
  sy_queue :: sendQueue
  sy_calls :: "(outboundPacket \<times> sendAdmission \<times> enqueue_pc) list"
  sy_taken :: "outboundPacket option"
  sy_now :: instant

definition data_packet_ok :: "outboundPacket \<Rightarrow> bool" where
  "data_packet_ok p \<longleftrightarrow> ob_queuedAt p \<noteq> None \<and> length (ob_preparedFrame p) \<le> frameHeaderSize + maxDatagramSize"

text \<open>\<open>sy_step\<close>: a new call, a step of a call, the send loop taking a packet and releasing its bytes, a new budget,
  a counted drop, the end of the session and the passage of time, in any order.\<close>

inductive sy_step :: "sendSystem \<Rightarrow> sendSystem \<Rightarrow> bool" where
  sy_call: "data_packet_ok p \<Longrightarrow> sy_step y (y\<lparr>sy_calls := sy_calls y @ [(p, a, Begin)]\<rparr>)"
| sy_enqueue: "i < length (sy_calls y) \<Longrightarrow> sy_calls y ! i = (p, a, pc) \<Longrightarrow>
    enqueueData br (sy_now y) p (a, pc, sy_queue y) = Some (a', pc', q') \<Longrightarrow>
    sy_step y (y\<lparr>sy_queue := q', sy_calls := (sy_calls y)[i := (p, a', pc')]\<rparr>)"
| sy_take: "sy_taken y = None \<Longrightarrow> sq_send (sy_queue y) = p # ps \<Longrightarrow>
    sy_step y (y\<lparr>sy_queue := (sy_queue y)\<lparr>sq_send := ps\<rparr>, sy_taken := Some p\<rparr>)"
| sy_release: "sy_taken y = Some p \<Longrightarrow>
    sy_step y (y\<lparr>sy_queue := releaseSendBytes p (sy_queue y), sy_taken := None\<rparr>)"
| sy_budget: "sy_step y (y\<lparr>sy_queue := updateSendBudget bandwidth pacing startup (sy_queue y)\<rparr>)"
| sy_drop: "sy_step y (y\<lparr>sy_queue := recordSendDrop reason (sy_queue y)\<rparr>)"
| sy_cancel: "sy_step y (y\<lparr>sy_queue := (sy_queue y)\<lparr>sq_done := True\<rparr>\<rparr>)"
| sy_tick: "sy_now y \<le> t \<Longrightarrow> sy_step y (y\<lparr>sy_now := t\<rparr>)"

inductive sy_reach :: "nat \<Rightarrow> sendSystem \<Rightarrow> bool" for n where
  sy_new: "sy_reach n \<lparr>sy_queue = newSendQueue n, sy_calls = [], sy_taken = None, sy_now = t\<rparr>"
| sy_next: "sy_reach n y \<Longrightarrow> sy_step y y' \<Longrightarrow> sy_reach n y'"

text \<open>The bytes a call holds: reserved and not yet handed over with the packet.\<close>

fun reserved_by :: "enqueue_pc \<Rightarrow> bool" where
  "reserved_by (Reserved w) = True"
| "reserved_by TrySend = True"
| "reserved_by AwaitSend = True"
| "reserved_by _ = False"

definition packet_bytes :: "outboundPacket \<Rightarrow> nat" where
  "packet_bytes p = length (ob_preparedFrame p)"

definition call_bytes :: "outboundPacket \<times> sendAdmission \<times> enqueue_pc \<Rightarrow> nat" where
  "call_bytes = (\<lambda>(p, a, pc). if reserved_by pc then packet_bytes p else 0)"

definition queued_bytes :: "sendQueue \<Rightarrow> nat" where
  "queued_bytes s = sum_list (map packet_bytes (sq_send s))"

definition owed_bytes :: "sendSystem \<Rightarrow> nat" where
  "owed_bytes y = queued_bytes (sy_queue y) + sum_list (map call_bytes (sy_calls y))
     + (case sy_taken y of None \<Rightarrow> 0 | Some p \<Rightarrow> packet_bytes p)"

definition budget_cap :: "nat \<Rightarrow> int" where
  "budget_cap n = max (64 * 1024) (1500 * int n)"

fun limit_ok :: "nat \<Rightarrow> enqueue_pc \<Rightarrow> bool" where
  "limit_ok n (Reserve limit w) = (limit \<le> budget_cap n)"
| "limit_ok n _ = True"

definition queue_ok :: "nat \<Rightarrow> sendQueue \<Rightarrow> bool" where
  "queue_ok n s \<longleftrightarrow> sq_cap s = n \<and> length (sq_send s) \<le> n \<and> list_all data_packet_ok (sq_send s)
     \<and> 0 \<le> sq_sendBudgetBytes s \<and> sq_sendBudgetBytes s \<le> 1500 * int n
     \<and> 100 * millisecond \<le> sendMaxAge s \<and> sendMaxAge s \<le> 2 * second
     \<and> sq_sendBytes s \<le> max (budget_cap n) (int (frameHeaderSize + maxDatagramSize))"

definition sys_ok :: "nat \<Rightarrow> sendSystem \<Rightarrow> bool" where
  "sys_ok n y \<longleftrightarrow> queue_ok n (sy_queue y) \<and> sq_sendBytes (sy_queue y) = int (owed_bytes y)
     \<and> list_all (\<lambda>(p, a, pc). data_packet_ok p \<and> limit_ok n pc) (sy_calls y)
     \<and> (\<forall>p. sy_taken y = Some p \<longrightarrow> data_packet_ok p)"

lemma updateSendBudget_fields:
  "sq_cap (updateSendBudget bw pc st s) = sq_cap s" "sq_send (updateSendBudget bw pc st s) = sq_send s"
  "sq_sendBytes (updateSendBudget bw pc st s) = sq_sendBytes s" "sq_done (updateSendBudget bw pc st s) = sq_done s"
  by (simp_all add: updateSendBudget_def Let_def notifySendSpace_def)

lemma sint_small:
  fixes w :: u64
  assumes "unat w < 2 ^ 63"
  shows "sint w = int (unat w)"
proof -
  have "int (unat w) < int (2 ^ 63)" using assms by (simp only: of_nat_less_iff)
  then have "uint w < 2 ^ 63" by simp
  moreover have "- (2 ^ 63) \<le> (0 :: int)" by simp
  then have "- (2 ^ 63) \<le> uint w" using uint_ge_0 [of w] by (rule order_trans)
  ultimately have "signed_take_bit 63 (uint w) = uint w" by (intro signed_take_bit_int_eq_self) simp_all
  then show ?thesis by (simp add: sint_uint)
qed

lemma sint_min_bounds:
  fixes x y :: u64
  assumes "unat x < 2 ^ 63"
  shows "0 \<le> sint (min x y)" "sint (min x y) \<le> int (unat x)"
proof -
  have le: "unat (min x y) \<le> unat x" by (simp add: min_def word_le_nat_alt)
  then have "sint (min x y) = int (unat (min x y))" using assms by (intro sint_small) linarith
  then show "0 \<le> sint (min x y)" "sint (min x y) \<le> int (unat x)" using le by (simp_all only: of_nat_le_iff of_nat_0_le_iff)
qed

lemma updateSendBudget_budget:
  assumes "1500 * sq_cap s < 2 ^ 63" "0 \<le> sq_sendBudgetBytes s" "sq_sendBudgetBytes s \<le> 1500 * int (sq_cap s)"
  shows "0 \<le> sq_sendBudgetBytes (updateSendBudget bw pc st s)"
    "sq_sendBudgetBytes (updateSendBudget bw pc st s) \<le> 1500 * int (sq_cap s)"
proof -
  define x where "x = (of_nat (sq_cap s) * 1500 :: u64)"
  have "unat x = 1500 * sq_cap s"
  proof -
    have "x = of_nat (1500 * sq_cap s)" by (simp add: x_def mult.commute)
    then show ?thesis using assms(1) by (simp only: unat_of_nat) simp
  qed
  then have "0 \<le> sint (min x y)" "sint (min x y) \<le> 1500 * int (sq_cap s)" for y :: u64
    using sint_min_bounds [of x y] assms(1) by simp_all
  then show "0 \<le> sq_sendBudgetBytes (updateSendBudget bw pc st s)"
    "sq_sendBudgetBytes (updateSendBudget bw pc st s) \<le> 1500 * int (sq_cap s)"
    using assms(2,3) by (simp_all add: updateSendBudget_def Let_def notifySendSpace_def x_def)
qed

definition budget_age :: "u64 \<Rightarrow> duration" where
  "budget_age rate = max (100 * millisecond) (sint (min (2000000000 :: u64) (6000 * 8 * 1000000000 div rate)))"

lemma budget_age_bounds: "100 * millisecond \<le> budget_age rate" "budget_age rate \<le> 2 * second"
  using sint_min_bounds [of "2000000000" "6000 * 8 * 1000000000 div rate"] by (simp_all add: budget_age_def)

lemma updateSendBudget_age:
  assumes "100 * millisecond \<le> sendMaxAge s" "sendMaxAge s \<le> 2 * second"
  shows "100 * millisecond \<le> sendMaxAge (updateSendBudget bw pc st s) \<and> sendMaxAge (updateSendBudget bw pc st s) \<le> 2 * second"
proof -
  have "sq_sendAgeNanos (updateSendBudget bw pc st s) = sq_sendAgeNanos s
      \<or> (\<exists>rate. sq_sendAgeNanos (updateSendBudget bw pc st s) = budget_age rate)"
    by (auto simp: updateSendBudget_def Let_def notifySendSpace_def budget_age_def)
  then show ?thesis
  proof
    assume "sq_sendAgeNanos (updateSendBudget bw pc st s) = sq_sendAgeNanos s"
    then show ?thesis using assms by (simp only: sendMaxAge_def)
  next
    assume "\<exists>rate. sq_sendAgeNanos (updateSendBudget bw pc st s) = budget_age rate"
    then obtain rate where r: "sq_sendAgeNanos (updateSendBudget bw pc st s) = budget_age rate" ..
    have "0 < budget_age rate" using budget_age_bounds(1) [of rate] by linarith
    then have "sendMaxAge (updateSendBudget bw pc st s) = budget_age rate" by (simp only: sendMaxAge_def r if_True)
    then show ?thesis using budget_age_bounds [of rate] by (simp only:)
  qed
qed

lemma sendMaxAge_update [simp]:
  "sendMaxAge (s\<lparr>sq_send := a\<rparr>) = sendMaxAge s" "sendMaxAge (s\<lparr>sq_sendSpace := b\<rparr>) = sendMaxAge s"
  "sendMaxAge (s\<lparr>sq_sendBytes := c\<rparr>) = sendMaxAge s" "sendMaxAge (s\<lparr>sq_done := b\<rparr>) = sendMaxAge s"
  "sendMaxAge (s\<lparr>sq_queueDrops := u\<rparr>) = sendMaxAge s" "sendMaxAge (s\<lparr>sq_sendQueueExpired := u\<rparr>) = sendMaxAge s"
  by (simp_all add: sendMaxAge_def)

lemma enqueueData_account:
  assumes "enqueueData br now p (a, pc, s) = Some (a', pc', s')" "data_packet_ok p" "queue_ok n s" "limit_ok n pc"
    "0 \<le> sq_sendBytes s"
  shows "sq_sendBytes s' + int (queued_bytes s) + int (call_bytes (p, a, pc))
       = sq_sendBytes s + int (queued_bytes s') + int (call_bytes (p, a', pc'))
     \<and> queue_ok n s' \<and> limit_ok n pc'"
  using assms
  by (cases "(br, now, p, (a, pc, s))" rule: enqueueData.cases)
    (auto simp: queue_ok_def data_packet_ok_def call_bytes_def queued_bytes_def packet_bytes_def put_packet_def queue_full_def
      notifySendSpace_def releaseSendBytes_def reserve_bytes_def reserve_limit_def budget_cap_def admission_timeout_def
      split: if_splits option.splits prod.splits)

lemma call_update_sum:
  assumes "i < length cs" "cs ! i = c"
  shows "sum_list (map call_bytes (cs[i := c'])) + call_bytes c = sum_list (map call_bytes cs) + call_bytes c'"
proof -
  have le: "call_bytes c \<le> sum_list (map call_bytes cs)"
    using assms by (metis elem_le_sum_list length_map nth_map)
  have "sum_list (map call_bytes (cs[i := c'])) = sum_list (map call_bytes cs) + call_bytes c' - call_bytes c"
    using assms sum_list_update [of i "map call_bytes cs" "call_bytes c'"] by (simp add: map_update)
  then show ?thesis using le by simp
qed

lemma sys_ok_bytes: "sys_ok n y \<Longrightarrow> 0 \<le> sq_sendBytes (sy_queue y)"
  by (simp add: sys_ok_def)

lemma sys_ok_enqueue:
  assumes ok: "sys_ok n y" and i: "i < length (sy_calls y)" "sy_calls y ! i = (p, a, pc)"
    and e: "enqueueData br (sy_now y) p (a, pc, sy_queue y) = Some (a', pc', q')"
  shows "sys_ok n (y\<lparr>sy_queue := q', sy_calls := (sy_calls y)[i := (p, a', pc')]\<rparr>)"
proof -
  have c: "(p, a, pc) \<in> set (sy_calls y)" using i by (metis nth_mem)
  then have p: "data_packet_ok p" "limit_ok n pc" using ok by (auto simp: sys_ok_def list_all_iff)
  have q: "queue_ok n (sy_queue y)" using ok by (simp add: sys_ok_def)
  note acc = enqueueData_account [OF e p(1) q p(2) sys_ok_bytes [OF ok]]
  have sum: "sum_list (map call_bytes ((sy_calls y)[i := (p, a', pc')])) + call_bytes (p, a, pc)
      = sum_list (map call_bytes (sy_calls y)) + call_bytes (p, a', pc')"
    by (rule call_update_sum [OF i])
  have bytes: "sq_sendBytes (sy_queue y) = int (owed_bytes y)" using ok by (simp add: sys_ok_def)
  have "sq_sendBytes q' = int (owed_bytes (y\<lparr>sy_queue := q', sy_calls := (sy_calls y)[i := (p, a', pc')]\<rparr>))"
    using acc sum bytes unfolding owed_bytes_def by simp
  moreover have "list_all (\<lambda>(p, a, pc). data_packet_ok p \<and> limit_ok n pc) ((sy_calls y)[i := (p, a', pc')])"
    using ok acc p by (auto simp: sys_ok_def list_all_iff dest!: set_update_subset_insert [THEN subsetD])
  ultimately show ?thesis using ok acc by (simp add: sys_ok_def)
qed

lemma sys_ok_release:
  assumes ok: "sys_ok n y" and t: "sy_taken y = Some p"
  shows "sys_ok n (y\<lparr>sy_queue := releaseSendBytes p (sy_queue y), sy_taken := None\<rparr>)"
proof -
  have "data_packet_ok p" "sq_sendBytes (sy_queue y) = int (owed_bytes y)" using ok t by (auto simp: sys_ok_def)
  then show ?thesis using ok t
    by (auto simp: sys_ok_def queue_ok_def releaseSendBytes_def notifySendSpace_def data_packet_ok_def owed_bytes_def queued_bytes_def packet_bytes_def)
qed

lemma sys_ok_step:
  assumes "sy_step y y'" "sys_ok n y" "1500 * n < 2 ^ 63"
  shows "sys_ok n y'"
  using assms
proof (induction rule: sy_step.induct)
  case (sy_call p y a)
  then show ?case by (simp add: sys_ok_def owed_bytes_def call_bytes_def)
next
  case (sy_enqueue i y p a pc br a' pc' q')
  then show ?case by (intro sys_ok_enqueue)
next
  case (sy_take y p ps)
  then show ?case by (auto simp: sys_ok_def queue_ok_def owed_bytes_def queued_bytes_def)
next
  case (sy_release y p)
  then show ?case by (intro sys_ok_release)
next
  case (sy_budget y bandwidth pacing startup)
  then show ?case
    using updateSendBudget_budget [of "sy_queue y" bandwidth pacing startup] updateSendBudget_age [of "sy_queue y" bandwidth pacing startup]
    by (simp add: sys_ok_def queue_ok_def updateSendBudget_fields owed_bytes_def queued_bytes_def)
next
  case (sy_drop y reason)
  then show ?case by (simp add: sys_ok_def queue_ok_def recordSendDrop_def Let_def owed_bytes_def queued_bytes_def)
qed (simp_all add: sys_ok_def queue_ok_def owed_bytes_def queued_bytes_def)

lemma reach_sys_ok: "sy_reach n y \<Longrightarrow> 1500 * n < 2 ^ 63 \<Longrightarrow> sys_ok n y"
proof (induction rule: sy_reach.induct)
  case (sy_new t)
  then show ?case
    by (simp add: sys_ok_def queue_ok_def sendMaxAge_def newSendQueue_def owed_bytes_def queued_bytes_def budget_cap_def)
next
  case (sy_next y y')
  then show ?case by (blast intro: sys_ok_step)
qed

text \<open>C12. However the calls of \<open>enqueueData\<close>, the send loop, budget updates and the end of the session interleave,
  the byte count is exactly the bytes of the queued packets, of the packet the send loop holds and of the calls
  between their reservation and their return; so it is never negative, nothing leaks on a rejected call, and it
  stays within the budget or one datagram, the queue within its capacity and the age at which a packet is dropped
  between 100 ms and 2 s.\<close>

theorem send_budget_exact:
  assumes "sy_reach n y" "1500 * n < 2 ^ 63"
  shows "sq_sendBytes (sy_queue y) = int (owed_bytes y)
    \<and> sq_sendBytes (sy_queue y) \<le> max (max (64 * 1024) (1500 * int n)) (int (frameHeaderSize + maxDatagramSize))
    \<and> length (sq_send (sy_queue y)) \<le> n
    \<and> 0 \<le> sq_sendBudgetBytes (sy_queue y) \<and> sq_sendBudgetBytes (sy_queue y) \<le> 1500 * int n
    \<and> 100 * millisecond \<le> sendMaxAge (sy_queue y) \<and> sendMaxAge (sy_queue y) \<le> 2 * second"
  using reach_sys_ok [OF assms] by (simp add: sys_ok_def queue_ok_def budget_cap_def)

definition sample_packet :: outboundPacket where
  "sample_packet = \<lparr>ob_preparedFrame = [1, 2, 3], ob_id = 1, ob_queuedAt = Some 0\<rparr>"

definition sample_system :: sendSystem where
  "sample_system = \<lparr>sy_queue = (newSendQueue 1)\<lparr>sq_sendBytes := 3\<rparr>,
     sy_calls = [(sample_packet, None, Reserved False)], sy_taken = None, sy_now = 0\<rparr>"

lemma sample_system_reach: "sy_reach 1 sample_system"
proof -
  define y0 where "y0 = \<lparr>sy_queue = newSendQueue 1, sy_calls = [], sy_taken = None, sy_now = 0\<rparr>"
  define y1 where "y1 = y0\<lparr>sy_calls := [(sample_packet, None, Begin)]\<rparr>"
  define y2 where "y2 = y0\<lparr>sy_calls := [(sample_packet, None, ReadLimit False)]\<rparr>"
  define y3 where "y3 = y0\<lparr>sy_calls := [(sample_packet, None, Reserve 65536 False)]\<rparr>"
  note d = y0_def y1_def y2_def y3_def newSendQueue_def sample_packet_def
  have "sy_reach 1 y0" unfolding y0_def by (rule sy_new)
  moreover have "sy_step y0 y1"
    using sy_call [of sample_packet y0 None] by (simp add: d data_packet_ok_def maxDatagramSize_def)
  moreover have "sy_step y1 y2"
    using sy_enqueue [of 0 y1 sample_packet None Begin Go] by (simp add: d)
  moreover have "sy_step y2 y3"
    using sy_enqueue [of 0 y2 sample_packet None "ReadLimit False" Go] by (simp add: d reserve_limit_def)
  moreover have "sy_step y3 sample_system"
    using sy_enqueue [of 0 y3 sample_packet None "Reserve 65536 False" Go] by (simp add: d reserve_bytes_def sample_system_def)
  ultimately show ?thesis by (blast intro: sy_next)
qed

theorem send_budget_exact_witness:
  "sy_reach 1 sample_system \<and> sq_sendBytes (sy_queue sample_system) = 3 \<and> owed_bytes sample_system = 3"
proof -
  have "sq_sendBytes (sy_queue sample_system) = int (owed_bytes sample_system)"
    using send_budget_exact [OF sample_system_reach] by simp
  moreover have "owed_bytes sample_system = 3" by code_simp
  ultimately show ?thesis using sample_system_reach by simp
qed

section \<open>A call returns\<close>

fun returned :: "enqueue_pc \<Rightarrow> bool" where
  "returned (Returned r) = True"
| "returned _ = False"

fun waiting :: "enqueue_pc \<Rightarrow> bool" where
  "waiting (AwaitSpace w) = True"
| "waiting AwaitSend = True"
| "waiting _ = False"

text \<open>The steps of one call; before each of them the rest of the system may have changed the queue in any way.\<close>

fun enqueue_run :: "outboundPacket \<Rightarrow> (branch \<times> instant \<times> sendQueue) list \<Rightarrow> sendAdmission \<times> enqueue_pc \<Rightarrow> (sendAdmission \<times> enqueue_pc) option" where
  "enqueue_run p [] c = Some c"
| "enqueue_run p ((br, now, s) # es) (a, pc) =
     (case enqueueData br now p (a, pc, s) of
        None \<Rightarrow> None
      | Some (a', pc', _) \<Rightarrow> enqueue_run p es (a', pc'))"

fun rank :: "enqueue_pc \<Rightarrow> nat" where
  "rank Begin = 5"
| "rank (ReadLimit w) = 4"
| "rank (Reserve limit w) = 3"
| "rank (AwaitSpace w) = 5"
| "rank (Reserved w) = 2"
| "rank TrySend = 1"
| "rank AwaitSend = 1"
| "rank (Returned r) = 0"

lemma enqueueData_deadline:
  assumes "enqueueData br now p (a, pc, s) = Some (a', pc', s')"
  shows "a' = a \<or> a = None \<and> a' = Some (now + sendAdmissionWait)" "waiting pc' \<Longrightarrow> a' \<noteq> None"
  using assms
  by (cases "(br, now, p, (a, pc, s))" rule: enqueueData.cases;
      auto simp: admission_timeout_def Let_def passed_def split: if_splits option.splits prod.splits)+

lemma enqueueData_rank:
  assumes "enqueueData br now p (a, pc, s) = Some (a', pc', s')" "passed now a"
  shows "rank pc' < rank pc"
  using assms
  by (cases "(br, now, p, (a, pc, s))" rule: enqueueData.cases)
    (auto simp: admission_timeout_def Let_def passed_def split: if_splits option.splits prod.splits)

lemma enqueueData_enabled:
  assumes "\<not> returned pc" "waiting pc \<Longrightarrow> passed now a"
  shows "\<exists>br. enqueueData br now p (a, pc, s) \<noteq> None"
proof (cases "waiting pc")
  case True
  then have "enqueueData FromTimeout now p (a, pc, s) \<noteq> None" using assms by (cases pc) auto
  then show ?thesis ..
next
  case False
  then have "enqueueData Go now p (a, pc, s) \<noteq> None"
    using assms by (cases pc) (auto split: option.splits prod.splits)
  then show ?thesis ..
qed

lemma enqueue_run_deadline:
  "enqueue_run p es (a0, pc0) = Some (a, pc) \<Longrightarrow> (waiting pc0 \<Longrightarrow> a0 \<noteq> None) \<Longrightarrow>
   (waiting pc \<longrightarrow> a \<noteq> None) \<and> (a = a0 \<or> (\<exists>(br, t, s) \<in> set es. a = Some (t + sendAdmissionWait)))"
proof (induction p es "(a0, pc0)" arbitrary: a0 pc0 rule: enqueue_run.induct)
  case (2 p br now s es a0 pc0)
  from "2.prems"(1) obtain a1 pc1 s1 where e: "enqueueData br now p (a0, pc0, s) = Some (a1, pc1, s1)"
    and r: "enqueue_run p es (a1, pc1) = Some (a, pc)" by (auto split: option.splits)
  have "(waiting pc \<longrightarrow> a \<noteq> None) \<and> (a = a1 \<or> (\<exists>(br, t, s) \<in> set es. a = Some (t + sendAdmissionWait)))"
    using "2.hyps" [OF e] r enqueueData_deadline(2) [OF e] by blast
  then show ?case using enqueueData_deadline(1) [OF e] by auto
qed auto

lemma enqueue_run_rank:
  "enqueue_run p es (Some d, pc0) = Some c \<Longrightarrow> \<forall>(br, t, s) \<in> set es. d \<le> t \<Longrightarrow> length es \<le> rank pc0"
proof (induction p es "(Some d, pc0)" arbitrary: pc0 rule: enqueue_run.induct)
  case (2 p br now s es pc0)
  from "2.prems"(1) obtain a1 pc1 s1 where e: "enqueueData br now p (Some d, pc0, s) = Some (a1, pc1, s1)"
    and r: "enqueue_run p es (a1, pc1) = Some c" by (auto split: option.splits)
  have "a1 = Some d" using enqueueData_deadline(1) [OF e] by simp
  moreover have "rank pc1 < rank pc0" using enqueueData_rank [OF e] "2.prems"(2) by (simp add: passed_def)
  ultimately show ?case using "2.hyps" [OF e] r "2.prems"(2) by force
qed auto

lemma rank_le: "rank pc \<le> 5"
  by (cases pc) auto


definition sample_full :: sendQueue where
  "sample_full = (newSendQueue 1)\<lparr>sq_send := [sample_packet], sq_sendBytes := 3\<rparr>"


end
