(* ===== verification/Leases.thy ===== *)
theory Leases
  imports Salamander Config
begin

text \<open>
  The reference-counted leases of a bind, \<open>internal/bind/endpoint_policy.go\<close> and the receive keys of \<open>bind.go\<close>: the
  obfuscation key of an endpoint, the FEC policy of an endpoint and the keys of the inbound decoder.  The three tables
  share one contract, the locale \<open>counted_lease\<close>.  The open carrier is the Salamander connection of theory
  \<open>Salamander\<close>, so the leases are shown to determine its keys.  Every operation holds the mutex of the bind; only the
  closure that unregisters a receive key runs after the mutex is released, which is a step of its own.
\<close>

record endpointKeyLease =
  kl_key :: obfsKey
  kl_refs :: int

text \<open>\<open>rl_release\<close>: the lease holds the release closure of the open carrier; it is nil while the bind is closed.\<close>

record receiveKeyLease =
  rl_refs :: int
  rl_release :: bool

record endpointFECPolicyLease =
  fl_policy :: string
  fl_refs :: int

text \<open>The parts of an endpoint and of a session that a policy reaches.  The channel of policy updates has room for one;
  it is nil in a session built without it.\<close>

record fecSession =
  fs_hasUpdates :: bool
  fs_updates :: "string option"
  fs_closed :: bool

record fecEndpoint =
  fe_fecPolicy :: string
  fe_session :: "u64 option"

text \<open>\<open>bl_carrier\<close> is \<open>None\<close> while the bind is closed; an open carrier without obfuscation has no Salamander connection.\<close>

record BindLeases =
  bl_obfsResolved :: "(addrPort \<times> obfsKey) list"
  bl_obfsDynamic :: "(addrPort \<times> endpointKeyLease) list"
  bl_obfsReceive :: "(obfsKey \<times> receiveKeyLease) list"
  bl_fecPolicies :: "(addrPort \<times> endpointFECPolicyLease) list"
  bl_carrier :: "SalamanderConn option option"
  bl_endpoints :: "(addrPort \<times> fecEndpoint) list"
  bl_sessions :: "(u64 \<times> fecSession) list"

definition newBindLeases :: BindLeases where
  "newBindLeases = \<lparr>bl_obfsResolved = [], bl_obfsDynamic = [], bl_obfsReceive = [], bl_fecPolicies = [],
     bl_carrier = None, bl_endpoints = [], bl_sessions = []\<rparr>"

datatype lease_error =
    EndpointRequired endpoint_error | KeyConflict addrPort | UnsupportedPolicy string | PolicyConflict addrPort string
  | PolicyChanged addrPort | BindAlreadyOpen | CarrierFailed

definition on_conn :: "(SalamanderConn \<Rightarrow> SalamanderConn) \<Rightarrow> BindLeases \<Rightarrow> BindLeases" where
  "on_conn f b = b\<lparr>bl_carrier := map_option (map_option f) (bl_carrier b)\<rparr>"

section \<open>Endpoint keys\<close>

definition acquireKeyLocked :: "addrPort \<Rightarrow> obfsKey \<Rightarrow> BindLeases \<Rightarrow> lease_error + BindLeases" where
  "acquireKeyLocked endpoint key b =
     (let (lease, ok) = (case map_of (bl_obfsDynamic b) endpoint of
                           None \<Rightarrow> (\<lparr>kl_key = key, kl_refs = 0\<rparr>, False) | Some l \<Rightarrow> (l, True))
      in if ok \<and> kl_key lease \<noteq> key then Inl (KeyConflict endpoint)
         else let lease = lease\<lparr>kl_key := key, kl_refs := kl_refs lease + 1\<rparr>
              in Inr (on_conn (AssociateEndpoint endpoint key)
                   (b\<lparr>bl_obfsDynamic := AList.update endpoint lease (bl_obfsDynamic b),
                      bl_obfsResolved := AList.update endpoint key (bl_obfsResolved b)\<rparr>)))"

definition AcquireEndpointKey :: "addrPort \<Rightarrow> obfsKey \<Rightarrow> BindLeases \<Rightarrow> lease_error + addrPort \<times> BindLeases" where
  "AcquireEndpointKey endpoint key b =
     (case endpoint_Canonical endpoint of
        Inl e \<Rightarrow> Inl (EndpointRequired e)
      | Inr endpoint \<Rightarrow> (case acquireKeyLocked endpoint key b of Inl e \<Rightarrow> Inl e | Inr b' \<Rightarrow> Inr (endpoint, b')))"

definition releaseEndpointKey :: "addrPort \<Rightarrow> obfsKey \<Rightarrow> BindLeases \<Rightarrow> BindLeases" where
  "releaseEndpointKey endpoint key b =
     (case map_of (bl_obfsDynamic b) endpoint of
        None \<Rightarrow> b
      | Some lease \<Rightarrow>
          if kl_key lease \<noteq> key then b
          else let lease = lease\<lparr>kl_refs := kl_refs lease - 1\<rparr>
               in if kl_refs lease > 0 then b\<lparr>bl_obfsDynamic := AList.update endpoint lease (bl_obfsDynamic b)\<rparr>
                  else on_conn (DisassociateEndpoint endpoint key)
                         (b\<lparr>bl_obfsDynamic := AList.delete endpoint (bl_obfsDynamic b),
                            bl_obfsResolved := AList.delete endpoint (bl_obfsResolved b)\<rparr>))"

section \<open>FEC policies\<close>

definition normalizeFECPolicy :: "string \<Rightarrow> lease_error + string" where
  "normalizeFECPolicy policy =
     (let policy = (if policy = [] then ''balanced'' else policy)
      in if policy \<in> {''latency'', ''balanced'', ''throughput''} then Inr policy else Inl (UnsupportedPolicy policy))"

definition setFECPolicy :: "string \<Rightarrow> fecSession \<Rightarrow> fecSession" where
  "setFECPolicy policy s = (if \<not> fs_hasUpdates s \<or> fs_closed s then s else s\<lparr>fs_updates := Some policy\<rparr>)"

definition update_session :: "u64 \<Rightarrow> string \<Rightarrow> BindLeases \<Rightarrow> BindLeases" where
  "update_session sid policy b =
     (case map_of (bl_sessions b) sid of
        None \<Rightarrow> b
      | Some s \<Rightarrow> b\<lparr>bl_sessions := AList.update sid (setFECPolicy policy s) (bl_sessions b)\<rparr>)"

definition applyEndpointFECPolicy :: "addrPort \<Rightarrow> string \<Rightarrow> BindLeases \<Rightarrow> BindLeases" where
  "applyEndpointFECPolicy endpoint policy b =
     (if bl_carrier b = None then b
      else case map_of (bl_endpoints b) endpoint of
             None \<Rightarrow> b
           | Some ep \<Rightarrow>
               let b = b\<lparr>bl_endpoints := AList.update endpoint (ep\<lparr>fe_fecPolicy := policy\<rparr>) (bl_endpoints b)\<rparr>
               in (case fe_session ep of None \<Rightarrow> b | Some sid \<Rightarrow> update_session sid policy b))"

definition policy_lease :: "addrPort \<Rightarrow> BindLeases \<Rightarrow> endpointFECPolicyLease" where
  "policy_lease endpoint b =
     (case map_of (bl_fecPolicies b) endpoint of None \<Rightarrow> \<lparr>fl_policy = [], fl_refs = 0\<rparr> | Some l \<Rightarrow> l)"

definition acquirePolicyLocked :: "addrPort \<Rightarrow> string \<Rightarrow> BindLeases \<Rightarrow> lease_error + BindLeases" where
  "acquirePolicyLocked endpoint policy b =
     (let lease = policy_lease endpoint b
      in if fl_refs lease \<noteq> 0 \<and> fl_policy lease \<noteq> policy then Inl (PolicyConflict endpoint (fl_policy lease))
         else Inr (applyEndpointFECPolicy endpoint policy
                (b\<lparr>bl_fecPolicies := AList.update endpoint (lease\<lparr>fl_policy := policy, fl_refs := fl_refs lease + 1\<rparr>) (bl_fecPolicies b)\<rparr>)))"

definition AcquireEndpointFECPolicy :: "addrPort \<Rightarrow> string \<Rightarrow> BindLeases \<Rightarrow> lease_error + (addrPort \<times> string) \<times> BindLeases" where
  "AcquireEndpointFECPolicy endpoint policy b =
     (case endpoint_Canonical endpoint of
        Inl e \<Rightarrow> Inl (EndpointRequired e)
      | Inr endpoint \<Rightarrow>
          (case normalizeFECPolicy policy of
             Inl e \<Rightarrow> Inl e
           | Inr policy \<Rightarrow>
               (case acquirePolicyLocked endpoint policy b of Inl e \<Rightarrow> Inl e | Inr b' \<Rightarrow> Inr ((endpoint, policy), b'))))"

definition replacePolicyLocked :: "addrPort \<Rightarrow> string \<Rightarrow> string \<Rightarrow> BindLeases \<Rightarrow> lease_error + BindLeases" where
  "replacePolicyLocked endpoint oldPolicy newPolicy b =
     (let lease = policy_lease endpoint b
      in if fl_refs lease \<noteq> 1 \<or> fl_policy lease \<noteq> oldPolicy then Inl (PolicyChanged endpoint)
         else Inr (applyEndpointFECPolicy endpoint newPolicy
                (b\<lparr>bl_fecPolicies := AList.update endpoint (lease\<lparr>fl_policy := newPolicy\<rparr>) (bl_fecPolicies b)\<rparr>)))"

definition ReplaceEndpointFECPolicy ::
  "addrPort \<Rightarrow> string \<Rightarrow> string \<Rightarrow> BindLeases \<Rightarrow> lease_error + (addrPort \<times> string) \<times> BindLeases" where
  "ReplaceEndpointFECPolicy endpoint oldPolicy newPolicy b =
     (case endpoint_Canonical endpoint of
        Inl e \<Rightarrow> Inl (EndpointRequired e)
      | Inr endpoint \<Rightarrow>
          (case normalizeFECPolicy oldPolicy of
             Inl e \<Rightarrow> Inl e
           | Inr oldPolicy \<Rightarrow>
               (case normalizeFECPolicy newPolicy of
                  Inl e \<Rightarrow> Inl e
                | Inr newPolicy \<Rightarrow>
                    (case replacePolicyLocked endpoint oldPolicy newPolicy b of
                       Inl e \<Rightarrow> Inl e | Inr b' \<Rightarrow> Inr ((endpoint, newPolicy), b')))))"

definition endpointFECPolicyRelease :: "addrPort \<Rightarrow> string \<Rightarrow> BindLeases \<Rightarrow> BindLeases" where
  "endpointFECPolicyRelease endpoint policy b =
     (let lease = policy_lease endpoint b
      in if fl_refs lease = 0 \<or> fl_policy lease \<noteq> policy then b
         else let lease = lease\<lparr>fl_refs := fl_refs lease - 1\<rparr>
              in if fl_refs lease = 0 then b\<lparr>bl_fecPolicies := AList.delete endpoint (bl_fecPolicies b)\<rparr>
                 else b\<lparr>bl_fecPolicies := AList.update endpoint lease (bl_fecPolicies b)\<rparr>)"

definition SetAuthenticatedSessionFECPolicy :: "u64 \<Rightarrow> string \<Rightarrow> BindLeases \<Rightarrow> lease_error + BindLeases" where
  "SetAuthenticatedSessionFECPolicy sid policy b =
     (if sid = 0 then Inr b
      else case normalizeFECPolicy policy of
             Inl e \<Rightarrow> Inl e
           | Inr policy \<Rightarrow> Inr (if bl_carrier b = None then b else update_session sid policy b))"

section \<open>Receive keys, opening and closing\<close>

definition acquireReceive :: "obfsKey \<Rightarrow> BindLeases \<Rightarrow> BindLeases" where
  "acquireReceive key b =
     (let lease = (case map_of (bl_obfsReceive b) key of None \<Rightarrow> \<lparr>rl_refs = 0, rl_release = False\<rparr> | Some l \<Rightarrow> l);
          lease = lease\<lparr>rl_refs := rl_refs lease + 1\<rparr>;
          (lease, b) = (if rl_refs lease = 1 \<and> bl_carrier b \<noteq> None
                        then (lease\<lparr>rl_release := True\<rparr>, on_conn (acquireReceiveKey key) b) else (lease, b))
      in b\<lparr>bl_obfsReceive := AList.update key lease (bl_obfsReceive b)\<rparr>)"

text \<open>The result says whether the release closure of the carrier is still to be called.\<close>

definition releaseReceive :: "obfsKey \<Rightarrow> BindLeases \<Rightarrow> BindLeases \<times> bool" where
  "releaseReceive key b =
     (case map_of (bl_obfsReceive b) key of
        None \<Rightarrow> (b, False)
      | Some lease \<Rightarrow>
          let lease = lease\<lparr>rl_refs := rl_refs lease - 1\<rparr>
          in if rl_refs lease > 0 then (b\<lparr>bl_obfsReceive := AList.update key lease (bl_obfsReceive b)\<rparr>, False)
             else (b\<lparr>bl_obfsReceive := AList.delete key (bl_obfsReceive b)\<rparr>, rl_release lease))"

definition open_peers :: "obfsKey list \<Rightarrow> BindLeases \<Rightarrow> PeerKey list" where
  "open_peers obfsKeys b =
     map (\<lambda>key. \<lparr>pk_Key = key, pk_Endpoint = (NoAddr, 0)\<rparr>) obfsKeys
     @ map (\<lambda>(endpoint, key). \<lparr>pk_Key = key, pk_Endpoint = endpoint\<rparr>) (bl_obfsResolved b)"

text \<open>\<open>Open\<close>: \<open>opened\<close> says whether the socket and the QUIC listener could be opened.\<close>

definition Bind_Open :: "bool \<Rightarrow> bool \<Rightarrow> obfsKey list \<Rightarrow> BindLeases \<Rightarrow> lease_error + BindLeases" where
  "Bind_Open opened salamander obfsKeys b =
     (if bl_carrier b \<noteq> None then Inl BindAlreadyOpen
      else if \<not> opened then Inl CarrierFailed
      else let conn = (if salamander then Some (WrapKeyedSalamander (open_peers obfsKeys b)) else None);
               b = b\<lparr>bl_carrier := Some conn, bl_endpoints := [], bl_sessions := []\<rparr>
           in Inr (fold (\<lambda>key b. on_conn (acquireReceiveKey key) b) (keys (bl_obfsReceive b))
                (b\<lparr>bl_obfsReceive := map (\<lambda>(key, l). (key, l\<lparr>rl_release := True\<rparr>)) (bl_obfsReceive b)\<rparr>)))"

definition Bind_Close :: "BindLeases \<Rightarrow> BindLeases" where
  "Bind_Close b =
     b\<lparr>bl_carrier := None, bl_endpoints := [],
       bl_obfsReceive := map (\<lambda>(key, l). (key, l\<lparr>rl_release := False\<rparr>)) (bl_obfsReceive b)\<rparr>"

section \<open>The contract of a lease table\<close>

lemma count_list_pos: "0 < count_list xs x \<longleftrightarrow> x \<in> set xs"
  using count_list_0_iff [of xs x] by auto

text \<open>\<open>lookup s k\<close> is the value leased at \<open>k\<close> with its reference count.  A client keeps the list \<open>hs\<close> of the leases
  that were granted and not yet released; each release function runs once.\<close>

locale counted_lease =
  fixes lookup :: "'s \<Rightarrow> 'k \<Rightarrow> ('v \<times> int) option"
    and acquire :: "'k \<Rightarrow> 'v \<Rightarrow> 's \<Rightarrow> 's option"
    and release :: "'k \<Rightarrow> 'v \<Rightarrow> 's \<Rightarrow> 's"
    and invar :: "'s \<Rightarrow> bool"
  assumes lookup_pos: "invar s \<Longrightarrow> lookup s k = Some (v, n) \<Longrightarrow> 0 < n"
    and acquire_new: "invar s \<Longrightarrow> lookup s k = None \<Longrightarrow> \<exists>s'. acquire k v s = Some s' \<and> lookup s' = (lookup s)(k \<mapsto> (v, 1))"
    and acquire_more: "invar s \<Longrightarrow> lookup s k = Some (v, n) \<Longrightarrow>
      \<exists>s'. acquire k v s = Some s' \<and> lookup s' = (lookup s)(k \<mapsto> (v, n + 1))"
    and acquire_other: "invar s \<Longrightarrow> lookup s k = Some (w, n) \<Longrightarrow> w \<noteq> v \<Longrightarrow> acquire k v s = None"
    and release_law: "invar s \<Longrightarrow> lookup s k = Some (v, n) \<Longrightarrow>
      lookup (release k v s) = (lookup s)(k := if n = 1 then None else Some (v, n - 1))"
begin

definition exact :: "('k \<times> 'v) list \<Rightarrow> 's \<Rightarrow> bool" where
  "exact hs s \<longleftrightarrow> invar s \<and> (\<forall>k v n. lookup s k = Some (v, n) \<longleftrightarrow> n = int (count_list hs (k, v)) \<and> (k, v) \<in> set hs)"

lemma exact_same: "exact hs s \<Longrightarrow> (k, v) \<in> set hs \<Longrightarrow> (k, w) \<in> set hs \<Longrightarrow> v = w"
  unfolding exact_def by (metis option.inject prod.inject)

lemma exact_lookup: "exact hs s \<Longrightarrow> (k, v) \<in> set hs \<Longrightarrow> lookup s k = Some (v, int (count_list hs (k, v)))"
  unfolding exact_def by blast

lemma exact_none: "exact hs s \<Longrightarrow> lookup s k = None \<longleftrightarrow> (\<forall>v. (k, v) \<notin> set hs)"
  unfolding exact_def by (metis not_None_eq surj_pair)

lemma acquire_refused: "exact hs s \<Longrightarrow> acquire k v s = None \<longleftrightarrow> (\<exists>w. (k, w) \<in> set hs \<and> w \<noteq> v)"
proof
  assume e: "exact hs s" and n: "acquire k v s = None"
  have i: "invar s" using e by (simp add: exact_def)
  obtain w m where l: "lookup s k = Some (w, m)" using acquire_new [OF i, of k v] n by fastforce
  then have "w \<noteq> v" using acquire_more [OF i, of k v m] n by auto
  moreover have "(k, w) \<in> set hs" using e l by (simp add: exact_def)
  ultimately show "\<exists>w. (k, w) \<in> set hs \<and> w \<noteq> v" by blast
next
  assume e: "exact hs s" and "\<exists>w. (k, w) \<in> set hs \<and> w \<noteq> v"
  then obtain w where "(k, w) \<in> set hs" "w \<noteq> v" by blast
  then show "acquire k v s = None"
    using exact_lookup [OF e] acquire_other [of s k w _ v] e by (simp add: exact_def)
qed

lemma acquire_exact:
  assumes e: "exact hs s" and a: "acquire k v s = Some s'" and i': "invar s'"
  shows "exact ((k, v) # hs) s'"
proof -
  have i: "invar s" using e by (simp add: exact_def)
  have "lookup s' = (lookup s)(k \<mapsto> (v, int (count_list hs (k, v)) + 1))"
  proof (cases "lookup s k")
    case None
    then have "count_list hs (k, v) = 0" using exact_none [OF e] by (simp add: count_list_0_iff)
    then show ?thesis using acquire_new [OF i None, of v] a by auto
  next
    case (Some p)
    then obtain w n where p: "lookup s k = Some (w, n)" by (cases p) auto
    then have "w = v" using acquire_other [OF i p, of v] a by auto
    then show ?thesis using acquire_more [OF i, of k v n] p a e by (auto simp: exact_def)
  qed
  moreover have "w = v" if "(k, w) \<in> set hs" for w
    using acquire_refused [OF e, of k v] a that by auto
  ultimately show ?thesis using i' e by (auto simp: exact_def)
qed

lemma release_exact:
  assumes e: "exact hs s" and h: "(k, v) \<in> set hs" and i': "invar (release k v s)"
  shows "exact (remove1 (k, v) hs) (release k v s)"
proof -
  have i: "invar s" using e by (simp add: exact_def)
  define n where "n = count_list hs (k, v)"
  have n: "0 < n" using h by (simp add: n_def count_list_pos)
  have l: "lookup (release k v s) = (lookup s)(k := if int n = 1 then None else Some (v, int n - 1))"
    using release_law [OF i exact_lookup [OF e h]] by (simp add: n_def)
  have c: "count_list (remove1 (k, v) hs) x = count_list hs x - (if x = (k, v) then 1 else 0)" for x
    by (rule count_list_remove1 [OF h])
  have m: "x \<in> set (remove1 (k, v) hs) \<longleftrightarrow> (if x = (k, v) then n \<noteq> 1 else x \<in> set hs)" for x
    using c [of x] n h by (auto simp: n_def simp flip: count_list_pos)
  have "lookup (release k v s) k' = Some (w, p) \<longleftrightarrow> p = int (count_list (remove1 (k, v) hs) (k', w)) \<and> (k', w) \<in> set (remove1 (k, v) hs)" for k' w p
  proof (cases "k' = k")
    case True
    have "(k, w) \<in> set hs \<Longrightarrow> w = v" using exact_same [OF e h] by blast
    then show ?thesis using n True by (auto simp: l m c n_def split: if_splits)
  next
    case False
    then show ?thesis using e by (simp add: l m c exact_def)
  qed
  then show ?thesis using i' by (simp add: exact_def)
qed

end

section \<open>The three tables are lease tables\<close>

definition key_lookup :: "BindLeases \<Rightarrow> addrPort \<Rightarrow> (obfsKey \<times> int) option" where
  "key_lookup b e = map_option (\<lambda>l. (kl_key l, kl_refs l)) (map_of (bl_obfsDynamic b) e)"

definition policy_lookup :: "BindLeases \<Rightarrow> addrPort \<Rightarrow> (string \<times> int) option" where
  "policy_lookup b e = map_option (\<lambda>l. (fl_policy l, fl_refs l)) (map_of (bl_fecPolicies b) e)"

definition receive_lookup :: "BindLeases \<Rightarrow> obfsKey \<Rightarrow> (unit \<times> int) option" where
  "receive_lookup b k = map_option (\<lambda>l. ((), rl_refs l)) (map_of (bl_obfsReceive b) k)"

definition counts_pos :: "('k \<Rightarrow> ('v \<times> int) option) \<Rightarrow> bool" where
  "counts_pos f \<longleftrightarrow> (\<forall>k v n. f k = Some (v, n) \<longrightarrow> 0 < n)"

definition right_of :: "'e + 'a \<Rightarrow> 'a option" where
  "right_of r = (case r of Inl _ \<Rightarrow> None | Inr x \<Rightarrow> Some x)"

lemma right_of_simps [simp]: "right_of (Inl e) = None" "right_of (Inr x) = Some x"
  by (simp_all add: right_of_def)

lemma on_conn_fields [simp]:
  "bl_obfsResolved (on_conn f b) = bl_obfsResolved b" "bl_obfsDynamic (on_conn f b) = bl_obfsDynamic b"
  "bl_obfsReceive (on_conn f b) = bl_obfsReceive b" "bl_fecPolicies (on_conn f b) = bl_fecPolicies b"
  "bl_carrier (on_conn f b) = map_option (map_option f) (bl_carrier b)"
  by (simp_all add: on_conn_def)

lemma apply_policy_fields [simp]:
  "bl_obfsResolved (applyEndpointFECPolicy e p b) = bl_obfsResolved b" "bl_obfsDynamic (applyEndpointFECPolicy e p b) = bl_obfsDynamic b"
  "bl_obfsReceive (applyEndpointFECPolicy e p b) = bl_obfsReceive b" "bl_fecPolicies (applyEndpointFECPolicy e p b) = bl_fecPolicies b"
  "bl_carrier (applyEndpointFECPolicy e p b) = bl_carrier b"
  "bl_obfsResolved (update_session i p b) = bl_obfsResolved b" "bl_obfsDynamic (update_session i p b) = bl_obfsDynamic b"
  "bl_obfsReceive (update_session i p b) = bl_obfsReceive b" "bl_fecPolicies (update_session i p b) = bl_fecPolicies b"
  "bl_carrier (update_session i p b) = bl_carrier b"
  by (auto simp: applyEndpointFECPolicy_def update_session_def Let_def split: option.splits)

lemma lookup_cong:
  "bl_obfsDynamic b = bl_obfsDynamic b' \<Longrightarrow> key_lookup b = key_lookup b'"
  "bl_fecPolicies b = bl_fecPolicies b' \<Longrightarrow> policy_lookup b = policy_lookup b'"
  "bl_obfsReceive b = bl_obfsReceive b' \<Longrightarrow> receive_lookup b = receive_lookup b'"
  by (simp_all add: fun_eq_iff key_lookup_def policy_lookup_def receive_lookup_def)

lemmas lookup_defs = key_lookup_def policy_lookup_def receive_lookup_def

lemma counts_posD: "counts_pos f \<Longrightarrow> f k = Some (v, n) \<Longrightarrow> 0 < n"
  by (simp add: counts_pos_def)

interpretation lk: counted_lease key_lookup "\<lambda>e k b. right_of (acquireKeyLocked e k b)" releaseEndpointKey "\<lambda>b. counts_pos (key_lookup b)"
proof (unfold_locales, goal_cases)
  case (5 s k v n)
  then have "0 < n" by (rule counts_posD)
  then show ?case using 5(2)
    by (auto simp: key_lookup_def releaseEndpointKey_def gomap_lookup_update gomap_lookup_delete fun_eq_iff)
qed (auto simp: counts_posD key_lookup_def acquireKeyLocked_def gomap_lookup_update fun_eq_iff split: option.splits)

interpretation lp: counted_lease policy_lookup "\<lambda>e p b. right_of (acquirePolicyLocked e p b)" endpointFECPolicyRelease "\<lambda>b. counts_pos (policy_lookup b)"
  by unfold_locales
    (fastforce simp: counts_pos_def policy_lookup_def acquirePolicyLocked_def endpointFECPolicyRelease_def policy_lease_def Let_def
      gomap_lookup_update gomap_lookup_delete fun_eq_iff split: option.splits)+

interpretation lr: counted_lease receive_lookup "\<lambda>k (u :: unit) b. Some (acquireReceive k b)" "\<lambda>k u b. fst (releaseReceive k b)" "\<lambda>b. counts_pos (receive_lookup b)"
proof (unfold_locales, goal_cases)
  case (5 s k v n)
  then have "0 < n" by (rule counts_posD)
  then show ?case using 5(2)
    by (auto simp: receive_lookup_def releaseReceive_def Let_def gomap_lookup_update gomap_lookup_delete fun_eq_iff)
qed (auto simp: counts_posD receive_lookup_def acquireReceive_def Let_def gomap_lookup_update fun_eq_iff split: option.splits)

context counted_lease
begin

lemma acquire_upd: "invar s \<Longrightarrow> acquire k v s = Some s' \<Longrightarrow> \<exists>n>0. lookup s' = (lookup s)(k \<mapsto> (v, n))"
proof (cases "lookup s k")
  case (Some p)
  assume i: "invar s" and a: "acquire k v s = Some s'"
  obtain w n where p: "lookup s k = Some (w, n)" using Some by (cases p) auto
  then have "w = v" using acquire_other [OF i p, of v] a by auto
  then have "lookup s' = (lookup s)(k \<mapsto> (v, n + 1))" using acquire_more [OF i, of k v n] p a by auto
  then show ?thesis using lookup_pos [OF i p] by (intro exI [of _ "n + 1"]) simp
next
  case None
  assume i: "invar s" and a: "acquire k v s = Some s'"
  have "lookup s' = (lookup s)(k \<mapsto> (v, 1))" using acquire_new [OF i None, of v] a by auto
  then show ?thesis by (intro exI [of _ 1]) simp
qed

lemma release_upd: "invar s \<Longrightarrow> lookup s k = Some (v, m) \<Longrightarrow>
  lookup (release k v s) = (lookup s)(k := None) \<or> (\<exists>n>0. lookup (release k v s) = (lookup s)(k \<mapsto> (v, n)))"
  using release_law [of s k v m] lookup_pos [of s k v m]
  by (cases "m = 1") (simp_all, intro disjI2 exI [of _ "m - 1"], simp)

end

lemma counts_pos_upd: "counts_pos f \<Longrightarrow> 0 < n \<Longrightarrow> counts_pos (f(k \<mapsto> (v, n)))" "counts_pos f \<Longrightarrow> counts_pos (f(k := None))"
  by (auto simp: counts_pos_def)

lemma key_exact_acquire:
  assumes "lk.exact hs b" "acquireKeyLocked e k b = Inr b'"
  shows "lk.exact ((e, k) # hs) b'"
proof (rule lk.acquire_exact [OF assms(1)])
  show a: "right_of (acquireKeyLocked e k b) = Some b'" using assms(2) by simp
  show "counts_pos (key_lookup b')"
    using lk.acquire_upd [OF _ a] assms(1) counts_pos_upd(1) by (auto simp: lk.exact_def)
qed

lemma key_exact_release:
  assumes "lk.exact hs b" "(e, k) \<in> set hs"
  shows "lk.exact (remove1 (e, k) hs) (releaseEndpointKey e k b)"
proof (rule lk.release_exact [OF assms])
  show "counts_pos (key_lookup (releaseEndpointKey e k b))"
    using lk.release_upd [OF _ lk.exact_lookup [OF assms]] assms(1) counts_pos_upd by (auto simp: lk.exact_def)
qed

lemma policy_exact_acquire:
  assumes "lp.exact hs b" "acquirePolicyLocked e p b = Inr b'"
  shows "lp.exact ((e, p) # hs) b'"
proof (rule lp.acquire_exact [OF assms(1)])
  show a: "right_of (acquirePolicyLocked e p b) = Some b'" using assms(2) by simp
  show "counts_pos (policy_lookup b')"
    using lp.acquire_upd [OF _ a] assms(1) counts_pos_upd(1) by (auto simp: lp.exact_def)
qed

lemma policy_exact_release:
  assumes "lp.exact hs b" "(e, p) \<in> set hs"
  shows "lp.exact (remove1 (e, p) hs) (endpointFECPolicyRelease e p b)"
proof (rule lp.release_exact [OF assms])
  show "counts_pos (policy_lookup (endpointFECPolicyRelease e p b))"
    using lp.release_upd [OF _ lp.exact_lookup [OF assms]] assms(1) counts_pos_upd by (auto simp: lp.exact_def)
qed

lemma receive_exact_acquire: "lr.exact hs b \<Longrightarrow> lr.exact ((k, ()) # hs) (acquireReceive k b)"
  by (rule lr.acquire_exact [OF _ refl])
    (use lr.acquire_upd [of b k] counts_pos_upd(1) in \<open>fastforce simp: lr.exact_def\<close>)+

lemma receive_exact_release:
  assumes "lr.exact hs b" "(k, ()) \<in> set hs"
  shows "lr.exact (remove1 (k, ()) hs) (fst (releaseReceive k b))"
proof (rule lr.release_exact [OF assms])
  show "counts_pos (receive_lookup (fst (releaseReceive k b)))"
    using lr.release_upd [OF _ lr.exact_lookup [OF assms]] assms(1) counts_pos_upd by (auto simp: lr.exact_def)
qed

text \<open>A sole lease is exchanged: the token of the old policy becomes one of the new.\<close>

lemma policy_exact_replace:
  assumes e: "lp.exact hs b" and h: "(e, old) \<in> set hs" and r: "replacePolicyLocked e old new b = Inr b'"
  shows "lp.exact ((e, new) # remove1 (e, old) hs) b'"
proof -
  have "policy_lookup b e = Some (old, 1)"
    using lp.exact_lookup [OF e h] r
    by (auto simp: replacePolicyLocked_def policy_lookup_def policy_lease_def Let_def split: if_splits option.splits)
  then have one: "count_list hs (e, old) = 1" using lp.exact_lookup [OF e h] by simp
  have b': "policy_lookup b' = (policy_lookup b)(e \<mapsto> (new, 1))"
    using r by (auto simp: replacePolicyLocked_def policy_lookup_def policy_lease_def Let_def gomap_lookup_update fun_eq_iff
        split: if_splits option.splits)
  define hs' where "hs' = remove1 (e, old) hs"
  have cs: "count_list hs' x = count_list hs x - (if x = (e, old) then 1 else 0)" for x
    unfolding hs'_def by (rule count_list_remove1 [OF h])
  have zero: "count_list hs' (e, v) = 0" for v
  proof (cases "v = old")
    case False
    then have "(e, v) \<notin> set hs" using lp.exact_same [OF e h] by blast
    then show ?thesis using cs [of "(e, v)"] by (simp add: count_list_0_iff)
  qed (simp add: cs one)
  then have "(e, v) \<notin> set hs'" for v by (simp add: count_list_0_iff)
  moreover note zero
  moreover have "(k, v) \<in> set hs' \<longleftrightarrow> (k, v) \<in> set hs" if "k \<noteq> e" for k v
    using that by (simp add: hs'_def)
  moreover have "policy_lookup b k = Some (v, n) \<longleftrightarrow> n = int (count_list hs (k, v)) \<and> (k, v) \<in> set hs" for k v n
    using e unfolding lp.exact_def by blast
  ultimately have "policy_lookup b' k = Some (v, n) \<longleftrightarrow> n = int (count_list ((e, new) # hs') (k, v)) \<and> (k, v) \<in> set ((e, new) # hs')" for k v n
    using cs [of "(k, v)"] by (cases "k = e") (auto simp: b')
  moreover have "counts_pos (policy_lookup b')"
    unfolding b' by (rule counts_pos_upd(1)) (use e in \<open>simp_all add: lp.exact_def\<close>)
  ultimately show ?thesis unfolding hs'_def [symmetric] by (simp add: lp.exact_def)
qed

section \<open>Runs of a bind\<close>

text \<open>The leases granted and not yet released, and the receive keys whose closure at the open carrier is still to run.\<close>

record holders =
  ho_keys :: "(addrPort \<times> obfsKey) list"
  ho_policies :: "(addrPort \<times> string) list"
  ho_receive :: "obfsKey list"
  ho_pending :: "obfsKey list"

definition no_holders :: holders where
  "no_holders = \<lparr>ho_keys = [], ho_policies = [], ho_receive = [], ho_pending = []\<rparr>"

text \<open>What else happens to the connection: reading and writing.\<close>

inductive traffic :: "hash256 \<Rightarrow> (SalamanderConn \<Rightarrow> SalamanderConn) \<Rightarrow> bool" for H where
  traffic_decode: "traffic H (\<lambda>c. fst (decode H packet room c))"
| traffic_remember: "traffic H (remember addr key)"
| traffic_write: "traffic H (\<lambda>c. fst (WriteMsgUDP H rand payload oob addr c))"
| traffic_write_to: "traffic H (\<lambda>c. fst (WriteToUDP H r payload addr c))"

inductive lease_run :: "hash256 \<Rightarrow> BindLeases \<Rightarrow> holders \<Rightarrow> bool" for H where
  lr_new: "lease_run H newBindLeases no_holders"
| lr_key: "lease_run H b h \<Longrightarrow> AcquireEndpointKey ep key b = Inr (e, b') \<Longrightarrow>
    lease_run H b' (h\<lparr>ho_keys := (e, key) # ho_keys h\<rparr>)"
| lr_key_release: "lease_run H b h \<Longrightarrow> (e, key) \<in> set (ho_keys h) \<Longrightarrow>
    lease_run H (releaseEndpointKey e key b) (h\<lparr>ho_keys := remove1 (e, key) (ho_keys h)\<rparr>)"
| lr_policy: "lease_run H b h \<Longrightarrow> AcquireEndpointFECPolicy ep policy b = Inr (token, b') \<Longrightarrow>
    lease_run H b' (h\<lparr>ho_policies := token # ho_policies h\<rparr>)"
| lr_replace: "lease_run H b h \<Longrightarrow> ReplaceEndpointFECPolicy ep old new b = Inr ((e, new'), b') \<Longrightarrow>
    normalizeFECPolicy old = Inr old' \<Longrightarrow> (e, old') \<in> set (ho_policies h) \<Longrightarrow>
    lease_run H b' (h\<lparr>ho_policies := (e, new') # remove1 (e, old') (ho_policies h)\<rparr>)"
| lr_policy_release: "lease_run H b h \<Longrightarrow> (e, policy) \<in> set (ho_policies h) \<Longrightarrow>
    lease_run H (endpointFECPolicyRelease e policy b) (h\<lparr>ho_policies := remove1 (e, policy) (ho_policies h)\<rparr>)"
| lr_session_policy: "lease_run H b h \<Longrightarrow> SetAuthenticatedSessionFECPolicy sid policy b = Inr b' \<Longrightarrow> lease_run H b' h"
| lr_receive: "lease_run H b h \<Longrightarrow> lease_run H (acquireReceive key b) (h\<lparr>ho_receive := key # ho_receive h\<rparr>)"
| lr_receive_release: "lease_run H b h \<Longrightarrow> key \<in> set (ho_receive h) \<Longrightarrow> releaseReceive key b = (b', pending) \<Longrightarrow>
    lease_run H b' (h\<lparr>ho_receive := remove1 key (ho_receive h), ho_pending := (if pending then key # ho_pending h else ho_pending h)\<rparr>)"
| lr_unregister: "lease_run H b h \<Longrightarrow> key \<in> set (ho_pending h) \<Longrightarrow>
    lease_run H (on_conn (releaseReceiveKey key) b) (h\<lparr>ho_pending := remove1 key (ho_pending h)\<rparr>)"
| lr_open: "lease_run H b h \<Longrightarrow> Bind_Open opened salamander obfsKeys b = Inr b' \<Longrightarrow> lease_run H b' h"
| lr_close: "lease_run H b h \<Longrightarrow> lease_run H (Bind_Close b) (h\<lparr>ho_pending := []\<rparr>)"
| lr_traffic: "lease_run H b h \<Longrightarrow> traffic H f \<Longrightarrow> lease_run H (on_conn f b) h"
| lr_sessions: "lease_run H b h \<Longrightarrow> lease_run H (b\<lparr>bl_endpoints := E, bl_sessions := S\<rparr>) h"

declare split_paired_All [simp del] split_paired_Ex [simp del]

definition endpoints_ok :: "BindLeases \<Rightarrow> bool" where
  "endpoints_ok b \<longleftrightarrow> gomap_ok (bl_obfsResolved b)
     \<and> (\<forall>e. map_of (bl_obfsResolved b) e = map_option kl_key (map_of (bl_obfsDynamic b) e))
     \<and> (\<forall>e k. map_of (bl_obfsResolved b) e = Some k \<longrightarrow> AddrPort_IsValid e \<and> canonicalAddrPort e = e)"

definition conn_good :: "hash256 \<Rightarrow> SalamanderConn \<Rightarrow> obfsKey multiset \<Rightarrow> (addrPort \<Rightarrow> obfsKey option) \<Rightarrow> bool" where
  "conn_good H c R m \<longleftrightarrow> (\<exists>peers ls. conn_run H peers c ls \<and> mset ls = R) \<and> map_of (sc_outbound c) = m"

definition conn_ok :: "hash256 \<Rightarrow> obfsKey list \<Rightarrow> BindLeases \<Rightarrow> bool" where
  "conn_ok H pending b \<longleftrightarrow> gomap_ok (bl_obfsReceive b)
     \<and> (\<forall>k l. map_of (bl_obfsReceive b) k = Some l \<longrightarrow> rl_release l = (bl_carrier b \<noteq> None))
     \<and> (bl_carrier b = None \<longrightarrow> pending = [])
     \<and> (\<forall>c. bl_carrier b = Some (Some c) \<longrightarrow>
          conn_good H c (mset (keys (bl_obfsReceive b)) + mset pending) (map_of (bl_obfsResolved b)))"

definition lease_ok :: "hash256 \<Rightarrow> BindLeases \<Rightarrow> holders \<Rightarrow> bool" where
  "lease_ok H b h \<longleftrightarrow> lk.exact (ho_keys h) b \<and> lp.exact (ho_policies h) b \<and> lr.exact (map (\<lambda>k. (k, ())) (ho_receive h)) b
     \<and> endpoints_ok b \<and> conn_ok H (ho_pending h) b"

lemma exact_cong:
  "bl_obfsDynamic b' = bl_obfsDynamic b \<Longrightarrow> lk.exact hs b' = lk.exact hs b"
  "bl_fecPolicies b' = bl_fecPolicies b \<Longrightarrow> lp.exact ps b' = lp.exact ps b"
  "bl_obfsReceive b' = bl_obfsReceive b \<Longrightarrow> lr.exact rs b' = lr.exact rs b"
  using lookup_cong [of b' b] by (simp_all add: lk.exact_def lp.exact_def lr.exact_def)

lemma traffic_outbound: "traffic H f \<Longrightarrow> sc_outbound (f c) = sc_outbound c"
  by (induction rule: traffic.induct)
    (auto simp: decode_def decode_with_def remember_def WriteMsgUDP_def WriteToUDP_def Let_def split: option.splits sum.splits prod.splits)

lemma traffic_run: "traffic H f \<Longrightarrow> conn_run H peers c ls \<Longrightarrow> conn_run H peers (f c) ls"
  by (induction rule: traffic.induct) (auto intro: conn_run.intros)

lemma receive_key_outbound:
  "sc_outbound (acquireReceiveKey key c) = sc_outbound c" "sc_outbound (releaseReceiveKey key c) = sc_outbound c"
  by (auto simp: acquireReceiveKey_def releaseReceiveKey_def addReceiveKeyLocked_def publishReceiveKeysLocked_def Let_def split: option.splits)

lemma conn_good_associate:
  "conn_good H c R m \<Longrightarrow> AddrPort_IsValid e \<Longrightarrow> canonicalAddrPort e = e \<Longrightarrow> conn_good H (AssociateEndpoint e k c) R (m(e \<mapsto> k))"
  unfolding conn_good_def using run_associate [of H _ c _ e k]
  by (auto simp: AssociateEndpoint_def gomap_lookup_update fun_eq_iff)

lemma conn_good_disassociate:
  "conn_good H c R m \<Longrightarrow> AddrPort_IsValid e \<Longrightarrow> canonicalAddrPort e = e \<Longrightarrow> m e = Some k \<Longrightarrow>
   conn_good H (DisassociateEndpoint e k c) R (m(e := None))"
  unfolding conn_good_def using run_disassociate [of H _ c _ e k]
  by (auto simp: DisassociateEndpoint_def gomap_lookup_delete fun_eq_iff)

lemma conn_good_acquire: "conn_good H c R m \<Longrightarrow> conn_good H (acquireReceiveKey k c) (add_mset k R) m"
  unfolding conn_good_def using run_acquire [of H _ c _ k] by (fastforce simp: receive_key_outbound)

lemma conn_good_release: "conn_good H c R m \<Longrightarrow> k \<in># R \<Longrightarrow> conn_good H (releaseReceiveKey k c) (R - {#k#}) m"
  unfolding conn_good_def using run_release [of H _ c _ k] by (fastforce simp: receive_key_outbound)

lemma conn_good_traffic: "conn_good H c R m \<Longrightarrow> traffic H f \<Longrightarrow> conn_good H (f c) R m"
  unfolding conn_good_def using traffic_run traffic_outbound by metis

text \<open>Policies do not touch keys.\<close>

lemma policy_frame:
  assumes "bl_obfsResolved b' = bl_obfsResolved b" "bl_obfsDynamic b' = bl_obfsDynamic b" "bl_obfsReceive b' = bl_obfsReceive b"
    "bl_carrier b' = bl_carrier b" "lease_ok H b h" "lp.exact ps b'"
  shows "lease_ok H b' (h\<lparr>ho_policies := ps\<rparr>)"
  using assms exact_cong(1) [OF assms(2), of "ho_keys h"] exact_cong(3) [OF assms(3)]
  by (simp add: lease_ok_def endpoints_ok_def conn_ok_def)

lemma key_acquire_ok:
  assumes ok: "lease_ok H b h" and a: "acquireKeyLocked e key b = Inr b'" and e: "AddrPort_IsValid e" "canonicalAddrPort e = e"
  shows "lease_ok H b' (h\<lparr>ho_keys := (e, key) # ho_keys h\<rparr>)"
proof -
  obtain lease where b': "b' = on_conn (AssociateEndpoint e key) (b\<lparr>bl_obfsDynamic := AList.update e lease (bl_obfsDynamic b),
      bl_obfsResolved := AList.update e key (bl_obfsResolved b)\<rparr>)" "kl_key lease = key"
    using a by (auto simp: acquireKeyLocked_def Let_def split: if_splits option.splits prod.splits)
  have m: "map_of (bl_obfsResolved b') = (map_of (bl_obfsResolved b))(e \<mapsto> key)"
    by (simp add: b' gomap_lookup_update fun_eq_iff)
  have "lk.exact ((e, key) # ho_keys h) b'" using key_exact_acquire [OF _ a] ok by (simp add: lease_ok_def)
  moreover have "endpoints_ok b'"
    using ok e by (simp add: b' lease_ok_def endpoints_ok_def gomap_lookup_update)
  moreover have "conn_ok H (ho_pending h) b'"
  proof -
    have "conn_ok H (ho_pending h) b" using ok by (simp add: lease_ok_def)
    then show ?thesis using conn_good_associate [OF _ e] unfolding conn_ok_def m by (auto simp: b')
  qed
  ultimately show ?thesis
    using ok exact_cong(2,3) [of b' b] by (simp add: b' lease_ok_def)
qed

lemma endpoint_of_holder:
  assumes ok: "lease_ok H b h" and h: "(e, key) \<in> set (ho_keys h)"
  shows "\<exists>l. map_of (bl_obfsDynamic b) e = Some l \<and> kl_key l = key" "map_of (bl_obfsResolved b) e = Some key"
    "AddrPort_IsValid e" "canonicalAddrPort e = e"
proof -
  have x: "lk.exact (ho_keys h) b" and ep: "endpoints_ok b" using ok by (simp_all add: lease_ok_def)
  show l: "\<exists>l. map_of (bl_obfsDynamic b) e = Some l \<and> kl_key l = key"
    using lk.exact_lookup [OF x h] by (auto simp: key_lookup_def)
  then show res: "map_of (bl_obfsResolved b) e = Some key" using ep by (auto simp: endpoints_ok_def)
  show "AddrPort_IsValid e" "canonicalAddrPort e = e" using ep res unfolding endpoints_ok_def by blast+
qed

lemma key_release_ok:
  assumes ok: "lease_ok H b h" and h: "(e, key) \<in> set (ho_keys h)"
  shows "lease_ok H (releaseEndpointKey e key b) (h\<lparr>ho_keys := remove1 (e, key) (ho_keys h)\<rparr>)"
proof -
  define b' where "b' = releaseEndpointKey e key b"
  have x: "lk.exact (ho_keys h) b" and ep: "endpoints_ok b" and co: "conn_ok H (ho_pending h) b" using ok by (simp_all add: lease_ok_def)
  note hold = endpoint_of_holder [OF ok h]
  obtain l where l: "map_of (bl_obfsDynamic b) e = Some l" "kl_key l = key" using hold(1) by blast
  consider (more) "b' = b\<lparr>bl_obfsDynamic := AList.update e (l\<lparr>kl_refs := kl_refs l - 1\<rparr>) (bl_obfsDynamic b)\<rparr>"
    | (last) "b' = on_conn (DisassociateEndpoint e key) (b\<lparr>bl_obfsDynamic := AList.delete e (bl_obfsDynamic b),
        bl_obfsResolved := AList.delete e (bl_obfsResolved b)\<rparr>)"
    using l by (cases "1 < kl_refs l") (simp_all add: b'_def releaseEndpointKey_def Let_def)
  then have "endpoints_ok b' \<and> conn_ok H (ho_pending h) b' \<and> bl_fecPolicies b' = bl_fecPolicies b \<and> bl_obfsReceive b' = bl_obfsReceive b"
  proof cases
    case more
    have "endpoints_ok b'" using ep l unfolding endpoints_ok_def by (simp add: more gomap_lookup_update)
    then show ?thesis using co by (simp add: more conn_ok_def)
  next
    case last
    have m: "map_of (bl_obfsResolved b') = (map_of (bl_obfsResolved b))(e := None)"
      by (simp add: last gomap_lookup_delete fun_eq_iff)
    have "endpoints_ok b'" using ep unfolding endpoints_ok_def by (simp add: last gomap_lookup_delete)
    moreover have "conn_ok H (ho_pending h) b'"
      using co conn_good_disassociate [where m = "map_of (bl_obfsResolved b)", OF _ hold(3,4,2)] unfolding conn_ok_def m by (auto simp: last)
    ultimately show ?thesis by (simp add: last)
  qed
  moreover have "lk.exact (remove1 (e, key) (ho_keys h)) b'" unfolding b'_def by (rule key_exact_release [OF x h])
  ultimately show ?thesis
    unfolding b'_def [symmetric] using ok exact_cong(2,3) [of b' b] by (simp add: lease_ok_def)
qed

lemma mset_keys_update:
  "image_mset fst (mset (AList.update k v m)) = (if map_of m k = None then add_mset k (image_mset fst (mset m)) else image_mset fst (mset m))"
  by (induction m) auto

lemma mset_keys_delete:
  "gomap_ok m \<Longrightarrow> map_of m k \<noteq> None \<Longrightarrow> add_mset k (image_mset fst (mset (AList.delete k m))) = image_mset fst (mset m)"
proof (induction m)
  case (Cons p m)
  show ?case
  proof (cases "fst p = k")
    case True
    then have "k \<notin> set (keys m)" using Cons(2) by (auto simp: gomap_ok_def)
    then have "AList.delete k m = m" by (simp add: delete_id)
    then show ?thesis using True by (cases p) simp
  next
    case False
    then show ?thesis using Cons by (cases p) (auto simp: gomap_ok_def add_mset_commute)
  qed
qed simp

lemma receive_ok:
  assumes ok: "lease_ok H b h"
  shows "lease_ok H (acquireReceive key b) (h\<lparr>ho_receive := key # ho_receive h\<rparr>)"
proof -
  define b' where "b' = acquireReceive key b"
  have co: "conn_ok H (ho_pending h) b" using ok by (simp add: lease_ok_def)
  have f: "bl_obfsResolved b' = bl_obfsResolved b" "bl_obfsDynamic b' = bl_obfsDynamic b" "bl_fecPolicies b' = bl_fecPolicies b"
    by (simp_all add: b'_def acquireReceive_def Let_def split: prod.splits)
  have x: "lr.exact (map (\<lambda>k. (k, ())) (ho_receive h)) b" using ok by (simp add: lease_ok_def)
  have "lr.exact ((key, ()) # map (\<lambda>k. (k, ())) (ho_receive h)) b'"
    unfolding b'_def by (rule receive_exact_acquire [OF x])
  moreover have "conn_ok H (ho_pending h) b'"
  proof (cases "map_of (bl_obfsReceive b) key")
    case None
    have b': "bl_obfsReceive b' = AList.update key \<lparr>rl_refs = 1, rl_release = (bl_carrier b \<noteq> None)\<rparr> (bl_obfsReceive b)"
      "bl_carrier b' = map_option (map_option (acquireReceiveKey key)) (bl_carrier b)"
      using None by (auto simp: b'_def acquireReceive_def Let_def)
    show ?thesis using co None conn_good_acquire [of H _ _ _ key] unfolding conn_ok_def f b'
      by (auto simp: gomap_lookup_update mset_keys_update)
  next
    case (Some l)
    have "receive_lookup b key = Some ((), rl_refs l)" using Some by (simp add: receive_lookup_def)
    then have "0 < rl_refs l" using x counts_posD [of "receive_lookup b" key] by (simp add: lr.exact_def)
    then have b': "bl_obfsReceive b' = AList.update key (l\<lparr>rl_refs := rl_refs l + 1\<rparr>) (bl_obfsReceive b)" "bl_carrier b' = bl_carrier b"
      using Some by (auto simp: b'_def acquireReceive_def Let_def)
    show ?thesis using co Some unfolding conn_ok_def f b' by (auto simp: gomap_lookup_update mset_keys_update)
  qed
  ultimately show ?thesis
    unfolding b'_def [symmetric] using ok f exact_cong(1,2) [of b' b] by (simp add: lease_ok_def endpoints_ok_def)
qed

lemma receive_release_ok:
  assumes ok: "lease_ok H b h" and h: "key \<in> set (ho_receive h)" and r: "releaseReceive key b = (b', pending)"
  shows "lease_ok H b' (h\<lparr>ho_receive := remove1 key (ho_receive h),
    ho_pending := (if pending then key # ho_pending h else ho_pending h)\<rparr>)"
proof -
  have co: "conn_ok H (ho_pending h) b" and x: "lr.exact (map (\<lambda>k. (k, ())) (ho_receive h)) b" using ok by (simp_all add: lease_ok_def)
  have h': "(key, ()) \<in> set (map (\<lambda>k. (k, ())) (ho_receive h))" using h by auto
  obtain l where l: "map_of (bl_obfsReceive b) key = Some l" using lr.exact_lookup [OF x h'] by (auto simp: receive_lookup_def)
  have rel: "rl_release l = (bl_carrier b \<noteq> None)" using co l unfolding conn_ok_def by blast
  have f: "bl_obfsResolved b' = bl_obfsResolved b" "bl_obfsDynamic b' = bl_obfsDynamic b" "bl_fecPolicies b' = bl_fecPolicies b" "bl_carrier b' = bl_carrier b"
    using r l by (auto simp: releaseReceive_def Let_def split: if_splits)
  have "remove1 (key, ()) (map (\<lambda>k. (k, ())) ks) = map (\<lambda>k. (k, ())) (remove1 key ks)" for ks by (induction ks) auto
  then have "lr.exact (map (\<lambda>k. (k, ())) (remove1 key (ho_receive h))) b'"
    using receive_exact_release [OF x h'] r by simp
  moreover have "conn_ok H (if pending then key # ho_pending h else ho_pending h) b'"
  proof (cases "rl_refs l > 1")
    case True
    then have "b' = b\<lparr>bl_obfsReceive := AList.update key (l\<lparr>rl_refs := rl_refs l - 1\<rparr>) (bl_obfsReceive b)\<rparr>" "\<not> pending"
      using r l by (auto simp: releaseReceive_def Let_def)
    then show ?thesis using co l rel unfolding conn_ok_def by (simp add: gomap_lookup_update mset_keys_update)
  next
    case False
    then have b': "b' = b\<lparr>bl_obfsReceive := AList.delete key (bl_obfsReceive b)\<rparr>" "pending = rl_release l"
      using r l by (auto simp: releaseReceive_def Let_def)
    have g: "gomap_ok (bl_obfsReceive b)" using co by (simp add: conn_ok_def)
    have "image_mset fst (mset (bl_obfsReceive b)) = add_mset key (image_mset fst (mset (AList.delete key (bl_obfsReceive b))))"
      using mset_keys_delete [OF g, of key] l by simp
    then show ?thesis using co rel unfolding conn_ok_def b' by (auto simp: gomap_lookup_delete)
  qed
  ultimately show ?thesis
    using ok f exact_cong(1,2) [of b' b] by (simp add: lease_ok_def endpoints_ok_def)
qed

lemma unregister_ok:
  assumes ok: "lease_ok H b h" and h: "key \<in> set (ho_pending h)"
  shows "lease_ok H (on_conn (releaseReceiveKey key) b) (h\<lparr>ho_pending := remove1 key (ho_pending h)\<rparr>)"
proof -
  have co: "conn_ok H (ho_pending h) b" using ok by (simp add: lease_ok_def)
  define R where "R = image_mset fst (mset (bl_obfsReceive b))"
  have "key \<in># R + mset (ho_pending h)" "R + mset (ho_pending h) - {#key#} = R + mset (remove1 key (ho_pending h))"
    using h by auto
  then have "conn_ok H (remove1 key (ho_pending h)) (on_conn (releaseReceiveKey key) b)"
    using co h conn_good_release [of H _ "R + mset (ho_pending h)" _ key] unfolding conn_ok_def by (auto simp: R_def)
  then show ?thesis
    using ok exact_cong [of "on_conn (releaseReceiveKey key) b" b] by (simp add: lease_ok_def endpoints_ok_def)
qed

lemma traffic_ok:
  assumes ok: "lease_ok H b h" and t: "traffic H f"
  shows "lease_ok H (on_conn f b) h"
proof -
  have "conn_ok H (ho_pending h) b" using ok by (simp add: lease_ok_def)
  then have "conn_ok H (ho_pending h) (on_conn f b)"
    using conn_good_traffic [OF _ t] unfolding conn_ok_def by auto
  then show ?thesis
    using ok exact_cong [of "on_conn f b" b] by (simp add: lease_ok_def endpoints_ok_def)
qed

lemma wrap_outbound:
  "sc_outbound (snd (fold wrap_peer ps (seen, c))) =
     fold (\<lambda>p m. if AddrPort_IsValid (pk_Endpoint p) then AList.update (canonicalAddrPort (pk_Endpoint p)) (pk_Key p) m else m) ps (sc_outbound c)"
proof (induction ps arbitrary: seen c)
  case (Cons p ps)
  obtain seen' c' where w: "wrap_peer p (seen, c) = (seen', c')" by force
  then have "sc_outbound c' = (if AddrPort_IsValid (pk_Endpoint p)
      then AList.update (canonicalAddrPort (pk_Endpoint p)) (pk_Key p) (sc_outbound c) else sc_outbound c)"
    by (auto simp: wrap_peer_def addReceiveKeyLocked_def Let_def split: if_splits)
  then show ?case using Cons w by simp
qed simp

lemma fold_update_lookup:
  assumes "gomap_ok xs"
  shows "map_of (fold (\<lambda>(k, v) m. AList.update k v m) xs m) = map_of m ++ map_of xs"
  using assms
proof (induction xs arbitrary: m)
  case (Cons p xs)
  obtain k v where p: "p = (k, v)" by force
  have "gomap_ok xs" "k \<notin> dom (map_of xs)" using Cons(2) by (auto simp: p gomap_ok_def dom_map_of_conv_image_fst)
  then show ?case using Cons(1) by (auto simp: p update_conv' fun_eq_iff map_add_def split: option.splits)
qed simp

lemma wrap_open_peers:
  assumes "endpoints_ok b"
  shows "map_of (sc_outbound (WrapKeyedSalamander (open_peers ks b))) = map_of (bl_obfsResolved b)"
proof -
  define add where "add p m = (if AddrPort_IsValid (pk_Endpoint p) then AList.update (canonicalAddrPort (pk_Endpoint p)) (pk_Key p) m else m)"
    for p :: PeerKey and m :: "(addrPort \<times> obfsKey) list"
  have static: "fold add (map (\<lambda>key. \<lparr>pk_Key = key, pk_Endpoint = (NoAddr, 0)\<rparr>) ks) m = m" for m
    by (induction ks) (simp_all add: add_def AddrPort_IsValid_def)
  have valid: "AddrPort_IsValid e \<and> canonicalAddrPort e = e" if "(e, k) \<in> set (bl_obfsResolved b)" for e k
    using assms that map_of_in_set [of "bl_obfsResolved b" e k] by (auto simp: endpoints_ok_def)
  have "fold add (map (\<lambda>(endpoint, key). \<lparr>pk_Key = key, pk_Endpoint = endpoint\<rparr>) xs) m = fold (\<lambda>(k, v) m. AList.update k v m) xs m"
    if "set xs \<subseteq> set (bl_obfsResolved b)" for xs m
    using that by (induction xs arbitrary: m) (auto simp: add_def valid)
  then have "fold add (open_peers ks b) [] = fold (\<lambda>(k, v) m. AList.update k v m) (bl_obfsResolved b) []"
    by (simp add: open_peers_def static)
  moreover have "sc_outbound (WrapKeyedSalamander ps) = fold add ps []" for ps
    using wrap_outbound [of ps "[]" emptyConn]
    by (simp add: WrapKeyedSalamander_def publishReceiveKeysLocked_def add_def [abs_def] emptyConn_def)
  ultimately have "sc_outbound (WrapKeyedSalamander (open_peers ks b)) = fold (\<lambda>(k, v) m. AList.update k v m) (bl_obfsResolved b) []"
    by simp
  then show ?thesis using assms by (simp add: fold_update_lookup endpoints_ok_def)
qed

lemma fold_on_conn: "fold (\<lambda>key b. on_conn (f key) b) ks b = on_conn (fold f ks) b"
proof (induction ks arbitrary: b)
  case Nil
  have "map_option (map_option (\<lambda>c. c)) x = x" for x :: "SalamanderConn option option" by (simp add: option.map_id0 [unfolded id_def])
  then show ?case by (simp add: on_conn_def)
next
  case (Cons k ks)
  have "map_option (map_option (fold f ks)) (map_option (map_option (f k)) x) = map_option (map_option (fold f ks \<circ> f k)) x" for x
    by (simp add: option.map_comp comp_def)
  then show ?case using Cons by (simp add: on_conn_def comp_def)
qed

lemma conn_good_acquire_all: "conn_good H c R m \<Longrightarrow> conn_good H (fold acquireReceiveKey ks c) (R + mset ks) m"
proof (induction ks arbitrary: c R)
  case (Cons k ks)
  then show ?case using Cons(1) [OF conn_good_acquire [OF Cons(2), of k]] by simp
qed simp

lemma map_of_map_value: "map_of (map (\<lambda>(k, l). (k, g l)) m) k = map_option g (map_of m k)"
  by (induction m) auto

lemma keys_map_value: "keys (map (\<lambda>(k, l). (k, g l)) m) = keys m"
  by (induction m) auto

lemma exact_release_flag:
  "bl_obfsReceive b' = map (\<lambda>(k, l). (k, l\<lparr>rl_release := r\<rparr>)) (bl_obfsReceive b) \<Longrightarrow> lr.exact rs b' = lr.exact rs b"
proof -
  assume b': "bl_obfsReceive b' = map (\<lambda>(k, l). (k, l\<lparr>rl_release := r\<rparr>)) (bl_obfsReceive b)"
  have "receive_lookup b' = receive_lookup b"
    by (rule ext) (simp add: receive_lookup_def b' map_of_map_value option.map_comp comp_def)
  then show ?thesis by (simp add: lr.exact_def)
qed

lemma open_ok:
  assumes ok: "lease_ok H b h" and r: "Bind_Open opened salamander obfsKeys b = Inr b'"
  shows "lease_ok H b' h"
proof -
  have co: "conn_ok H (ho_pending h) b" and ep: "endpoints_ok b" using ok by (simp_all add: lease_ok_def)
  have closed: "bl_carrier b = None" using r by (auto simp: Bind_Open_def split: if_splits)
  then have pending: "ho_pending h = []" using co by (simp add: conn_ok_def)
  define conn where "conn = (if salamander then Some (WrapKeyedSalamander (open_peers obfsKeys b)) else None)"
  define ks where "ks = keys (bl_obfsReceive b)"
  have b': "b' = on_conn (fold acquireReceiveKey ks) (b\<lparr>bl_carrier := Some conn, bl_endpoints := [], bl_sessions := [],
      bl_obfsReceive := map (\<lambda>(key, l). (key, l\<lparr>rl_release := True\<rparr>)) (bl_obfsReceive b)\<rparr>)"
    using r by (simp add: Bind_Open_def Let_def fold_on_conn conn_def ks_def split: if_splits)
  have "conn_good H c (mset ks) (map_of (bl_obfsResolved b))" if "map_option (fold acquireReceiveKey ks) conn = Some c" for c
  proof -
    have "conn_good H (WrapKeyedSalamander (open_peers obfsKeys b)) {#} (map_of (bl_obfsResolved b))"
      unfolding conn_good_def using run_wrap [of H "open_peers obfsKeys b"] wrap_open_peers [OF ep] by auto
    from conn_good_acquire_all [OF this, of ks] show ?thesis using that by (auto simp: conn_def split: if_splits)
  qed
  moreover have rb: "bl_obfsReceive b' = map (\<lambda>(key, l). (key, l\<lparr>rl_release := True\<rparr>)) (bl_obfsReceive b)" by (simp add: b')
  then have "mset (keys (bl_obfsReceive b')) = mset ks" by (simp only: keys_map_value ks_def)
  moreover have "gomap_ok (bl_obfsReceive b')" using co by (simp add: b' gomap_ok_def keys_map_value conn_ok_def del: map_map)
  ultimately have "conn_ok H (ho_pending h) b'"
    unfolding conn_ok_def pending by (auto simp: b' map_of_map_value)
  then show ?thesis
    using ok exact_cong(1,2) [of b' b] exact_release_flag [of b' True b] by (simp add: b' lease_ok_def endpoints_ok_def)
qed

lemma close_ok:
  assumes ok: "lease_ok H b h"
  shows "lease_ok H (Bind_Close b) (h\<lparr>ho_pending := []\<rparr>)"
proof -
  have co: "conn_ok H (ho_pending h) b" using ok by (simp add: lease_ok_def)
  have "gomap_ok (bl_obfsReceive (Bind_Close b))" using co by (simp add: Bind_Close_def gomap_ok_def keys_map_value conn_ok_def del: map_map)
  then have "conn_ok H [] (Bind_Close b)" unfolding conn_ok_def by (auto simp: Bind_Close_def map_of_map_value)
  then show ?thesis
    using ok exact_cong(1,2) [of "Bind_Close b" b] exact_release_flag [of "Bind_Close b" False b]
    by (simp add: Bind_Close_def lease_ok_def endpoints_ok_def)
qed

lemma canonical_endpoint: "endpoint_Canonical ep = Inr e \<Longrightarrow> AddrPort_IsValid e \<and> canonicalAddrPort e = e"
  by (auto simp: endpoint_Canonical_def canonicalAddrPort_def AddrPort_IsValid_def split: if_splits)

lemma lease_run_ok: "lease_run H b h \<Longrightarrow> lease_ok H b h"
proof (induction rule: lease_run.induct)
  case lr_new
  have "key_lookup newBindLeases = Map.empty" "policy_lookup newBindLeases = Map.empty" "receive_lookup newBindLeases = Map.empty"
    by (simp_all add: fun_eq_iff lookup_defs newBindLeases_def)
  then have "lk.exact [] newBindLeases" "lp.exact [] newBindLeases" "lr.exact [] newBindLeases"
    unfolding lk.exact_def lp.exact_def lr.exact_def by (simp_all add: counts_pos_def)
  then show ?case by (simp add: lease_ok_def endpoints_ok_def conn_ok_def newBindLeases_def no_holders_def)
next
  case (lr_key b h ep key e b')
  then obtain "endpoint_Canonical ep = Inr e" "acquireKeyLocked e key b = Inr b'"
    by (auto simp: AcquireEndpointKey_def split: sum.splits)
  then show ?case using key_acquire_ok [OF lr_key(3)] canonical_endpoint by blast
next
  case (lr_policy b h ep policy token b')
  then obtain e p where "token = (e, p)" "acquirePolicyLocked e p b = Inr b'"
    by (auto simp: AcquireEndpointFECPolicy_def split: sum.splits)
  moreover from this(2) have "bl_obfsResolved b' = bl_obfsResolved b" "bl_obfsDynamic b' = bl_obfsDynamic b"
    "bl_obfsReceive b' = bl_obfsReceive b" "bl_carrier b' = bl_carrier b"
    by (auto simp: acquirePolicyLocked_def Let_def split: if_splits)
  moreover have "lp.exact (ho_policies h) b" using lr_policy(3) by (simp add: lease_ok_def)
  ultimately show ?case using policy_frame [OF _ _ _ _ lr_policy(3)] policy_exact_acquire by blast
next
  case (lr_replace b h ep old new e new' b' old')
  then have r: "replacePolicyLocked e old' new' b = Inr b'"
    by (auto simp: ReplaceEndpointFECPolicy_def split: sum.splits)
  then have "bl_obfsResolved b' = bl_obfsResolved b" "bl_obfsDynamic b' = bl_obfsDynamic b"
    "bl_obfsReceive b' = bl_obfsReceive b" "bl_carrier b' = bl_carrier b"
    by (auto simp: replacePolicyLocked_def Let_def split: if_splits)
  moreover have "lp.exact ((e, new') # remove1 (e, old') (ho_policies h)) b'"
    using policy_exact_replace [OF _ lr_replace(4) r] lr_replace(5) by (simp add: lease_ok_def)
  ultimately show ?case using policy_frame lr_replace(5) by blast
next
  case (lr_policy_release b h e policy)
  define b' where "b' = endpointFECPolicyRelease e policy b"
  have "bl_obfsResolved b' = bl_obfsResolved b" "bl_obfsDynamic b' = bl_obfsDynamic b"
    "bl_obfsReceive b' = bl_obfsReceive b" "bl_carrier b' = bl_carrier b"
    by (simp_all add: b'_def endpointFECPolicyRelease_def Let_def)
  moreover have "lp.exact (remove1 (e, policy) (ho_policies h)) b'"
    unfolding b'_def by (rule policy_exact_release [OF _ lr_policy_release(2)]) (use lr_policy_release(3) in \<open>simp add: lease_ok_def\<close>)
  ultimately show ?case unfolding b'_def [symmetric] using policy_frame lr_policy_release(3) by blast
next
  case (lr_session_policy b h sid policy b')
  then have "bl_obfsResolved b' = bl_obfsResolved b" "bl_obfsDynamic b' = bl_obfsDynamic b"
    "bl_obfsReceive b' = bl_obfsReceive b" "bl_carrier b' = bl_carrier b" "bl_fecPolicies b' = bl_fecPolicies b"
    by (auto simp: SetAuthenticatedSessionFECPolicy_def split: if_splits sum.splits)
  then show ?case using lr_session_policy(3) exact_cong [of b' b] by (simp add: lease_ok_def endpoints_ok_def conn_ok_def)
next
  case (lr_receive_release b h key b' pending)
  then show ?case by (intro receive_release_ok)
next
  case (lr_sessions b h S E)
  then show ?case using exact_cong [of "b\<lparr>bl_endpoints := E, bl_sessions := S\<rparr>" b] by (simp add: lease_ok_def endpoints_ok_def conn_ok_def)
qed (auto intro: key_release_ok receive_ok receive_release_ok unregister_ok open_ok close_ok traffic_ok)

lemma conn_good_keys:
  assumes "conn_good H c R m" "k \<in># R"
  shows "\<exists>ks. sc_keySet c = Some ks \<and> k \<in> rk_key ` set ks"
proof -
  obtain peers ls where r: "conn_run H peers c ls" and ls: "mset ls = R" using assms(1) by (auto simp: conn_good_def)
  have "k \<in> set ls" using assms(2) ls by auto
  then have "0 < held peers ls k" using count_list_pos [of ls k] by (simp add: held_def)
  then have "k \<in> set (sc_keyOrder c)" using conn_run_ok [OF r] by (simp add: keys_ok_def)
  then show ?thesis using conn_run_ok [OF r] by (auto simp: published_def image_image)
qed


definition sample_address :: addrPort where
  "sample_address = (V4 1, 443)"

definition sample_key_bind :: BindLeases where
  "sample_key_bind = (case AcquireEndpointKey sample_address [7] newBindLeases of Inl _ \<Rightarrow> newBindLeases | Inr (_, b) \<Rightarrow> b)"

definition sample_open_bind :: BindLeases where
  "sample_open_bind = (case Bind_Open True True [] sample_key_bind of Inl _ \<Rightarrow> newBindLeases | Inr b \<Rightarrow> b)"

definition sample_udp :: UDPAddr where
  "sample_udp = \<lparr>ua_IP = [0, 0, 0, 1], ua_Port = 443, ua_Zone = []\<rparr>"


end
