(* ===== verification/Sessions.thy ===== *)
theory Sessions
  imports Net_Addr
begin

text \<open>
  The life of QUIC sessions in a bind: admission (\<open>internal/bind/admission.go\<close>), creation and closing
  (\<open>session.go\<close>), configured endpoints (\<open>endpoint.go\<close>, \<open>ParseEndpoint\<close> of \<open>bind.go\<close>) and their reconnection
  (\<open>reconnect.go\<close>).  Endpoints and sessions are objects: the state maps their identifiers to records.  A session
  goroutine and a reconnect worker are program counters, and a step of the system is one critical section of the code;
  the sections of \<open>RetireEndpoint\<close> and the two of \<open>RedialEndpoint\<close> before its reconnection are taken together.  QUIC
  itself decides when a dial succeeds, when a connection is accepted and when a session ends, so these are free choices of a run.
\<close>

datatype Role = Inbound | Outbound

datatype session_pc = Dialing | Suspending | Running | Unregistering | Detaching | Rescheduling | Ended

text \<open>\<open>s_ctxDone\<close> is \<open>ctx.Err() != nil\<close>, \<open>s_conn\<close> is \<open>conn != nil\<close>; \<open>s_authentication\<close> is 0 while pending, 1 when authenticated, 2 when
  expired or closed.\<close>

record session =
  s_generation :: nat
  s_role :: Role
  s_endpoint :: nat
  s_ctxDone :: bool
  s_conn :: bool
  s_establishedAt :: "instant option"
  s_authenticatedPeers :: "(string \<times> u64) list"
  s_closed :: bool
  s_authentication :: nat
  s_pendingReceive :: int
  s_reconnectAttempt :: bool
  s_replacesSessionID :: nat
  s_closeReason :: string
  s_pc :: session_pc

text \<open>\<open>ep_route\<close> is the published pair of the fallback endpoint and \<open>configured\<close>; \<open>ep_reconnectCancel\<close> names the worker
  that the cancel function ends, by its generation.\<close>

record Endpoint =
  ep_addr :: addrPort
  ep_session :: "nat option"
  ep_route :: "(nat option \<times> bool) option"
  ep_activated :: bool
  ep_retired :: bool
  ep_reconnectScheduled :: bool
  ep_reconnectCancel :: "nat option"
  ep_reconnectGeneration :: nat
  ep_sessionGeneration :: nat
  ep_consecutiveFailures :: u32
  ep_reconnectAttempts :: u64
  ep_reconnectFailures :: u64
  ep_nextReconnect :: "instant option"
  ep_pendingReplacement :: nat

datatype worker_pc = Waiting_Timer | Fired | Checked | Retrying

record worker =
  wk_endpoint :: nat
  wk_generation :: nat
  wk_cancelled :: bool
  wk_due :: instant
  wk_pc :: worker_pc

record bindConfig =
  bc_QueueSize :: int
  bc_MaxSessions :: nat
  bc_MaxInboundSessions :: int
  bc_MaxPendingInboundSessions :: int
  bc_ReconnectMin :: duration
  bc_ReconnectMax :: duration
  bc_ReconnectStable :: duration
  bc_ReconnectJitter :: "duration \<Rightarrow> duration"

text \<open>The bind and its run state.  \<open>bd_todo\<close> lists the endpoints whose immediate reconnection a goroutine is about to schedule.\<close>

record Bind =
  bd_cfg :: bindConfig
  bd_now :: instant
  bd_endpointOf :: "nat \<Rightarrow> Endpoint"
  bd_nextEndpoint :: nat
  bd_sessionOf :: "nat \<Rightarrow> session"
  bd_nextSession :: nat
  bd_sessions :: "nat list"
  bd_endpoints :: "(addrPort \<times> nat) list"
  bd_closing :: bool
  bd_ctxDone :: bool
  bd_inboundSessions :: int
  bd_pendingInbound :: int
  bd_workers :: "worker list"
  bd_todo :: "nat list"
  bd_admissionRejected :: u64
  bd_authenticationTimeouts :: u64
  bd_activeSessions :: u64

datatype session_error = ErrNetClosed | NotDialable | EndpointRetired | AdmissionLimit

definition set_endpoint :: "nat \<Rightarrow> Endpoint \<Rightarrow> Bind \<Rightarrow> Bind" where
  "set_endpoint i e b = b\<lparr>bd_endpointOf := (bd_endpointOf b)(i := e)\<rparr>"

definition set_session :: "nat \<Rightarrow> session \<Rightarrow> Bind \<Rightarrow> Bind" where
  "set_session i s b = b\<lparr>bd_sessionOf := (bd_sessionOf b)(i := s)\<rparr>"

section \<open>Endpoints\<close>

definition currentRoute :: "Endpoint \<Rightarrow> nat option \<times> bool" where
  "currentRoute e = (case ep_route e of None \<Rightarrow> (None, False) | Some r \<Rightarrow> r)"

definition isConfigured :: "Endpoint \<Rightarrow> bool" where
  "isConfigured e = (case ep_route e of None \<Rightarrow> False | Some r \<Rightarrow> snd r)"

definition newEndpoint :: "addrPort \<Rightarrow> (nat option \<times> bool) \<Rightarrow> Endpoint" where
  "newEndpoint addr r =
     \<lparr>ep_addr = addr, ep_session = None, ep_route = Some r, ep_activated = False, ep_retired = False,
      ep_reconnectScheduled = False, ep_reconnectCancel = None, ep_reconnectGeneration = 0, ep_sessionGeneration = 0,
      ep_consecutiveFailures = 0, ep_reconnectAttempts = 0, ep_reconnectFailures = 0, ep_nextReconnect = None,
      ep_pendingReplacement = 0\<rparr>"

definition cancel_worker :: "nat \<Rightarrow> nat option \<Rightarrow> worker \<Rightarrow> worker" where
  "cancel_worker i g w = (if wk_endpoint w = i \<and> Some (wk_generation w) = g then w\<lparr>wk_cancelled := True\<rparr> else w)"

definition cancelReconnectLocked :: "nat \<Rightarrow> Bind \<Rightarrow> Bind" where
  "cancelReconnectLocked i b =
     (let e = bd_endpointOf b i;
          b = b\<lparr>bd_workers := map (cancel_worker i (ep_reconnectCancel e)) (bd_workers b)\<rparr>
      in set_endpoint i (e\<lparr>ep_reconnectGeneration := ep_reconnectGeneration e + 1, ep_reconnectScheduled := False,
             ep_reconnectCancel := None, ep_nextReconnect := None\<rparr>) b)"

text \<open>\<open>ParseEndpoint\<close> after the address was parsed; \<open>opened\<close> tells whether the bind was open, otherwise the endpoint is registered
  only when it is first dialed.\<close>

definition ParseEndpoint :: "bool \<Rightarrow> addrPort \<Rightarrow> Bind \<Rightarrow> nat \<times> Bind" where
  "ParseEndpoint opened addr b =
     (case (if opened then map_of (bd_endpoints b) addr else None) of
        Some i \<Rightarrow>
          let e = bd_endpointOf b i
          in (i, set_endpoint i (e\<lparr>ep_retired := False, ep_route := Some (None, True)\<rparr>) b)
      | None \<Rightarrow>
          let i = bd_nextEndpoint b
          in (i, (set_endpoint i (newEndpoint addr (None, True)) b)\<lparr>bd_nextEndpoint := i + 1,
                  bd_endpoints := (if opened then AList.update addr i (bd_endpoints b) else bd_endpoints b)\<rparr>))"

section \<open>Reconnection\<close>

fun backoff_loop :: "duration \<Rightarrow> duration \<Rightarrow> nat \<Rightarrow> duration" where
  "backoff_loop maximum v 0 = min v maximum"
| "backoff_loop maximum v (Suc n) = (if v \<ge> go_quot maximum 2 then maximum else backoff_loop maximum (v * 2) n)"

definition reconnectBackoff :: "duration \<Rightarrow> duration \<Rightarrow> u32 \<Rightarrow> duration" where
  "reconnectBackoff minimum maximum exponent = backoff_loop maximum minimum (unat exponent)"

definition reconnect_delay :: "Bind \<Rightarrow> Endpoint \<Rightarrow> bool \<Rightarrow> duration" where
  "reconnect_delay b e immediate =
     (if \<not> immediate \<and> ep_consecutiveFailures e > 0
      then max 0 (bc_ReconnectJitter (bd_cfg b)
             (reconnectBackoff (bc_ReconnectMin (bd_cfg b)) (bc_ReconnectMax (bd_cfg b)) (ep_consecutiveFailures e - 1)))
      else 0)"

definition scheduleEndpointReconnect :: "nat \<Rightarrow> bool \<Rightarrow> Bind \<Rightarrow> Bind" where
  "scheduleEndpointReconnect i immediate b =
     (let e = bd_endpointOf b i
      in if \<not> isConfigured e \<or> \<not> ep_activated e \<or> ep_retired e \<or> ep_session e \<noteq> None \<or> bd_ctxDone b then b
         else if ep_reconnectScheduled e \<and> \<not> immediate then b
         else let b = (if ep_reconnectScheduled e then cancelReconnectLocked i b else b);
                  e = bd_endpointOf b i;
                  delay = reconnect_delay b e immediate;
                  generation = ep_reconnectGeneration e + 1;
                  b = set_endpoint i (e\<lparr>ep_reconnectGeneration := generation, ep_reconnectScheduled := True,
                        ep_reconnectCancel := Some generation,
                        ep_nextReconnect := (if delay > 0 then Some (bd_now b + delay) else None)\<rparr>) b
              in if \<not> bd_closing b \<and> \<not> bd_ctxDone b
                 then b\<lparr>bd_workers := bd_workers b @ [\<lparr>wk_endpoint = i, wk_generation = generation, wk_cancelled = False,
                        wk_due = bd_now b + delay, wk_pc = Waiting_Timer\<rparr>]\<rparr>
                 else cancelReconnectLocked i b)"

definition hasEstablishedSession :: "addrPort \<Rightarrow> Bind \<Rightarrow> bool" where
  "hasEstablishedSession remote b =
     list_ex (\<lambda>sid. let s = bd_sessionOf b sid
                    in ep_addr (bd_endpointOf b (s_endpoint s)) = remote \<and> \<not> s_closed s \<and> \<not> s_ctxDone s \<and> s_conn s) (bd_sessions b)"

definition suspendConfiguredReconnect :: "addrPort \<Rightarrow> Bind \<Rightarrow> Bind" where
  "suspendConfiguredReconnect remote b =
     (case map_of (bd_endpoints b) remote of
        None \<Rightarrow> b
      | Some i \<Rightarrow> cancelReconnectLocked i (set_endpoint i ((bd_endpointOf b i)\<lparr>ep_consecutiveFailures := 0\<rparr>) b))"

definition resumeConfiguredReconnect :: "addrPort \<Rightarrow> Bind \<Rightarrow> Bind" where
  "resumeConfiguredReconnect remote b =
     (case map_of (bd_endpoints b) remote of None \<Rightarrow> b | Some i \<Rightarrow> scheduleEndpointReconnect i True b)"

definition setCloseCause :: "string \<Rightarrow> session \<Rightarrow> session" where
  "setCloseCause reason s =
     (if s_closeReason s \<noteq> [] \<and> s_closeReason s \<noteq> ''unknown'' then s
      else s\<lparr>s_closeReason := (if reason = [] then ''unknown'' else reason)\<rparr>)"

definition end_session :: "string \<Rightarrow> nat option \<Rightarrow> Bind \<Rightarrow> Bind" where
  "end_session reason sid b =
     (case sid of
        None \<Rightarrow> b
      | Some i \<Rightarrow> set_session i ((setCloseCause reason (bd_sessionOf b i))\<lparr>s_ctxDone := True\<rparr>) b)"

definition RetireEndpoint :: "addrPort \<Rightarrow> Bind \<Rightarrow> Bind" where
  "RetireEndpoint addr b =
     (case map_of (bd_endpoints b) addr of
        None \<Rightarrow> b
      | Some i \<Rightarrow>
          let b = b\<lparr>bd_endpoints := AList.delete addr (bd_endpoints b)\<rparr>;
              b = set_endpoint i ((bd_endpointOf b i)\<lparr>ep_retired := True, ep_activated := False\<rparr>) b;
              b = cancelReconnectLocked i b;
              e = bd_endpointOf b i;
              b = set_endpoint i (e\<lparr>ep_session := None\<rparr>) b
          in end_session ''configuration_removed'' (ep_session e) b)"

definition RedialEndpoint :: "addrPort \<Rightarrow> Bind \<Rightarrow> Bind" where
  "RedialEndpoint addr b =
     (case map_of (bd_endpoints b) addr of
        None \<Rightarrow> b
      | Some i \<Rightarrow>
          let b = cancelReconnectLocked i b;
              e = bd_endpointOf b i;
              b = set_endpoint i (e\<lparr>ep_session := None,
                    ep_pendingReplacement := (case ep_session e of None \<Rightarrow> ep_pendingReplacement e | Some sid \<Rightarrow> sid)\<rparr>) b;
              b = end_session ''endpoint_replaced'' (ep_session e) b
          in b\<lparr>bd_todo := i # bd_todo b\<rparr>)"

section \<open>Sessions\<close>

definition admitSessionLocked :: "bool \<Rightarrow> Bind \<Rightarrow> bool" where
  "admitSessionLocked inbound b \<longleftrightarrow>
     length (bd_sessions b) < bc_MaxSessions (bd_cfg b) \<and>
     (\<not> inbound \<or> (bd_inboundSessions b < bc_MaxInboundSessions (bd_cfg b)
                    \<and> bd_pendingInbound b < bc_MaxPendingInboundSessions (bd_cfg b)))"

definition newSessionLocked :: "nat \<Rightarrow> bool \<Rightarrow> session_pc \<Rightarrow> Bind \<Rightarrow> nat \<times> Bind" where
  "newSessionLocked i reconnectAttempt pc b =
     (let e = bd_endpointOf b i;
          sid = bd_nextSession b + 1;
          role = (if isConfigured e then Outbound else Inbound);
          s = \<lparr>s_generation = ep_sessionGeneration e + 1, s_role = role, s_endpoint = i, s_ctxDone = bd_ctxDone b, s_conn = False,
               s_establishedAt = None, s_authenticatedPeers = [], s_closed = False, s_authentication = 0, s_pendingReceive = 0,
               s_reconnectAttempt = reconnectAttempt, s_replacesSessionID = ep_pendingReplacement e, s_closeReason = [], s_pc = pc\<rparr>;
          b = set_endpoint i (e\<lparr>ep_sessionGeneration := ep_sessionGeneration e + 1, ep_pendingReplacement := 0, ep_session := Some sid\<rparr>) b;
          b = (if role = Inbound then b\<lparr>bd_inboundSessions := bd_inboundSessions b + 1, bd_pendingInbound := bd_pendingInbound b + 1\<rparr> else b);
          b = set_session sid s b
      in (sid, b\<lparr>bd_nextSession := sid, bd_sessions := sid # bd_sessions b, bd_activeSessions := bd_activeSessions b + 1\<rparr>))"

text \<open>The part of \<open>sessionForEndpoint\<close> after a configured endpoint has no session to reuse.\<close>

definition dialEndpoint :: "nat \<Rightarrow> bool \<Rightarrow> Bind \<Rightarrow> (session_error + nat) \<times> Bind" where
  "dialEndpoint i reconnectAttempt b =
     (let e = bd_endpointOf b i
      in if ep_retired e then (Inl EndpointRetired, b)
         else if \<not> admitSessionLocked False b then (Inl AdmissionLimit, b\<lparr>bd_admissionRejected := bd_admissionRejected b + 1\<rparr>)
         else let b = (if map_of (bd_endpoints b) (ep_addr e) = None
                       then b\<lparr>bd_endpoints := AList.update (ep_addr e) i (bd_endpoints b)\<rparr> else b);
                  b = set_endpoint i (e\<lparr>ep_activated := True,
                        ep_reconnectAttempts := ep_reconnectAttempts e + (if reconnectAttempt then 1 else 0)\<rparr>) b;
                  b = cancelReconnectLocked i b;
                  (sid, b) = newSessionLocked i reconnectAttempt Dialing b
              in (Inr sid, b))"

text \<open>\<open>sessionForEndpoint\<close>: the recursion follows the fallback of a connection-scoped endpoint; \<open>None\<close> when the fuel is used up.\<close>

fun sessionForEndpoint :: "nat \<Rightarrow> nat \<Rightarrow> bool \<Rightarrow> Bind \<Rightarrow> ((session_error + nat) \<times> Bind) option" where
  "sessionForEndpoint 0 i reconnectAttempt b = None"
| "sessionForEndpoint (Suc fuel) i reconnectAttempt b =
     (let e = bd_endpointOf b i
      in if bd_closing b \<or> bd_ctxDone b then Some (Inl ErrNetClosed, b)
         else if (case ep_session e of None \<Rightarrow> False | Some sid \<Rightarrow> \<not> s_closed (bd_sessionOf b sid))
         then Some (Inr (the (ep_session e)), b)
         else if \<not> isConfigured e
         then (case fst (currentRoute e) of
                 None \<Rightarrow> Some (Inl NotDialable, b)
               | Some fallback \<Rightarrow> sessionForEndpoint fuel fallback reconnectAttempt b)
         else Some (dialEndpoint i reconnectAttempt b))"

definition setConn :: "nat \<Rightarrow> Bind \<Rightarrow> Bind" where
  "setConn sid b =
     (let s = bd_sessionOf b sid;
          b = set_session sid (s\<lparr>s_conn := True, s_establishedAt := Some (bd_now b)\<rparr>) b;
          e = bd_endpointOf b (s_endpoint s)
      in if isConfigured e then set_endpoint (s_endpoint s) (e\<lparr>ep_nextReconnect := None\<rparr>) b else b)"

text \<open>One round of \<open>acceptLoop\<close> up to the registration and \<open>setConn\<close>; the goroutine then suspends the reconnection of
  the configured endpoint and only after that runs the session.\<close>

definition acceptSession :: "addrPort \<Rightarrow> Bind \<Rightarrow> Bind" where
  "acceptSession remote b =
     (if bd_closing b \<or> bd_ctxDone b then b
      else if \<not> admitSessionLocked True b then b\<lparr>bd_admissionRejected := bd_admissionRejected b + 1\<rparr>
      else let i = bd_nextEndpoint b;
               b = (set_endpoint i (newEndpoint remote (map_of (bd_endpoints b) remote, False)) b)\<lparr>bd_nextEndpoint := i + 1\<rparr>;
               (sid, b) = newSessionLocked i False Suspending b
           in setConn sid b)"

definition set_pc :: "nat \<Rightarrow> session_pc \<Rightarrow> Bind \<Rightarrow> Bind" where
  "set_pc sid pc b = set_session sid ((bd_sessionOf b sid)\<lparr>s_pc := pc\<rparr>) b"

definition acceptSuspend :: "nat \<Rightarrow> Bind \<Rightarrow> Bind" where
  "acceptSuspend sid b =
     set_pc sid Running (suspendConfiguredReconnect (ep_addr (bd_endpointOf b (s_endpoint (bd_sessionOf b sid)))) b)"

text \<open>\<open>close\<close>, in its critical sections; \<open>closeOnce\<close> is the program counter.\<close>

definition close_begin :: "nat \<Rightarrow> Bind \<Rightarrow> Bind" where
  "close_begin sid b =
     (let s = (bd_sessionOf b sid)\<lparr>s_closed := True, s_ctxDone := True, s_pc := Unregistering\<rparr>;
          s = (if bd_closing b then setCloseCause ''local_shutdown'' s else s);
          s = s\<lparr>s_closeReason := (if s_closeReason s = [] then ''unknown'' else s_closeReason s)\<rparr>
      in set_session sid s b)"

definition close_unregister :: "nat \<Rightarrow> Bind \<Rightarrow> Bind" where
  "close_unregister sid b =
     (let s = bd_sessionOf b sid;
          b = b\<lparr>bd_sessions := remove1 sid (bd_sessions b), bd_activeSessions := bd_activeSessions b - 1\<rparr>;
          b = (if s_role s = Inbound
               then b\<lparr>bd_inboundSessions := bd_inboundSessions b - 1,
                      bd_pendingInbound := bd_pendingInbound b - (if s_authentication s = 0 then 1 else 0)\<rparr> else b);
          s = (if s_role s = Inbound then s\<lparr>s_authentication := 2\<rparr> else s)
      in set_session sid (s\<lparr>s_pc := Detaching\<rparr>) b)"

definition close_detach :: "nat \<Rightarrow> Bind \<Rightarrow> Bind" where
  "close_detach sid b =
     (let s = bd_sessionOf b sid; i = s_endpoint s; e = bd_endpointOf b i;
          configured = isConfigured e;
          b = (if ep_session e = Some sid
               then let e = e\<lparr>ep_session := None\<rparr>;
                        e = (if configured \<and> s_closeReason s \<noteq> ''local_shutdown'' \<and> s_closeReason s \<noteq> ''configuration_removed''
                             then e\<lparr>ep_pendingReplacement := sid\<rparr> else e);
                        e = (case s_establishedAt s of
                               None \<Rightarrow> e
                             | Some t \<Rightarrow>
                                 if \<not> configured then e
                                 else if bd_now b - t < bc_ReconnectStable (bd_cfg b)
                                 then e\<lparr>ep_consecutiveFailures := ep_consecutiveFailures e + 1,
                                        ep_reconnectFailures := ep_reconnectFailures e + (if s_reconnectAttempt s then 1 else 0)\<rparr>
                                 else e\<lparr>ep_consecutiveFailures := 0\<rparr>)
                    in set_endpoint i e b
               else b)
      in set_pc sid Rescheduling b)"

definition close_reschedule :: "nat \<Rightarrow> Bind \<Rightarrow> Bind" where
  "close_reschedule sid b =
     (let i = s_endpoint (bd_sessionOf b sid); e = bd_endpointOf b i
      in set_pc sid Ended (if isConfigured e then scheduleEndpointReconnect i False b else resumeConfiguredReconnect (ep_addr e) b))"

text \<open>The two outcomes of \<open>dialSession\<close>.\<close>

definition dial_failed :: "nat \<Rightarrow> string \<Rightarrow> Bind \<Rightarrow> Bind" where
  "dial_failed sid reason b =
     (let b = set_session sid (setCloseCause reason (bd_sessionOf b sid)) b;
          s = bd_sessionOf b sid; e = bd_endpointOf b (s_endpoint s);
          b = (if isConfigured e \<and> ep_session e = Some sid
               then set_endpoint (s_endpoint s) (e\<lparr>ep_consecutiveFailures := ep_consecutiveFailures e + 1,
                      ep_reconnectFailures := ep_reconnectFailures e + (if s_reconnectAttempt s then 1 else 0)\<rparr>) b
               else b)
      in close_begin sid b)"

definition dial_succeeded :: "nat \<Rightarrow> Bind \<Rightarrow> Bind" where
  "dial_succeeded sid b = set_pc sid Running (setConn sid b)"

section \<open>Admission\<close>

definition expireAuthentication :: "nat \<Rightarrow> Bind \<Rightarrow> Bind" where
  "expireAuthentication sid b =
     (let s = bd_sessionOf b sid
      in if \<not> s_closed s \<and> s_authentication s = 0
         then set_session sid (setCloseCause ''authentication_timeout'' (s\<lparr>s_authentication := 2\<rparr>))
                (b\<lparr>bd_pendingInbound := bd_pendingInbound b - 1, bd_authenticationTimeouts := bd_authenticationTimeouts b + 1\<rparr>)
         else b)"

definition AssociateSessionPeer :: "nat \<Rightarrow> string \<Rightarrow> u64 \<Rightarrow> Bind \<Rightarrow> bool \<times> Bind" where
  "AssociateSessionPeer sid publicKey endpointGeneration b =
     (if sid = 0 \<or> publicKey = [] \<or> sid \<notin> set (bd_sessions b) then (False, b)
      else let s = bd_sessionOf b sid
           in if s_closed s then (False, b)
              else let (s, b) = (if s_authentication s = 0
                                 then (s\<lparr>s_authentication := 1\<rparr>,
                                       if s_role s = Inbound then b\<lparr>bd_pendingInbound := bd_pendingInbound b - 1\<rparr> else b)
                                 else (s, b))
                   in if s_authentication s = 2 then (False, set_session sid s b)
                      else let previous = (case map_of (s_authenticatedPeers s) publicKey of None \<Rightarrow> 0 | Some g \<Rightarrow> g);
                               generation = (if endpointGeneration < previous then previous else endpointGeneration)
                           in (True, set_session sid (s\<lparr>s_authenticatedPeers := AList.update publicKey generation (s_authenticatedPeers s)\<rparr>) b))"

section \<open>Reconnect workers and the end of the bind\<close>

definition drop_worker :: "nat \<Rightarrow> Bind \<Rightarrow> Bind" where
  "drop_worker k b = b\<lparr>bd_workers := take k (bd_workers b) @ drop (Suc k) (bd_workers b)\<rparr>"

definition worker_at :: "nat \<Rightarrow> worker_pc \<Rightarrow> Bind \<Rightarrow> Bind" where
  "worker_at k pc b = b\<lparr>bd_workers := (bd_workers b)[k := (bd_workers b ! k)\<lparr>wk_pc := pc\<rparr>]\<rparr>"

text \<open>The timer of a worker fires.\<close>

definition worker_fire :: "nat \<Rightarrow> Bind \<Rightarrow> Bind" where
  "worker_fire k b =
     (let w = bd_workers b ! k; i = wk_endpoint w; e = bd_endpointOf b i
      in if ep_reconnectGeneration e \<noteq> wk_generation w \<or> \<not> ep_reconnectScheduled e then drop_worker k b
         else let b = set_endpoint i (e\<lparr>ep_reconnectScheduled := False, ep_reconnectCancel := None, ep_nextReconnect := None\<rparr>) b;
                  eligible = isConfigured e \<and> ep_activated e \<and> \<not> ep_retired e \<and> ep_session e = None
              in if \<not> eligible \<or> bd_ctxDone b then drop_worker k b else worker_at k Fired b)"

definition worker_check :: "nat \<Rightarrow> Bind \<Rightarrow> Bind" where
  "worker_check k b =
     (if hasEstablishedSession (ep_addr (bd_endpointOf b (wk_endpoint (bd_workers b ! k)))) b
      then drop_worker k b else worker_at k Checked b)"

definition worker_dial :: "nat \<Rightarrow> Bind \<Rightarrow> Bind" where
  "worker_dial k b =
     (let i = wk_endpoint (bd_workers b ! k)
      in case sessionForEndpoint 2 i True b of
           Some (Inl AdmissionLimit, b) \<Rightarrow>
             if bd_ctxDone b then drop_worker k b
             else let e = bd_endpointOf b i
                  in worker_at k Retrying (set_endpoint i (e\<lparr>ep_consecutiveFailures := ep_consecutiveFailures e + 1\<rparr>) b)
         | Some (_, b) \<Rightarrow> drop_worker k b
         | None \<Rightarrow> b)"

definition worker_retry :: "nat \<Rightarrow> Bind \<Rightarrow> Bind" where
  "worker_retry k b = scheduleEndpointReconnect (wk_endpoint (bd_workers b ! k)) False (drop_worker k b)"

definition todo_reconnect :: "nat \<Rightarrow> Bind \<Rightarrow> Bind" where
  "todo_reconnect i b = scheduleEndpointReconnect i True (b\<lparr>bd_todo := remove1 i (bd_todo b)\<rparr>)"

text \<open>\<open>Close\<close> of the bind: the sessions are cancelled under the mutex, then the context of the run state.\<close>

definition bind_close :: "Bind \<Rightarrow> Bind" where
  "bind_close b =
     b\<lparr>bd_closing := True,
       bd_sessionOf := (\<lambda>sid. if sid \<in> set (bd_sessions b)
                              then (setCloseCause ''local_shutdown'' (bd_sessionOf b sid))\<lparr>s_ctxDone := True\<rparr> else bd_sessionOf b sid)\<rparr>"

definition bind_cancel :: "Bind \<Rightarrow> Bind" where
  "bind_cancel b =
     b\<lparr>bd_ctxDone := True, bd_sessionOf := (\<lambda>sid. (bd_sessionOf b sid)\<lparr>s_ctxDone := True\<rparr>),
       bd_workers := map (\<lambda>w. w\<lparr>wk_cancelled := True\<rparr>) (bd_workers b)\<rparr>"

definition cancel_session :: "nat \<Rightarrow> Bind \<Rightarrow> Bind" where
  "cancel_session sid b = set_session sid ((bd_sessionOf b sid)\<lparr>s_ctxDone := True\<rparr>) b"

definition openBind :: "bindConfig \<Rightarrow> instant \<Rightarrow> Bind" where
  "openBind cfg now =
     \<lparr>bd_cfg = cfg, bd_now = now, bd_endpointOf = (\<lambda>_. newEndpoint (NoAddr, 0) (None, False)), bd_nextEndpoint = 0,
      bd_sessionOf = (\<lambda>_. \<lparr>s_generation = 0, s_role = Inbound, s_endpoint = 0, s_ctxDone = True, s_conn = False, s_establishedAt = None,
        s_authenticatedPeers = [], s_closed = True, s_authentication = 2, s_pendingReceive = 0, s_reconnectAttempt = False,
        s_replacesSessionID = 0, s_closeReason = [], s_pc = Ended\<rparr>), bd_nextSession = 0, bd_sessions = [], bd_endpoints = [],
      bd_closing = False, bd_ctxDone = False, bd_inboundSessions = 0, bd_pendingInbound = 0, bd_workers = [], bd_todo = [],
      bd_admissionRejected = 0, bd_authenticationTimeouts = 0, bd_activeSessions = 0\<rparr>"

section \<open>Runs\<close>

definition at_pc :: "nat \<Rightarrow> session_pc \<Rightarrow> Bind \<Rightarrow> bool" where
  "at_pc sid pc b \<longleftrightarrow> s_pc (bd_sessionOf b sid) = pc"

definition worker_is :: "nat \<Rightarrow> worker_pc \<Rightarrow> Bind \<Rightarrow> bool" where
  "worker_is k pc b \<longleftrightarrow> k < length (bd_workers b) \<and> wk_pc (bd_workers b ! k) = pc"

inductive bind_step :: "Bind \<Rightarrow> Bind \<Rightarrow> bool" where
  st_tick: "bd_now b \<le> t \<Longrightarrow> bind_step b (b\<lparr>bd_now := t\<rparr>)"
| st_parse: "bind_step b (snd (ParseEndpoint opened addr b))"
| st_send: "i < bd_nextEndpoint b \<Longrightarrow> sessionForEndpoint 2 i False b = Some (r, b') \<Longrightarrow> bind_step b b'"
| st_accept: "bind_step b (acceptSession remote b)"
| st_suspend: "at_pc sid Suspending b \<Longrightarrow> bind_step b (acceptSuspend sid b)"
| st_dial_failed: "at_pc sid Dialing b \<Longrightarrow> bind_step b (dial_failed sid reason b)"
| st_dial_succeeded: "at_pc sid Dialing b \<Longrightarrow> bind_step b (dial_succeeded sid b)"
| st_associate: "bind_step b (snd (AssociateSessionPeer sid publicKey generation b))"
| st_expire: "at_pc sid Running b \<Longrightarrow> s_role (bd_sessionOf b sid) = Inbound \<Longrightarrow> bind_step b (expireAuthentication sid b)"
| st_cause: "bind_step b (set_session sid (setCloseCause reason (bd_sessionOf b sid)) b)"
| st_cancel: "at_pc sid Running b \<Longrightarrow> bind_step b (cancel_session sid b)"
| st_close: "at_pc sid Running b \<Longrightarrow> bind_step b (close_begin sid b)"
| st_unregister: "at_pc sid Unregistering b \<Longrightarrow> bind_step b (close_unregister sid b)"
| st_detach: "at_pc sid Detaching b \<Longrightarrow> bind_step b (close_detach sid b)"
| st_reschedule: "at_pc sid Rescheduling b \<Longrightarrow> bind_step b (close_reschedule sid b)"
| st_retire: "bind_step b (RetireEndpoint addr b)"
| st_redial: "bind_step b (RedialEndpoint addr b)"
| st_todo: "i \<in> set (bd_todo b) \<Longrightarrow> bind_step b (todo_reconnect i b)"
| st_worker_end: "worker_is k Waiting_Timer b \<Longrightarrow> wk_cancelled (bd_workers b ! k) \<Longrightarrow> bind_step b (drop_worker k b)"
| st_worker_fire: "worker_is k Waiting_Timer b \<Longrightarrow> wk_due (bd_workers b ! k) \<le> bd_now b \<Longrightarrow> bind_step b (worker_fire k b)"
| st_worker_check: "worker_is k Fired b \<Longrightarrow> bind_step b (worker_check k b)"
| st_worker_dial: "worker_is k Checked b \<Longrightarrow> bind_step b (worker_dial k b)"
| st_worker_retry: "worker_is k Retrying b \<Longrightarrow> bind_step b (worker_retry k b)"
| st_bind_close: "bind_step b (bind_close b)"
| st_bind_cancel: "bd_closing b \<Longrightarrow> bind_step b (bind_cancel b)"

inductive bind_reach :: "bindConfig \<Rightarrow> Bind \<Rightarrow> bool" for cfg where
  reach_open: "bind_reach cfg (openBind cfg now)"
| reach_step: "bind_reach cfg b \<Longrightarrow> bind_step b b' \<Longrightarrow> bind_reach cfg b'"

section \<open>Admission accounting\<close>

lemma set_fields [simp]:
  "bd_sessionOf (set_endpoint i e b) = bd_sessionOf b" "bd_sessions (set_endpoint i e b) = bd_sessions b"
  "bd_nextSession (set_endpoint i e b) = bd_nextSession b" "bd_inboundSessions (set_endpoint i e b) = bd_inboundSessions b"
  "bd_pendingInbound (set_endpoint i e b) = bd_pendingInbound b" "bd_cfg (set_endpoint i e b) = bd_cfg b"
  "bd_endpointOf (set_endpoint i e b) = (bd_endpointOf b)(i := e)" "bd_endpoints (set_endpoint i e b) = bd_endpoints b"
  "bd_workers (set_endpoint i e b) = bd_workers b" "bd_todo (set_endpoint i e b) = bd_todo b"
  "bd_closing (set_endpoint i e b) = bd_closing b" "bd_ctxDone (set_endpoint i e b) = bd_ctxDone b"
  "bd_nextEndpoint (set_endpoint i e b) = bd_nextEndpoint b" "bd_now (set_endpoint i e b) = bd_now b"
  "bd_sessionOf (set_session j s b) = (bd_sessionOf b)(j := s)" "bd_sessions (set_session j s b) = bd_sessions b"
  "bd_nextSession (set_session j s b) = bd_nextSession b" "bd_inboundSessions (set_session j s b) = bd_inboundSessions b"
  "bd_pendingInbound (set_session j s b) = bd_pendingInbound b" "bd_cfg (set_session j s b) = bd_cfg b"
  "bd_endpointOf (set_session j s b) = bd_endpointOf b" "bd_endpoints (set_session j s b) = bd_endpoints b"
  "bd_workers (set_session j s b) = bd_workers b" "bd_todo (set_session j s b) = bd_todo b"
  "bd_closing (set_session j s b) = bd_closing b" "bd_ctxDone (set_session j s b) = bd_ctxDone b"
  "bd_nextEndpoint (set_session j s b) = bd_nextEndpoint b" "bd_now (set_session j s b) = bd_now b"
  by (simp_all add: set_endpoint_def set_session_def)

lemma cancel_fields [simp]:
  "bd_sessionOf (cancelReconnectLocked i b) = bd_sessionOf b" "bd_sessions (cancelReconnectLocked i b) = bd_sessions b"
  "bd_nextSession (cancelReconnectLocked i b) = bd_nextSession b" "bd_inboundSessions (cancelReconnectLocked i b) = bd_inboundSessions b"
  "bd_pendingInbound (cancelReconnectLocked i b) = bd_pendingInbound b" "bd_cfg (cancelReconnectLocked i b) = bd_cfg b"
  "bd_endpoints (cancelReconnectLocked i b) = bd_endpoints b" "bd_todo (cancelReconnectLocked i b) = bd_todo b"
  "bd_closing (cancelReconnectLocked i b) = bd_closing b" "bd_ctxDone (cancelReconnectLocked i b) = bd_ctxDone b"
  "bd_nextEndpoint (cancelReconnectLocked i b) = bd_nextEndpoint b" "bd_now (cancelReconnectLocked i b) = bd_now b"
  by (simp_all add: cancelReconnectLocked_def Let_def)

lemma schedule_fields [simp]:
  "bd_sessionOf (scheduleEndpointReconnect i im b) = bd_sessionOf b" "bd_sessions (scheduleEndpointReconnect i im b) = bd_sessions b"
  "bd_nextSession (scheduleEndpointReconnect i im b) = bd_nextSession b" "bd_inboundSessions (scheduleEndpointReconnect i im b) = bd_inboundSessions b"
  "bd_pendingInbound (scheduleEndpointReconnect i im b) = bd_pendingInbound b" "bd_cfg (scheduleEndpointReconnect i im b) = bd_cfg b"
  "bd_endpoints (scheduleEndpointReconnect i im b) = bd_endpoints b" "bd_todo (scheduleEndpointReconnect i im b) = bd_todo b"
  "bd_closing (scheduleEndpointReconnect i im b) = bd_closing b" "bd_ctxDone (scheduleEndpointReconnect i im b) = bd_ctxDone b"
  "bd_nextEndpoint (scheduleEndpointReconnect i im b) = bd_nextEndpoint b" "bd_now (scheduleEndpointReconnect i im b) = bd_now b"
  by (simp_all add: scheduleEndpointReconnect_def Let_def)

lemma suspend_resume_fields [simp]:
  "bd_sessionOf (suspendConfiguredReconnect a b) = bd_sessionOf b" "bd_sessions (suspendConfiguredReconnect a b) = bd_sessions b"
  "bd_nextSession (suspendConfiguredReconnect a b) = bd_nextSession b" "bd_inboundSessions (suspendConfiguredReconnect a b) = bd_inboundSessions b"
  "bd_pendingInbound (suspendConfiguredReconnect a b) = bd_pendingInbound b" "bd_cfg (suspendConfiguredReconnect a b) = bd_cfg b"
  "bd_sessionOf (resumeConfiguredReconnect a b) = bd_sessionOf b" "bd_sessions (resumeConfiguredReconnect a b) = bd_sessions b"
  "bd_nextSession (resumeConfiguredReconnect a b) = bd_nextSession b" "bd_inboundSessions (resumeConfiguredReconnect a b) = bd_inboundSessions b"
  "bd_pendingInbound (resumeConfiguredReconnect a b) = bd_pendingInbound b" "bd_cfg (resumeConfiguredReconnect a b) = bd_cfg b"
  by (simp_all add: suspendConfiguredReconnect_def resumeConfiguredReconnect_def split: option.splits)

lemma cause_fields [simp]:
  "s_role (setCloseCause r s) = s_role s" "s_authentication (setCloseCause r s) = s_authentication s"
  "s_closed (setCloseCause r s) = s_closed s" "s_pc (setCloseCause r s) = s_pc s" "s_endpoint (setCloseCause r s) = s_endpoint s"
  "s_ctxDone (setCloseCause r s) = s_ctxDone s" "s_conn (setCloseCause r s) = s_conn s"
  by (simp_all add: setCloseCause_def)

text \<open>What the accounting depends on of a session.\<close>

definition acct :: "session \<Rightarrow> Role \<times> nat \<times> bool \<times> session_pc" where
  "acct s = (s_role s, s_authentication s, s_closed s, s_pc s)"

definition live_pc :: "session_pc \<Rightarrow> bool" where
  "live_pc pc \<longleftrightarrow> pc \<in> {Dialing, Suspending, Running, Unregistering}"

definition open_pc :: "session_pc \<Rightarrow> bool" where
  "open_pc pc \<longleftrightarrow> pc \<in> {Dialing, Suspending, Running}"

definition count_sessions :: "(session \<Rightarrow> bool) \<Rightarrow> Bind \<Rightarrow> int" where
  "count_sessions P b = int (length (filter (\<lambda>sid. P (bd_sessionOf b sid)) (bd_sessions b)))"

abbreviation is_inbound :: "session \<Rightarrow> bool" where
  "is_inbound s \<equiv> s_role s = Inbound"

abbreviation is_pending :: "session \<Rightarrow> bool" where
  "is_pending s \<equiv> s_role s = Inbound \<and> s_authentication s = 0"

definition admission_ok :: "Bind \<Rightarrow> bool" where
  "admission_ok b \<longleftrightarrow> distinct (bd_sessions b)
     \<and> (\<forall>sid. s_pc (bd_sessionOf b sid) \<noteq> Ended \<longrightarrow> 0 < sid \<and> sid \<le> bd_nextSession b)
     \<and> (\<forall>sid. sid \<in> set (bd_sessions b) \<longleftrightarrow> live_pc (s_pc (bd_sessionOf b sid)))
     \<and> (\<forall>sid. s_closed (bd_sessionOf b sid) \<longleftrightarrow> \<not> open_pc (s_pc (bd_sessionOf b sid)))
     \<and> bd_inboundSessions b = count_sessions is_inbound b \<and> bd_pendingInbound b = count_sessions is_pending b"

definition within_limits :: "Bind \<Rightarrow> bool" where
  "within_limits b \<longleftrightarrow> length (bd_sessions b) \<le> bc_MaxSessions (bd_cfg b)
     \<and> (0 \<le> bc_MaxInboundSessions (bd_cfg b) \<longrightarrow> bd_inboundSessions b \<le> bc_MaxInboundSessions (bd_cfg b))
     \<and> (0 \<le> bc_MaxPendingInboundSessions (bd_cfg b) \<longrightarrow> bd_pendingInbound b \<le> bc_MaxPendingInboundSessions (bd_cfg b))"

lemma admission_cong:
  assumes "bd_sessions b' = bd_sessions b" "bd_nextSession b' = bd_nextSession b" "bd_inboundSessions b' = bd_inboundSessions b"
    "bd_pendingInbound b' = bd_pendingInbound b" "\<And>sid. acct (bd_sessionOf b' sid) = acct (bd_sessionOf b sid)"
  shows "admission_ok b' = admission_ok b"
proof -
  have "s_role (bd_sessionOf b' sid) = s_role (bd_sessionOf b sid)" "s_authentication (bd_sessionOf b' sid) = s_authentication (bd_sessionOf b sid)"
    "s_closed (bd_sessionOf b' sid) = s_closed (bd_sessionOf b sid)" "s_pc (bd_sessionOf b' sid) = s_pc (bd_sessionOf b sid)" for sid
    using assms(5) [of sid] by (simp_all add: acct_def)
  then show ?thesis using assms(1-4) by (simp add: admission_ok_def count_sessions_def)
qed

lemma count_change:
  assumes "distinct xs" "sid \<in> set xs" "\<And>x. x \<noteq> sid \<Longrightarrow> Q x = P x"
  shows "int (length (filter Q xs)) = int (length (filter P xs)) - (if P sid then 1 else 0) + (if Q sid then 1 else 0)"
proof -
  obtain us vs where xs: "xs = us @ sid # vs" using split_list [OF assms(2)] by blast
  then have "sid \<notin> set us" "sid \<notin> set vs" using assms(1) by auto
  then have "filter Q us = filter P us" "filter Q vs = filter P vs"
    by (auto intro!: filter_cong [OF refl] assms(3))
  then show ?thesis by (simp add: xs)
qed

lemma count_remove:
  assumes "distinct xs" "sid \<in> set xs"
  shows "int (length (filter P (remove1 sid xs))) = int (length (filter P xs)) - (if P sid then 1 else 0)"
proof -
  obtain us vs where "xs = us @ sid # vs" "sid \<notin> set us" using split_list_first [OF assms(2)] by blast
  then show ?thesis by (simp add: remove1_append)
qed

definition adm_inv :: "Bind \<Rightarrow> bool" where
  "adm_inv b \<longleftrightarrow> admission_ok b \<and> within_limits b"

lemma adm_inv_cong:
  assumes "adm_inv b" "bd_sessions b' = bd_sessions b" "bd_nextSession b' = bd_nextSession b" "bd_inboundSessions b' = bd_inboundSessions b"
    "bd_pendingInbound b' = bd_pendingInbound b" "bd_cfg b' = bd_cfg b" "\<And>sid. acct (bd_sessionOf b' sid) = acct (bd_sessionOf b sid)"
  shows "adm_inv b'"
  using assms admission_cong [of b' b] by (simp add: adm_inv_def within_limits_def)

text \<open>A session moves on within the registered ones.\<close>

lemma adm_inv_move:
  assumes ok: "adm_inv b" and live: "live_pc (s_pc (bd_sessionOf b sid))" "live_pc (s_pc s)" "s_role s = s_role (bd_sessionOf b sid)"
    and closed: "s_closed s \<longleftrightarrow> \<not> open_pc (s_pc s)"
    and auth: "s_authentication (bd_sessionOf b sid) = 0 \<or> s_authentication s \<noteq> 0"
    and b': "bd_sessions b' = bd_sessions b" "bd_nextSession b' = bd_nextSession b" "bd_inboundSessions b' = bd_inboundSessions b" "bd_cfg b' = bd_cfg b"
      "bd_sessionOf b' = (bd_sessionOf b)(sid := s)"
      "bd_pendingInbound b' = bd_pendingInbound b
         - (if is_inbound s \<and> s_authentication (bd_sessionOf b sid) = 0 \<and> s_authentication s \<noteq> 0 then 1 else 0)"
  shows "adm_inv b'"
proof -
  have d: "distinct (bd_sessions b)" and m: "sid \<in> set (bd_sessions b)" using ok live by (auto simp: adm_inv_def admission_ok_def)
  have "s_pc (bd_sessionOf b sid) \<noteq> Ended" using live(1) by (auto simp: live_pc_def)
  then have "count_sessions is_inbound b' = count_sessions is_inbound b" "count_sessions is_pending b' = bd_pendingInbound b'"
    using count_change [OF d m, of "\<lambda>x. is_inbound (bd_sessionOf b' x)" "\<lambda>x. is_inbound (bd_sessionOf b x)"]
      count_change [OF d m, of "\<lambda>x. is_pending (bd_sessionOf b' x)" "\<lambda>x. is_pending (bd_sessionOf b x)"] live auth ok
    by (auto simp: count_sessions_def b' adm_inv_def admission_ok_def)
  then show ?thesis using ok live closed \<open>s_pc (bd_sessionOf b sid) \<noteq> Ended\<close>
    by (auto simp: adm_inv_def admission_ok_def within_limits_def b' live_pc_def)
qed

text \<open>A session that is no longer registered moves on.\<close>

lemma adm_inv_late:
  assumes ok: "adm_inv b" and late: "s_pc (bd_sessionOf b sid) \<in> {Detaching, Rescheduling}" "s_pc s \<in> {Detaching, Rescheduling, Ended}" "s_closed s"
    and b': "bd_sessions b' = bd_sessions b" "bd_nextSession b' = bd_nextSession b" "bd_inboundSessions b' = bd_inboundSessions b" "bd_cfg b' = bd_cfg b"
      "bd_sessionOf b' = (bd_sessionOf b)(sid := s)" "bd_pendingInbound b' = bd_pendingInbound b"
  shows "adm_inv b'"
proof -
  have "sid \<notin> set (bd_sessions b)" using ok late(1) by (auto simp: adm_inv_def admission_ok_def live_pc_def)
  then have "filter (\<lambda>x. P (bd_sessionOf b' x)) (bd_sessions b) = filter (\<lambda>x. P (bd_sessionOf b x)) (bd_sessions b)" for P
    by (auto simp: b' intro!: filter_cong [OF refl])
  then have "count_sessions P b' = count_sessions P b" for P by (simp add: count_sessions_def b')
  then show ?thesis using ok late by (auto simp: adm_inv_def admission_ok_def within_limits_def b' live_pc_def open_pc_def)
qed

lemma filter_same:
  assumes "sid \<notin> set xs" "\<And>x. x \<noteq> sid \<Longrightarrow> f x = g x"
  shows "filter (\<lambda>x. P (f x)) xs = filter (\<lambda>x. P (g x)) xs"
proof (rule filter_cong [OF refl])
  fix x assume "x \<in> set xs"
  then have "x \<noteq> sid" using assms(1) by blast
  then show "P (f x) = P (g x)" using assms(2) by simp
qed

lemma adm_invD:
  assumes "adm_inv b"
  shows "distinct (bd_sessions b)" "sid \<in> set (bd_sessions b) \<longleftrightarrow> live_pc (s_pc (bd_sessionOf b sid))"
    "s_closed (bd_sessionOf b sid) \<longleftrightarrow> \<not> open_pc (s_pc (bd_sessionOf b sid))"
    "s_pc (bd_sessionOf b sid) \<noteq> Ended \<Longrightarrow> 0 < sid \<and> sid \<le> bd_nextSession b"
    "bd_inboundSessions b = count_sessions is_inbound b" "bd_pendingInbound b = count_sessions is_pending b" "within_limits b"
  using assms unfolding adm_inv_def admission_ok_def by blast+

lemma adm_invI:
  assumes "distinct (bd_sessions b)" "\<And>sid. sid \<in> set (bd_sessions b) \<longleftrightarrow> live_pc (s_pc (bd_sessionOf b sid))"
    "\<And>sid. s_closed (bd_sessionOf b sid) \<longleftrightarrow> \<not> open_pc (s_pc (bd_sessionOf b sid))"
    "\<And>sid. s_pc (bd_sessionOf b sid) \<noteq> Ended \<Longrightarrow> 0 < sid \<and> sid \<le> bd_nextSession b"
    "bd_inboundSessions b = count_sessions is_inbound b" "bd_pendingInbound b = count_sessions is_pending b" "within_limits b"
  shows "adm_inv b"
  using assms unfolding adm_inv_def admission_ok_def by blast

lemma adm_inv_unregister:
  assumes ok: "adm_inv b" and pc: "s_pc (bd_sessionOf b sid) = Unregistering"
  shows "adm_inv (close_unregister sid b)"
proof -
  define b' where "b' = close_unregister sid b"
  note inv = adm_invD [OF ok]
  have m: "sid \<in> set (bd_sessions b)" and cl: "s_closed (bd_sessionOf b sid)"
    using inv(2,3) [of sid] pc by (auto simp: live_pc_def open_pc_def)
  have b': "bd_sessions b' = remove1 sid (bd_sessions b)" "bd_nextSession b' = bd_nextSession b" "bd_cfg b' = bd_cfg b"
    "bd_inboundSessions b' = bd_inboundSessions b - (if is_inbound (bd_sessionOf b sid) then 1 else 0)"
    "bd_pendingInbound b' = bd_pendingInbound b - (if is_pending (bd_sessionOf b sid) then 1 else 0)"
    "s_pc (bd_sessionOf b' sid) = Detaching" "s_closed (bd_sessionOf b' sid)"
    using cl by (auto simp: b'_def close_unregister_def Let_def)
  have other: "bd_sessionOf b' x = bd_sessionOf b x" if "x \<noteq> sid" for x
    using that by (auto simp: b'_def close_unregister_def Let_def)
  have "sid \<notin> set (remove1 sid (bd_sessions b))" using inv(1) by simp
  then have c: "count_sessions P b' = count_sessions P b - (if P (bd_sessionOf b sid) then 1 else 0)" for P
    using count_remove [OF inv(1) m, of "\<lambda>x. P (bd_sessionOf b x)"] filter_same [of sid _ "bd_sessionOf b'" "bd_sessionOf b" P] other
    by (simp add: count_sessions_def b'(1))
  show ?thesis unfolding b'_def [symmetric]
  proof (rule adm_invI)
    show "distinct (bd_sessions b')" using inv(1) by (simp add: b')
    show "x \<in> set (bd_sessions b') \<longleftrightarrow> live_pc (s_pc (bd_sessionOf b' x))" for x
      using inv(1) inv(2) [of x] b'(6) other [of x] by (cases "x = sid") (simp_all add: b'(1) live_pc_def)
    show "s_closed (bd_sessionOf b' x) \<longleftrightarrow> \<not> open_pc (s_pc (bd_sessionOf b' x))" for x
      using inv(3) [of x] b'(6,7) other [of x] by (cases "x = sid") (simp_all add: open_pc_def)
    show "s_pc (bd_sessionOf b' x) \<noteq> Ended \<Longrightarrow> 0 < x \<and> x \<le> bd_nextSession b'" for x
      using inv(4) [of x] other [of x] pc by (cases "x = sid") (simp_all add: b'(2))
    show "bd_inboundSessions b' = count_sessions is_inbound b'" "bd_pendingInbound b' = count_sessions is_pending b'"
      using inv(5,6) by (simp_all add: c b'(4,5))
    show "within_limits b'" using inv(7) length_remove1 [of sid "bd_sessions b"]
      by (auto simp: within_limits_def b'(1,3,4,5))
  qed
qed

lemma adm_inv_new:
  assumes ok: "adm_inv b" and admit: "admitSessionLocked (\<not> isConfigured (bd_endpointOf b i)) b" and pc: "open_pc pc"
  shows "adm_inv (snd (newSessionLocked i ra pc b))"
proof -
  define b' where "b' = snd (newSessionLocked i ra pc b)"
  define sid where "sid = bd_nextSession b + 1"
  define inb where "inb = (\<not> isConfigured (bd_endpointOf b i))"
  note inv = adm_invD [OF ok]
  have ended: "s_pc (bd_sessionOf b sid) = Ended" using inv(4) [of sid] by (force simp: sid_def)
  then have n: "sid \<notin> set (bd_sessions b)" using inv(2) [of sid] by (simp add: live_pc_def)
  have b': "bd_sessions b' = sid # bd_sessions b" "bd_nextSession b' = sid" "bd_cfg b' = bd_cfg b"
    "bd_inboundSessions b' = bd_inboundSessions b + (if inb then 1 else 0)" "bd_pendingInbound b' = bd_pendingInbound b + (if inb then 1 else 0)"
    "s_pc (bd_sessionOf b' sid) = pc" "\<not> s_closed (bd_sessionOf b' sid)"
    "is_inbound (bd_sessionOf b' sid) = inb" "s_authentication (bd_sessionOf b' sid) = 0"
    by (auto simp: b'_def newSessionLocked_def Let_def sid_def inb_def)
  have other: "bd_sessionOf b' x = bd_sessionOf b x" if "x \<noteq> sid" for x
    using that by (auto simp: b'_def newSessionLocked_def Let_def sid_def)
  have c: "count_sessions P b' = count_sessions P b + (if P (bd_sessionOf b' sid) then 1 else 0)" for P
    using filter_same [OF n, of "bd_sessionOf b'" "bd_sessionOf b" P] other by (simp add: count_sessions_def b'(1))
  show ?thesis unfolding b'_def [symmetric]
  proof (rule adm_invI)
    show "distinct (bd_sessions b')" using inv(1) n by (simp add: b')
    show "x \<in> set (bd_sessions b') \<longleftrightarrow> live_pc (s_pc (bd_sessionOf b' x))" for x
      using inv(2) [of x] b'(6) pc other [of x] by (cases "x = sid") (auto simp: b'(1) live_pc_def open_pc_def)
    show "s_closed (bd_sessionOf b' x) \<longleftrightarrow> \<not> open_pc (s_pc (bd_sessionOf b' x))" for x
      using inv(3) [of x] b'(6,7) pc other [of x] by (cases "x = sid") simp_all
    show "0 < x \<and> x \<le> bd_nextSession b'" if "s_pc (bd_sessionOf b' x) \<noteq> Ended" for x
      using inv(4) [of x] other [of x] that by (cases "x = sid") (auto simp: b'(2) sid_def)
    show "bd_inboundSessions b' = count_sessions is_inbound b'" "bd_pendingInbound b' = count_sessions is_pending b'"
      using inv(5,6) by (simp_all add: c b'(4,5,8,9))
    show "within_limits b'" using inv(7) admit
      by (auto simp: within_limits_def admitSessionLocked_def b'(1,3,4,5) inb_def)
  qed
qed

lemma dialEndpoint_cases:
  assumes "dialEndpoint i ra b = (r, b')"
  obtains (rejected) "bd_sessionOf b' = bd_sessionOf b" "bd_sessions b' = bd_sessions b" "bd_nextSession b' = bd_nextSession b"
      "bd_inboundSessions b' = bd_inboundSessions b" "bd_pendingInbound b' = bd_pendingInbound b" "bd_cfg b' = bd_cfg b"
      "bd_endpointOf b' = bd_endpointOf b" "bd_workers b' = bd_workers b" "bd_todo b' = bd_todo b" "bd_endpoints b' = bd_endpoints b"
      "bd_closing b' = bd_closing b" "bd_ctxDone b' = bd_ctxDone b" "bd_nextEndpoint b' = bd_nextEndpoint b" "bd_now b' = bd_now b"
      "r = Inl EndpointRetired \<and> ep_retired (bd_endpointOf b i) \<or> r = Inl AdmissionLimit \<and> \<not> admitSessionLocked False b"
  | (dialed) b1 where "\<not> ep_retired (bd_endpointOf b i)" "admitSessionLocked False b"
      "b1 = cancelReconnectLocked i (set_endpoint i ((bd_endpointOf b i)\<lparr>ep_activated := True,
          ep_reconnectAttempts := ep_reconnectAttempts (bd_endpointOf b i) + (if ra then 1 else 0)\<rparr>)
          (if map_of (bd_endpoints b) (ep_addr (bd_endpointOf b i)) = None
           then b\<lparr>bd_endpoints := AList.update (ep_addr (bd_endpointOf b i)) i (bd_endpoints b)\<rparr> else b))"
      "b' = snd (newSessionLocked i ra Dialing b1)" "r = Inr (fst (newSessionLocked i ra Dialing b1))"
proof -
  define b1 where "b1 = cancelReconnectLocked i (set_endpoint i ((bd_endpointOf b i)\<lparr>ep_activated := True,
      ep_reconnectAttempts := ep_reconnectAttempts (bd_endpointOf b i) + (if ra then 1 else 0)\<rparr>)
      (if map_of (bd_endpoints b) (ep_addr (bd_endpointOf b i)) = None
       then b\<lparr>bd_endpoints := AList.update (ep_addr (bd_endpointOf b i)) i (bd_endpoints b)\<rparr> else b))"
  have d: "dialEndpoint i ra b = (if ep_retired (bd_endpointOf b i) then (Inl EndpointRetired, b)
       else if \<not> admitSessionLocked False b then (Inl AdmissionLimit, b\<lparr>bd_admissionRejected := bd_admissionRejected b + 1\<rparr>)
       else (Inr (fst (newSessionLocked i ra Dialing b1)), snd (newSessionLocked i ra Dialing b1)))"
    unfolding dialEndpoint_def Let_def b1_def by (simp add: split_beta)
  consider "ep_retired (bd_endpointOf b i)" | "\<not> ep_retired (bd_endpointOf b i)" "\<not> admitSessionLocked False b"
    | "\<not> ep_retired (bd_endpointOf b i)" "admitSessionLocked False b" by blast
  then show thesis
  proof cases
    case 3
    then have "r = Inr (fst (newSessionLocked i ra Dialing b1))" "b' = snd (newSessionLocked i ra Dialing b1)"
      using assms by (simp_all add: d)
    then show thesis using dialed [OF 3 b1_def] by blast
  qed (use assms rejected in \<open>auto simp: d\<close>)
qed

lemma session_isConfigured_cancel [simp]:
  "isConfigured (bd_endpointOf (cancelReconnectLocked i b) j) = isConfigured (bd_endpointOf b j)"
  "ep_addr (bd_endpointOf (cancelReconnectLocked i b) j) = ep_addr (bd_endpointOf b j)"
  "ep_session (bd_endpointOf (cancelReconnectLocked i b) j) = ep_session (bd_endpointOf b j)"
  "ep_activated (bd_endpointOf (cancelReconnectLocked i b) j) = ep_activated (bd_endpointOf b j)"
  "ep_retired (bd_endpointOf (cancelReconnectLocked i b) j) = ep_retired (bd_endpointOf b j)"
  "ep_route (bd_endpointOf (cancelReconnectLocked i b) j) = ep_route (bd_endpointOf b j)"
  by (simp_all add: cancelReconnectLocked_def Let_def isConfigured_def)

lemma adm_inv_dial:
  assumes ok: "adm_inv b" and d: "dialEndpoint i ra b = (r, b')" and conf: "isConfigured (bd_endpointOf b i)"
  shows "adm_inv b'"
  using d
proof (cases rule: dialEndpoint_cases)
  case rejected
  then show ?thesis using ok by (intro adm_inv_cong [OF ok]) simp_all
next
  case (dialed b1)
  have "adm_inv b1" unfolding dialed(3) by (rule adm_inv_cong [OF ok]) simp_all
  moreover have "isConfigured (bd_endpointOf b1 i)" using conf by (simp add: dialed(3) isConfigured_def)
  then have "admitSessionLocked (\<not> isConfigured (bd_endpointOf b1 i)) b1"
    using dialed(2) by (simp add: dialed(3) admitSessionLocked_def)
  ultimately show ?thesis unfolding dialed(4) by (intro adm_inv_new) (simp_all add: open_pc_def)
qed

lemma sessionForEndpoint_result:
  "sessionForEndpoint fuel i ra b = Some (r, b') \<Longrightarrow>
     b' = b \<or> (\<exists>j. dialEndpoint j ra b = (r, b') \<and> isConfigured (bd_endpointOf b j) \<and> \<not> bd_closing b \<and> \<not> bd_ctxDone b
                \<and> (\<forall>sid. ep_session (bd_endpointOf b j) = Some sid \<longrightarrow> s_closed (bd_sessionOf b sid)))"
proof (induction fuel i ra b rule: sessionForEndpoint.induct)
  case (2 fuel i ra b)
  show ?case
  proof (cases "bd_closing b \<or> bd_ctxDone b \<or> (case ep_session (bd_endpointOf b i) of None \<Rightarrow> False | Some sid \<Rightarrow> \<not> s_closed (bd_sessionOf b sid))")
    case True
    then show ?thesis using 2(2) by (auto simp: Let_def split: if_splits)
  next
    case False
    then show ?thesis using 2 by (auto simp: Let_def split: if_splits option.splits)
  qed
qed simp

lemma adm_inv_session_for: "adm_inv b \<Longrightarrow> sessionForEndpoint fuel i ra b = Some (r, b') \<Longrightarrow> adm_inv b'"
  using sessionForEndpoint_result adm_inv_dial by metis

lemma adm_inv_setConn: "adm_inv b \<Longrightarrow> adm_inv (setConn sid b)"
  by (rule adm_inv_cong [of b]) (auto simp: setConn_def Let_def acct_def)

lemma adm_inv_accept: "adm_inv b \<Longrightarrow> adm_inv (acceptSession remote b)"
proof -
  assume ok: "adm_inv b"
  define i where "i = bd_nextEndpoint b"
  define b1 where "b1 = (set_endpoint i (newEndpoint remote (map_of (bd_endpoints b) remote, False)) b)\<lparr>bd_nextEndpoint := i + 1\<rparr>"
  have a: "acceptSession remote b = (if bd_closing b \<or> bd_ctxDone b then b
      else if \<not> admitSessionLocked True b then b\<lparr>bd_admissionRejected := bd_admissionRejected b + 1\<rparr>
      else setConn (fst (newSessionLocked i False Suspending b1)) (snd (newSessionLocked i False Suspending b1)))"
    unfolding acceptSession_def Let_def i_def b1_def by (simp add: split_beta)
  have "adm_inv b1" unfolding b1_def by (rule adm_inv_cong [OF ok]) simp_all
  moreover have "\<not> isConfigured (bd_endpointOf b1 i)" by (simp add: b1_def newEndpoint_def isConfigured_def)
  moreover have "admitSessionLocked True b1 = admitSessionLocked True b" by (simp add: b1_def admitSessionLocked_def)
  ultimately have "admitSessionLocked True b \<Longrightarrow> adm_inv (snd (newSessionLocked i False Suspending b1))"
    by (intro adm_inv_new) (simp_all add: open_pc_def)
  then show ?thesis using ok by (auto simp: a intro: adm_inv_setConn adm_inv_cong [OF ok])
qed

lemma adm_inv_close_begin:
  assumes "adm_inv b" "open_pc (s_pc (bd_sessionOf b sid))"
  shows "adm_inv (close_begin sid b)"
  by (rule adm_inv_move [OF assms(1), of sid "bd_sessionOf (close_begin sid b) sid"])
    (use assms(2) in \<open>auto simp: close_begin_def Let_def live_pc_def open_pc_def\<close>)

lemma adm_inv_set_pc:
  assumes "adm_inv b" "open_pc (s_pc (bd_sessionOf b sid))" "open_pc pc"
  shows "adm_inv (set_pc sid pc b)"
proof -
  have "\<not> s_closed (bd_sessionOf b sid)" using adm_invD(3) [OF assms(1)] assms(2) by simp
  then show ?thesis
    by (intro adm_inv_move [OF assms(1), of sid "bd_sessionOf (set_pc sid pc b) sid"])
      (use assms(2,3) in \<open>auto simp: set_pc_def live_pc_def open_pc_def\<close>)
qed

lemma adm_inv_set_pc_late:
  assumes "adm_inv b" "s_pc (bd_sessionOf b sid) \<in> {Detaching, Rescheduling}" "pc \<in> {Rescheduling, Ended}"
  shows "adm_inv (set_pc sid pc b)"
proof -
  have "s_closed (bd_sessionOf b sid)" using adm_invD(3) [OF assms(1), of sid] assms(2) by (auto simp: open_pc_def)
  then show ?thesis
    by (intro adm_inv_late [OF assms(1), of sid "bd_sessionOf (set_pc sid pc b) sid"])
      (use assms(2,3) in \<open>auto simp: set_pc_def\<close>)
qed

lemma worker_fields [simp]:
  "bd_sessionOf (drop_worker k b) = bd_sessionOf b" "bd_sessions (drop_worker k b) = bd_sessions b"
  "bd_nextSession (drop_worker k b) = bd_nextSession b" "bd_inboundSessions (drop_worker k b) = bd_inboundSessions b"
  "bd_pendingInbound (drop_worker k b) = bd_pendingInbound b" "bd_cfg (drop_worker k b) = bd_cfg b"
  "bd_endpointOf (drop_worker k b) = bd_endpointOf b" "bd_endpoints (drop_worker k b) = bd_endpoints b"
  "bd_todo (drop_worker k b) = bd_todo b" "bd_closing (drop_worker k b) = bd_closing b" "bd_ctxDone (drop_worker k b) = bd_ctxDone b"
  "bd_nextEndpoint (drop_worker k b) = bd_nextEndpoint b" "bd_now (drop_worker k b) = bd_now b"
  "bd_sessionOf (worker_at k pc b) = bd_sessionOf b" "bd_sessions (worker_at k pc b) = bd_sessions b"
  "bd_nextSession (worker_at k pc b) = bd_nextSession b" "bd_inboundSessions (worker_at k pc b) = bd_inboundSessions b"
  "bd_pendingInbound (worker_at k pc b) = bd_pendingInbound b" "bd_cfg (worker_at k pc b) = bd_cfg b"
  "bd_endpointOf (worker_at k pc b) = bd_endpointOf b" "bd_endpoints (worker_at k pc b) = bd_endpoints b"
  "bd_todo (worker_at k pc b) = bd_todo b" "bd_closing (worker_at k pc b) = bd_closing b" "bd_ctxDone (worker_at k pc b) = bd_ctxDone b"
  "bd_nextEndpoint (worker_at k pc b) = bd_nextEndpoint b" "bd_now (worker_at k pc b) = bd_now b"
  by (simp_all add: drop_worker_def worker_at_def)

lemma worker_dial_cases:
  assumes "worker_dial k b \<noteq> b"
  obtains r b1 where "sessionForEndpoint 2 (wk_endpoint (bd_workers b ! k)) True b = Some (r, b1)"
    "worker_dial k b = drop_worker k b1 \<and> (r \<noteq> Inl AdmissionLimit \<or> bd_ctxDone b1)
     \<or> r = Inl AdmissionLimit \<and> worker_dial k b = worker_at k Retrying (set_endpoint (wk_endpoint (bd_workers b ! k))
         ((bd_endpointOf b1 (wk_endpoint (bd_workers b ! k)))\<lparr>ep_consecutiveFailures :=
            ep_consecutiveFailures (bd_endpointOf b1 (wk_endpoint (bd_workers b ! k))) + 1\<rparr>) b1)"
proof (cases "sessionForEndpoint 2 (wk_endpoint (bd_workers b ! k)) True b")
  case None
  then show ?thesis using assms by (simp add: worker_dial_def)
next
  case (Some p)
  obtain r b1 where p: "p = (r, b1)" by (cases p)
  show ?thesis
    by (rule that [of r b1]) (use Some in \<open>auto simp: p worker_dial_def Let_def split: sum.splits session_error.splits\<close>)
qed

lemma adm_inv_worker_dial:
  assumes "adm_inv b"
  shows "adm_inv (worker_dial k b)"
proof (cases "worker_dial k b = b")
  case False
  then obtain r b1 where s: "sessionForEndpoint 2 (wk_endpoint (bd_workers b ! k)) True b = Some (r, b1)"
    and d: "worker_dial k b = drop_worker k b1 \<or> (\<exists>e. worker_dial k b = worker_at k Retrying (set_endpoint (wk_endpoint (bd_workers b ! k)) e b1))"
    by (rule worker_dial_cases) blast
  have "adm_inv b1" using adm_inv_session_for [OF assms s] .
  then show ?thesis using d by (auto intro: adm_inv_cong [of b1])
qed (use assms in simp)

lemma open_live_pc: "open_pc pc \<Longrightarrow> live_pc pc"
  by (auto simp: open_pc_def live_pc_def)

lemma adm_inv_associate:
  assumes ok: "adm_inv b"
  shows "adm_inv (snd (AssociateSessionPeer sid k g b))"
proof (cases "sid = 0 \<or> k = [] \<or> sid \<notin> set (bd_sessions b) \<or> s_closed (bd_sessionOf b sid)")
  case True
  then show ?thesis using ok by (auto simp: AssociateSessionPeer_def Let_def)
next
  case False
  then have op: "open_pc (s_pc (bd_sessionOf b sid))" and c: "\<not> s_closed (bd_sessionOf b sid)"
    using adm_invD(3) [OF ok, of sid] by simp_all
  define b' where "b' = snd (AssociateSessionPeer sid k g b)"
  define s where "s = bd_sessionOf b' sid"
  have s: "s_pc s = s_pc (bd_sessionOf b sid)" "s_role s = s_role (bd_sessionOf b sid)" "\<not> s_closed s"
    "s_authentication s = (if s_authentication (bd_sessionOf b sid) = 0 then 1 else s_authentication (bd_sessionOf b sid))"
    using False by (simp_all add: s_def b'_def AssociateSessionPeer_def Let_def split_beta)
  have "adm_inv b'"
    by (rule adm_inv_move [OF ok, of sid s])
      (use False op in \<open>auto simp: s c open_live_pc\<close>, use c in \<open>simp_all add: s_def b'_def AssociateSessionPeer_def Let_def split_beta\<close>)
  then show ?thesis unfolding b'_def .
qed

lemma adm_inv_expire:
  assumes ok: "adm_inv b" and "s_pc (bd_sessionOf b sid) = Running" "is_inbound (bd_sessionOf b sid)"
  shows "adm_inv (expireAuthentication sid b)"
proof (cases "\<not> s_closed (bd_sessionOf b sid) \<and> s_authentication (bd_sessionOf b sid) = 0")
  case True
  then show ?thesis
    by (intro adm_inv_move [OF ok, of sid "bd_sessionOf (expireAuthentication sid b) sid"])
      (use assms(2,3) in \<open>simp_all add: expireAuthentication_def Let_def live_pc_def open_pc_def\<close>)
next
  case False
  then have "expireAuthentication sid b = b" unfolding expireAuthentication_def Let_def by (rule if_not_P)
  then show ?thesis using ok by simp
qed

lemma end_session_fields [simp]:
  "bd_sessions (end_session r x b) = bd_sessions b" "bd_nextSession (end_session r x b) = bd_nextSession b"
  "bd_inboundSessions (end_session r x b) = bd_inboundSessions b" "bd_pendingInbound (end_session r x b) = bd_pendingInbound b"
  "bd_cfg (end_session r x b) = bd_cfg b" "acct (bd_sessionOf (end_session r x b) sid) = acct (bd_sessionOf b sid)"
  "bd_endpointOf (end_session r x b) = bd_endpointOf b" "bd_endpoints (end_session r x b) = bd_endpoints b"
  "bd_workers (end_session r x b) = bd_workers b" "bd_todo (end_session r x b) = bd_todo b"
  "bd_closing (end_session r x b) = bd_closing b" "bd_ctxDone (end_session r x b) = bd_ctxDone b"
  "bd_nextEndpoint (end_session r x b) = bd_nextEndpoint b" "bd_now (end_session r x b) = bd_now b"
  by (auto simp: end_session_def acct_def split: option.splits)

lemma adm_inv_endpoint_ops:
  assumes "adm_inv b"
  shows "adm_inv (snd (ParseEndpoint opened addr b))" "adm_inv (RetireEndpoint addr b)" "adm_inv (RedialEndpoint addr b)"
    "adm_inv (worker_fire k b)" "adm_inv (worker_check k b)" "adm_inv (worker_retry k b)" "adm_inv (todo_reconnect i b)"
proof -
  show "adm_inv (snd (ParseEndpoint opened addr b))"
    by (rule adm_inv_cong [OF assms]) (simp_all add: ParseEndpoint_def Let_def split: option.splits)
  show "adm_inv (RetireEndpoint addr b)" "adm_inv (RedialEndpoint addr b)"
    by (rule adm_inv_cong [OF assms]; simp add: RetireEndpoint_def RedialEndpoint_def Let_def split: option.splits)+
  show "adm_inv (worker_fire k b)" "adm_inv (worker_check k b)" "adm_inv (worker_retry k b)" "adm_inv (todo_reconnect i b)"
    by (rule adm_inv_cong [OF assms]; simp add: worker_fire_def worker_check_def worker_retry_def todo_reconnect_def Let_def)+
qed

lemma adm_inv_close_steps:
  assumes ok: "adm_inv b"
  shows "s_pc (bd_sessionOf b sid) = Detaching \<Longrightarrow> adm_inv (close_detach sid b)"
    "s_pc (bd_sessionOf b sid) = Rescheduling \<Longrightarrow> adm_inv (close_reschedule sid b)"
    "s_pc (bd_sessionOf b sid) = Dialing \<Longrightarrow> adm_inv (dial_failed sid reason b)"
    "s_pc (bd_sessionOf b sid) = Dialing \<Longrightarrow> adm_inv (dial_succeeded sid b)"
    "s_pc (bd_sessionOf b sid) = Suspending \<Longrightarrow> adm_inv (acceptSuspend sid b)"
proof -
  show "adm_inv (close_detach sid b)" if "s_pc (bd_sessionOf b sid) = Detaching"
    using that unfolding close_detach_def Let_def
    by (intro adm_inv_set_pc_late) (auto intro: adm_inv_cong [OF ok])
  show "adm_inv (close_reschedule sid b)" if "s_pc (bd_sessionOf b sid) = Rescheduling"
    using that unfolding close_reschedule_def Let_def
    by (intro adm_inv_set_pc_late) (auto intro: adm_inv_cong [OF ok])
  show "adm_inv (dial_failed sid reason b)" if "s_pc (bd_sessionOf b sid) = Dialing"
    using that unfolding dial_failed_def Let_def
    by (intro adm_inv_close_begin) (auto intro!: adm_inv_cong [OF ok] simp: acct_def open_pc_def)
  have [simp]: "s_pc (bd_sessionOf (setConn sid b) sid) = s_pc (bd_sessionOf b sid)" by (simp add: setConn_def Let_def)
  show "adm_inv (dial_succeeded sid b)" if "s_pc (bd_sessionOf b sid) = Dialing"
    using that unfolding dial_succeeded_def
    by (intro adm_inv_set_pc adm_inv_setConn [OF ok]) (simp_all add: open_pc_def)
  show "adm_inv (acceptSuspend sid b)" if "s_pc (bd_sessionOf b sid) = Suspending"
    using that unfolding acceptSuspend_def
    by (intro adm_inv_set_pc) (auto intro: adm_inv_cong [OF ok] simp: open_pc_def)
qed

lemma adm_inv_cancel_steps:
  assumes "adm_inv b"
  shows "adm_inv (bind_close b)" "adm_inv (bind_cancel b)" "adm_inv (cancel_session sid b)" "adm_inv (drop_worker k b)"
    "adm_inv (set_session sid (setCloseCause reason (bd_sessionOf b sid)) b)" "adm_inv (b\<lparr>bd_now := t\<rparr>)"
  by (rule adm_inv_cong [OF assms]; simp add: bind_close_def bind_cancel_def cancel_session_def acct_def)+

lemma adm_inv_step: "bind_step b b' \<Longrightarrow> adm_inv b \<Longrightarrow> adm_inv b'"
proof (induction rule: bind_step.induct)
  case (st_send i b r b')
  then show ?case using adm_inv_session_for by blast
next
  case (st_close sid b)
  then show ?case by (intro adm_inv_close_begin) (simp_all add: at_pc_def open_pc_def)
qed (simp_all add: at_pc_def adm_inv_accept adm_inv_close_steps adm_inv_associate adm_inv_expire
    adm_inv_unregister adm_inv_endpoint_ops adm_inv_worker_dial adm_inv_cancel_steps)

lemma step_cfg: "bind_step b b' \<Longrightarrow> bd_cfg b' = bd_cfg b"
proof (induction rule: bind_step.induct)
  case (st_send i b r b')
  then show ?case using sessionForEndpoint_result [OF st_send(2)] by (auto elim!: dialEndpoint_cases simp: newSessionLocked_def Let_def)
next
  case (st_worker_dial k b)
  show ?case
  proof (cases "worker_dial k b = b")
    case False
    then obtain r b1 where s: "sessionForEndpoint 2 (wk_endpoint (bd_workers b ! k)) True b = Some (r, b1)"
      and d: "bd_cfg (worker_dial k b) = bd_cfg b1" by (rule worker_dial_cases) auto
    from sessionForEndpoint_result [OF s] show ?thesis
      by (auto simp: d elim!: dialEndpoint_cases simp: newSessionLocked_def Let_def)
  qed simp
qed (auto simp: ParseEndpoint_def acceptSession_def newSessionLocked_def setConn_def acceptSuspend_def dial_failed_def close_begin_def
    dial_succeeded_def AssociateSessionPeer_def expireAuthentication_def cancel_session_def close_unregister_def close_detach_def
    close_reschedule_def RetireEndpoint_def RedialEndpoint_def todo_reconnect_def worker_fire_def worker_check_def worker_retry_def
    bind_close_def bind_cancel_def set_pc_def Let_def split_beta split: option.splits)

lemma adm_inv_open: "adm_inv (openBind cfg now)"
  by (simp add: adm_inv_def admission_ok_def within_limits_def openBind_def live_pc_def open_pc_def count_sessions_def)

lemma adm_inv_reach: "bind_reach cfg b \<Longrightarrow> adm_inv b \<and> bd_cfg b = cfg"
  by (induction rule: bind_reach.induct) (auto simp: adm_inv_open adm_inv_step step_cfg, simp add: openBind_def)

lemma acceptSession_registers:
  "bd_sessions (acceptSession remote b) = bd_sessions b
     \<longleftrightarrow> bd_closing b \<or> bd_ctxDone b \<or> \<not> admitSessionLocked True b"
  by (auto simp: acceptSession_def newSessionLocked_def setConn_def Let_def)

text \<open>C7. In every reachable state of a bind the registry of sessions holds exactly the sessions that have not been
  unregistered, each once; the two admission counters are the numbers of registered inbound sessions and of those
  that no peer has authenticated yet, whatever the order in which sessions are accepted, authenticated, expired and closed; no limit is
  exceeded; and a connection is accepted exactly while all three limits leave room.\<close>

theorem admission_exact:
  assumes "bind_reach cfg b"
  shows "distinct (bd_sessions b)
    \<and> (\<forall>sid. sid \<in> set (bd_sessions b) \<longleftrightarrow> live_pc (s_pc (bd_sessionOf b sid)))
    \<and> bd_inboundSessions b = int (length (filter (\<lambda>sid. s_role (bd_sessionOf b sid) = Inbound) (bd_sessions b)))
    \<and> bd_pendingInbound b = int (length (filter (\<lambda>sid. s_role (bd_sessionOf b sid) = Inbound
          \<and> s_authentication (bd_sessionOf b sid) = 0) (bd_sessions b)))
    \<and> length (bd_sessions b) \<le> bc_MaxSessions cfg
    \<and> (0 \<le> bc_MaxInboundSessions cfg \<longrightarrow> bd_inboundSessions b \<le> bc_MaxInboundSessions cfg)
    \<and> (0 \<le> bc_MaxPendingInboundSessions cfg \<longrightarrow> bd_pendingInbound b \<le> bc_MaxPendingInboundSessions cfg)
    \<and> (bd_sessions (acceptSession remote b) \<noteq> bd_sessions b \<longleftrightarrow>
         \<not> bd_closing b \<and> \<not> bd_ctxDone b \<and> length (bd_sessions b) < bc_MaxSessions cfg
         \<and> bd_inboundSessions b < bc_MaxInboundSessions cfg \<and> bd_pendingInbound b < bc_MaxPendingInboundSessions cfg)"
proof -
  have inv: "adm_inv b" and cfg: "bd_cfg b = cfg" using adm_inv_reach [OF assms] by simp_all
  note inv = adm_invD [OF inv, unfolded within_limits_def cfg count_sessions_def]
  have "bd_sessions (acceptSession remote b) \<noteq> bd_sessions b \<longleftrightarrow> \<not> bd_closing b \<and> \<not> bd_ctxDone b \<and> admitSessionLocked True b"
    by (simp add: acceptSession_registers)
  then show ?thesis using inv(1,2,5,6,7) unfolding admitSessionLocked_def cfg by blast
qed

definition sample_bindConfig :: bindConfig where
  "sample_bindConfig = \<lparr>bc_QueueSize = 4, bc_MaxSessions = 4, bc_MaxInboundSessions = 2, bc_MaxPendingInboundSessions = 1,
     bc_ReconnectMin = 1, bc_ReconnectMax = 8, bc_ReconnectStable = 10, bc_ReconnectJitter = (\<lambda>d. d)\<rparr>"

definition sample_remote :: addrPort where
  "sample_remote = (NoAddr, 9)"

theorem admission_exact_witness:
  "bd_inboundSessions (acceptSession sample_remote (openBind sample_bindConfig 0)) = 1
   \<and> bd_pendingInbound (acceptSession sample_remote (openBind sample_bindConfig 0)) = 1
   \<and> bd_sessions (acceptSession sample_remote (acceptSession sample_remote (openBind sample_bindConfig 0)))
       = bd_sessions (acceptSession sample_remote (openBind sample_bindConfig 0))"
proof -
  define b where "b = acceptSession sample_remote (openBind sample_bindConfig 0)"
  have r: "bind_reach sample_bindConfig b" unfolding b_def by (rule reach_step [OF reach_open st_accept])
  have "bd_sessions b = [1]" "s_role (bd_sessionOf b 1) = Inbound"
    "s_authentication (bd_sessionOf b 1) = 0"
    by (simp_all add: b_def acceptSession_def newSessionLocked_def setConn_def Let_def openBind_def admitSessionLocked_def
        sample_bindConfig_def newEndpoint_def isConfigured_def set_endpoint_def set_session_def)
  moreover note admission_exact [OF r, of sample_remote]
  ultimately have "bd_inboundSessions b = 1" "bd_pendingInbound b = 1"
    "bd_sessions (acceptSession sample_remote b) \<noteq> bd_sessions b \<longrightarrow> bd_pendingInbound b < 1"
    by (simp_all add: sample_bindConfig_def)
  then show ?thesis unfolding b_def [symmetric] by auto
qed

section \<open>The backoff\<close>

lemma backoff_loop_bounds:
  "0 \<le> v \<Longrightarrow> v \<le> maximum \<Longrightarrow> min (v * 2 ^ n) maximum \<le> backoff_loop maximum v n \<and> backoff_loop maximum v n \<le> maximum"
proof (induction n arbitrary: v)
  case (Suc n)
  have q: "go_quot maximum 2 = maximum div 2" using Suc.prems by simp
  show ?case
  proof (cases "v \<ge> maximum div 2")
    case False
    then have "v * 2 \<le> maximum" by linarith
    then show ?thesis using Suc.IH [of "v * 2"] Suc.prems False by (simp add: q mult.assoc)
  qed (simp add: q)
qed simp

text \<open>The delay of a retry lies between the configured bounds and doubles with every consecutive failure until it reaches
  the upper one.\<close>

lemma reconnectBackoff_bounds:
  assumes "0 \<le> minimum" "minimum \<le> maximum"
  shows "minimum \<le> reconnectBackoff minimum maximum n" "reconnectBackoff minimum maximum n \<le> maximum"
    "min (minimum * 2 ^ unat n) maximum \<le> reconnectBackoff minimum maximum n"
proof -
  note b = backoff_loop_bounds [OF assms, of "unat n", folded reconnectBackoff_def]
  have "minimum * 1 \<le> minimum * 2 ^ unat n" by (rule mult_left_mono) (use assms in simp_all)
  then show "minimum \<le> reconnectBackoff minimum maximum n" using b assms by linarith
  show "reconnectBackoff minimum maximum n \<le> maximum" "min (minimum * 2 ^ unat n) maximum \<le> reconnectBackoff minimum maximum n"
    using b by simp_all
qed

end
