(* ===== verification/Maintenance.thy ===== *)
theory Maintenance
  imports Sessions
begin

text \<open>
  What the reconnection of configured endpoints guarantees (\<open>internal/bind/reconnect.go\<close>), over the runs of \<open>Sessions\<close>:
  one timer and one session per endpoint, and no endpoint that is left without either while something should reconnect it.
\<close>

section \<open>Endpoints, sessions and timers\<close>

text \<open>The registry: an address names a configured endpoint of that address that is not retired.\<close>

definition reg_ok :: "Bind \<Rightarrow> bool" where
  "reg_ok b \<longleftrightarrow>
     (\<forall>a i. map_of (bd_endpoints b) a = Some i \<longrightarrow>
        i < bd_nextEndpoint b \<and> ep_addr (bd_endpointOf b i) = a \<and> isConfigured (bd_endpointOf b i) \<and> \<not> ep_retired (bd_endpointOf b i))
   \<and> (\<forall>i. bd_nextEndpoint b \<le> i \<longrightarrow>
        \<not> isConfigured (bd_endpointOf b i) \<and> ep_session (bd_endpointOf b i) = None \<and> \<not> ep_reconnectScheduled (bd_endpointOf b i))
   \<and> (\<forall>i. ep_retired (bd_endpointOf b i) \<longrightarrow> ep_session (bd_endpointOf b i) = None)
   \<and> (\<forall>i f. fst (currentRoute (bd_endpointOf b i)) = Some f \<longrightarrow> isConfigured (bd_endpointOf b f))"

text \<open>The sessions: an endpoint names a session of its own that was not detached, and the session of a configured
  endpoint that was neither cancelled nor closed is the one its endpoint names.\<close>

definition sess_ok :: "Bind \<Rightarrow> bool" where
  "sess_ok b \<longleftrightarrow>
     (\<forall>sid. s_pc (bd_sessionOf b sid) \<noteq> Ended \<longrightarrow> s_endpoint (bd_sessionOf b sid) < bd_nextEndpoint b
        \<and> (s_role (bd_sessionOf b sid) = Outbound \<longleftrightarrow> isConfigured (bd_endpointOf b (s_endpoint (bd_sessionOf b sid)))))
   \<and> (\<forall>i sid. ep_session (bd_endpointOf b i) = Some sid \<longrightarrow>
        s_endpoint (bd_sessionOf b sid) = i \<and> s_pc (bd_sessionOf b sid) \<notin> {Rescheduling, Ended})
   \<and> (\<forall>sid. s_pc (bd_sessionOf b sid) = Suspending \<longrightarrow> s_role (bd_sessionOf b sid) = Inbound)
   \<and> (\<forall>sid. s_role (bd_sessionOf b sid) = Outbound \<and> open_pc (s_pc (bd_sessionOf b sid)) \<and> \<not> s_ctxDone (bd_sessionOf b sid) \<longrightarrow>
        ep_session (bd_endpointOf b (s_endpoint (bd_sessionOf b sid))) = Some sid)"

definition armed :: "worker \<Rightarrow> bool" where
  "armed w \<longleftrightarrow> wk_pc w = Waiting_Timer \<and> \<not> wk_cancelled w"

definition wk_key :: "worker \<Rightarrow> nat \<times> nat" where
  "wk_key w = (wk_endpoint w, wk_generation w)"

text \<open>The timers: an armed one is the current one of a scheduled endpoint, which has no session.\<close>

definition work_ok :: "Bind \<Rightarrow> bool" where
  "work_ok b \<longleftrightarrow>
     distinct (map wk_key (bd_workers b))
   \<and> (\<forall>w \<in> set (bd_workers b). isConfigured (bd_endpointOf b (wk_endpoint w))
        \<and> wk_generation w \<le> ep_reconnectGeneration (bd_endpointOf b (wk_endpoint w)))
   \<and> (\<forall>w \<in> set (bd_workers b). armed w \<longrightarrow> ep_reconnectScheduled (bd_endpointOf b (wk_endpoint w))
        \<and> wk_generation w = ep_reconnectGeneration (bd_endpointOf b (wk_endpoint w)))
   \<and> (\<forall>i. ep_reconnectScheduled (bd_endpointOf b i) \<longrightarrow> ep_session (bd_endpointOf b i) = None
        \<and> ep_reconnectCancel (bd_endpointOf b i) = Some (ep_reconnectGeneration (bd_endpointOf b i))
        \<and> (\<not> bd_ctxDone b \<longrightarrow> (\<exists>w \<in> set (bd_workers b). armed w \<and> wk_key w = (i, ep_reconnectGeneration (bd_endpointOf b i)))))
   \<and> (bd_ctxDone b \<longrightarrow> bd_closing b)"

text \<open>Maintenance: an endpoint that must be kept connected has a session or something that will connect it again.  Two configured
  endpoints share an address only when one of them was parsed before the bind was opened and not dialed yet.\<close>

definition unshared :: "Bind \<Rightarrow> nat \<Rightarrow> bool" where
  "unshared b i \<longleftrightarrow> (\<forall>j < bd_nextEndpoint b. j \<noteq> i \<and> isConfigured (bd_endpointOf b j)
     \<and> ep_addr (bd_endpointOf b j) = ep_addr (bd_endpointOf b i) \<longrightarrow> ep_retired (bd_endpointOf b j))"

definition eligible :: "Bind \<Rightarrow> nat \<Rightarrow> bool" where
  "eligible b i \<longleftrightarrow> map_of (bd_endpoints b) (ep_addr (bd_endpointOf b i)) = Some i \<and> ep_activated (bd_endpointOf b i) \<and> unshared b i"

definition will_resume :: "Bind \<Rightarrow> nat \<Rightarrow> nat \<Rightarrow> bool" where
  "will_resume b sid i \<longleftrightarrow>
     s_pc (bd_sessionOf b sid) = Rescheduling \<and> s_endpoint (bd_sessionOf b sid) = i
   \<or> s_pc (bd_sessionOf b sid) \<noteq> Ended \<and> s_role (bd_sessionOf b sid) = Inbound
     \<and> ep_addr (bd_endpointOf b (s_endpoint (bd_sessionOf b sid))) = ep_addr (bd_endpointOf b i)"

definition busy :: "Bind \<Rightarrow> nat \<Rightarrow> bool" where
  "busy b i \<longleftrightarrow> (\<exists>w \<in> set (bd_workers b). wk_endpoint w = i \<and> wk_pc w \<noteq> Waiting_Timer)"

definition maintained :: "Bind \<Rightarrow> nat \<Rightarrow> bool" where
  "maintained b i \<longleftrightarrow>
     ep_session (bd_endpointOf b i) \<noteq> None \<or> ep_reconnectScheduled (bd_endpointOf b i) \<or> i \<in> set (bd_todo b)
   \<or> busy b i \<or> (\<exists>sid. will_resume b sid i)"

definition maint_but :: "nat set \<Rightarrow> Bind \<Rightarrow> bool" where
  "maint_but X b \<longleftrightarrow> bd_closing b \<or> (\<forall>i. i \<notin> X \<longrightarrow> eligible b i \<longrightarrow> maintained b i)"

lemma reg_okD:
  assumes "reg_ok b"
  shows "map_of (bd_endpoints b) a = Some i \<Longrightarrow> i < bd_nextEndpoint b \<and> ep_addr (bd_endpointOf b i) = a
      \<and> isConfigured (bd_endpointOf b i) \<and> \<not> ep_retired (bd_endpointOf b i)"

    "bd_nextEndpoint b \<le> i \<Longrightarrow>
      \<not> isConfigured (bd_endpointOf b i) \<and> ep_session (bd_endpointOf b i) = None \<and> \<not> ep_reconnectScheduled (bd_endpointOf b i)"
    "ep_retired (bd_endpointOf b i) \<Longrightarrow> ep_session (bd_endpointOf b i) = None"
    "fst (currentRoute (bd_endpointOf b i)) = Some f \<Longrightarrow> isConfigured (bd_endpointOf b f)"
  using assms unfolding reg_ok_def by blast+

lemma sess_okD:
  assumes "sess_ok b"
  shows "s_pc (bd_sessionOf b sid) \<noteq> Ended \<Longrightarrow> s_endpoint (bd_sessionOf b sid) < bd_nextEndpoint b
      \<and> (s_role (bd_sessionOf b sid) = Outbound \<longleftrightarrow> isConfigured (bd_endpointOf b (s_endpoint (bd_sessionOf b sid))))"
    "ep_session (bd_endpointOf b i) = Some sid \<Longrightarrow> s_endpoint (bd_sessionOf b sid) = i \<and> s_pc (bd_sessionOf b sid) \<notin> {Rescheduling, Ended}"
    "s_pc (bd_sessionOf b sid) = Suspending \<Longrightarrow> s_role (bd_sessionOf b sid) = Inbound"
    "s_role (bd_sessionOf b sid) = Outbound \<Longrightarrow> open_pc (s_pc (bd_sessionOf b sid)) \<Longrightarrow> \<not> s_ctxDone (bd_sessionOf b sid) \<Longrightarrow>
      ep_session (bd_endpointOf b (s_endpoint (bd_sessionOf b sid))) = Some sid"
  using assms unfolding sess_ok_def by blast+

lemma work_okD:
  assumes "work_ok b"
  shows "distinct (map wk_key (bd_workers b))"
    "w \<in> set (bd_workers b) \<Longrightarrow> isConfigured (bd_endpointOf b (wk_endpoint w))
      \<and> wk_generation w \<le> ep_reconnectGeneration (bd_endpointOf b (wk_endpoint w))"
    "w \<in> set (bd_workers b) \<Longrightarrow> armed w \<Longrightarrow> ep_reconnectScheduled (bd_endpointOf b (wk_endpoint w))
      \<and> wk_generation w = ep_reconnectGeneration (bd_endpointOf b (wk_endpoint w))"
    "ep_reconnectScheduled (bd_endpointOf b i) \<Longrightarrow> ep_session (bd_endpointOf b i) = None
      \<and> ep_reconnectCancel (bd_endpointOf b i) = Some (ep_reconnectGeneration (bd_endpointOf b i))"
    "ep_reconnectScheduled (bd_endpointOf b i) \<Longrightarrow> \<not> bd_ctxDone b \<Longrightarrow>
      \<exists>w \<in> set (bd_workers b). armed w \<and> wk_key w = (i, ep_reconnectGeneration (bd_endpointOf b i))"
    "bd_ctxDone b \<Longrightarrow> bd_closing b"
  using assms unfolding work_ok_def by blast+

text \<open>What these facts depend on of an endpoint and of a session.\<close>

definition ep_view :: "Endpoint \<Rightarrow> addrPort \<times> nat option \<times> (nat option \<times> bool) option \<times> bool \<times> bool \<times> bool \<times> nat option \<times> nat" where
  "ep_view e = (ep_addr e, ep_session e, ep_route e, ep_activated e, ep_retired e, ep_reconnectScheduled e, ep_reconnectCancel e,
     ep_reconnectGeneration e)"

definition s_view :: "session \<Rightarrow> Role \<times> nat \<times> session_pc" where
  "s_view s = (s_role s, s_endpoint s, s_pc s)"

definition bind_inv :: "Bind \<Rightarrow> bool" where
  "bind_inv b \<longleftrightarrow> reg_ok b \<and> sess_ok b \<and> work_ok b"

lemma ep_viewD:
  assumes "ep_view e' = ep_view e"
  shows "ep_addr e' = ep_addr e" "ep_session e' = ep_session e" "ep_route e' = ep_route e" "ep_activated e' = ep_activated e"
    "ep_retired e' = ep_retired e" "ep_reconnectScheduled e' = ep_reconnectScheduled e" "ep_reconnectCancel e' = ep_reconnectCancel e"
    "ep_reconnectGeneration e' = ep_reconnectGeneration e" "isConfigured e' = isConfigured e" "currentRoute e' = currentRoute e"
  using assms by (simp_all add: ep_view_def isConfigured_def currentRoute_def)

lemma s_viewD:
  assumes "s_view s' = s_view s"
  shows "s_role s' = s_role s" "s_endpoint s' = s_endpoint s" "s_pc s' = s_pc s"
  using assms by (simp_all add: s_view_def)

text \<open>Steps that change nothing of it, except that contexts may end and the bind may begin to close.\<close>

lemma frame:
  assumes "bd_endpoints b' = bd_endpoints b" "bd_nextEndpoint b' = bd_nextEndpoint b" "bd_workers b' = bd_workers b" "bd_todo b' = bd_todo b"
    "bd_ctxDone b' = bd_ctxDone b" "bd_closing b \<Longrightarrow> bd_closing b'"
    and E: "\<And>i. ep_view (bd_endpointOf b' i) = ep_view (bd_endpointOf b i)"
    and S: "\<And>sid. s_view (bd_sessionOf b' sid) = s_view (bd_sessionOf b sid)"
    and C: "\<And>sid. s_ctxDone (bd_sessionOf b sid) \<Longrightarrow> s_ctxDone (bd_sessionOf b' sid)"
  shows "bind_inv b \<Longrightarrow> bind_inv b'" "maint_but X b \<Longrightarrow> maint_but X b'"
proof -
  note e [simp] = ep_viewD [OF E] and s [simp] = s_viewD [OF S]
  have [simp]: "s_ctxDone (bd_sessionOf b' sid) = False \<Longrightarrow> s_ctxDone (bd_sessionOf b sid) = False" for sid using C by blast
  show "bind_inv b'" if "bind_inv b"
  proof -
    have "reg_ok b'" using that by (simp add: bind_inv_def reg_ok_def assms(1,2))
    moreover have "sess_ok b'" using that C unfolding bind_inv_def sess_ok_def by (simp add: assms(1,2))
    moreover have "work_ok b'" using that assms(6) by (simp add: bind_inv_def work_ok_def assms(3,5))
    ultimately show ?thesis by (simp add: bind_inv_def)
  qed
  show "maint_but X b \<Longrightarrow> maint_but X b'"
    using assms(6) by (auto simp: maint_but_def eligible_def unshared_def maintained_def busy_def will_resume_def assms(1-4))
qed

text \<open>The registry and the sessions do not depend on the timers.\<close>

lemma reg_sess_cong:
  assumes "bd_endpoints b' = bd_endpoints b" "bd_nextEndpoint b' = bd_nextEndpoint b" "bd_sessionOf b' = bd_sessionOf b"
    and E: "\<And>j. ep_addr (bd_endpointOf b' j) = ep_addr (bd_endpointOf b j)" "\<And>j. ep_session (bd_endpointOf b' j) = ep_session (bd_endpointOf b j)"
      "\<And>j. ep_route (bd_endpointOf b' j) = ep_route (bd_endpointOf b j)" "\<And>j. ep_retired (bd_endpointOf b' j) = ep_retired (bd_endpointOf b j)"
    and sched: "\<And>j. bd_nextEndpoint b \<le> j \<Longrightarrow> \<not> ep_reconnectScheduled (bd_endpointOf b' j)"
  shows "reg_ok b \<Longrightarrow> reg_ok b'" "sess_ok b \<Longrightarrow> sess_ok b'"
proof -
  have c: "isConfigured (bd_endpointOf b' j) = isConfigured (bd_endpointOf b j)"
    "currentRoute (bd_endpointOf b' j) = currentRoute (bd_endpointOf b j)" for j
    by (simp_all add: isConfigured_def currentRoute_def E)
  show "reg_ok b \<Longrightarrow> reg_ok b'" unfolding reg_ok_def assms(1,2) E c using sched by blast
  show "sess_ok b \<Longrightarrow> sess_ok b'" unfolding sess_ok_def assms(2,3) E c .
qed

section \<open>Cancelling and arming timers\<close>

lemma cancel_endpointOf: "bd_endpointOf (cancelReconnectLocked i b) =
   (bd_endpointOf b)(i := (bd_endpointOf b i)\<lparr>ep_reconnectGeneration := ep_reconnectGeneration (bd_endpointOf b i) + 1,
      ep_reconnectScheduled := False, ep_reconnectCancel := None, ep_nextReconnect := None\<rparr>)"
  and cancel_workers: "bd_workers (cancelReconnectLocked i b) =
    map (cancel_worker i (ep_reconnectCancel (bd_endpointOf b i))) (bd_workers b)"
  by (simp_all add: cancelReconnectLocked_def Let_def)

lemma cancel_worker_fields [simp]:
  "wk_key (cancel_worker i g w) = wk_key w" "wk_endpoint (cancel_worker i g w) = wk_endpoint w" "wk_pc (cancel_worker i g w) = wk_pc w"
  "armed (cancel_worker i g w) \<longleftrightarrow> armed w \<and> \<not> (wk_endpoint w = i \<and> Some (wk_generation w) = g)"
  by (auto simp: cancel_worker_def wk_key_def armed_def)

lemma cancel_worker_other: "wk_endpoint w \<noteq> i \<Longrightarrow> cancel_worker i g w = w"
  by (simp add: cancel_worker_def)

lemma wk_keyD: "wk_key w = (i, g) \<Longrightarrow> wk_endpoint w = i \<and> wk_generation w = g"
  by (simp add: wk_key_def)

text \<open>The timer of one endpoint is taken away, the others stay.\<close>

lemma work_quiet:
  assumes ok: "work_ok b" and flags: "bd_ctxDone b' = bd_ctxDone b" "bd_closing b' = bd_closing b"
    and other: "\<And>j. j \<noteq> i \<Longrightarrow> ep_view (bd_endpointOf b' j) = ep_view (bd_endpointOf b j)"
    and self: "isConfigured (bd_endpointOf b' i) = isConfigured (bd_endpointOf b i)" "\<not> ep_reconnectScheduled (bd_endpointOf b' i)"
      "ep_reconnectGeneration (bd_endpointOf b i) \<le> ep_reconnectGeneration (bd_endpointOf b' i)"
    and dist: "distinct (map wk_key (bd_workers b'))"
    and from_old: "\<And>w'. w' \<in> set (bd_workers b') \<Longrightarrow>
      \<exists>w \<in> set (bd_workers b). wk_key w' = wk_key w \<and> (armed w' \<longrightarrow> armed w \<and> wk_endpoint w \<noteq> i)"
    and kept: "\<And>w. w \<in> set (bd_workers b) \<Longrightarrow> armed w \<Longrightarrow> wk_endpoint w \<noteq> i \<Longrightarrow> w \<in> set (bd_workers b')"
  shows "work_ok b'"
proof -
  note e = ep_viewD [OF other] and inv = work_okD [OF ok]
  have w: "isConfigured (bd_endpointOf b' (wk_endpoint w)) \<and> wk_generation w \<le> ep_reconnectGeneration (bd_endpointOf b' (wk_endpoint w))
      \<and> (armed w \<longrightarrow> ep_reconnectScheduled (bd_endpointOf b' (wk_endpoint w))
          \<and> wk_generation w = ep_reconnectGeneration (bd_endpointOf b' (wk_endpoint w)))" if w: "w \<in> set (bd_workers b')" for w
  proof -
    obtain v where v: "v \<in> set (bd_workers b)" "wk_key w = wk_key v" "armed w \<longrightarrow> armed v \<and> wk_endpoint v \<noteq> i"
      using from_old [OF w] by blast
    then have k: "wk_endpoint w = wk_endpoint v" "wk_generation w = wk_generation v" by (simp_all add: wk_key_def)
    show ?thesis using inv(2,3) [OF v(1)] v(3) self e [of "wk_endpoint v"] unfolding k by (cases "wk_endpoint v = i") auto
  qed
  have s: "ep_session (bd_endpointOf b' j) = None \<and> ep_reconnectCancel (bd_endpointOf b' j) = Some (ep_reconnectGeneration (bd_endpointOf b' j))
      \<and> (\<not> bd_ctxDone b' \<longrightarrow> (\<exists>w \<in> set (bd_workers b'). armed w \<and> wk_key w = (j, ep_reconnectGeneration (bd_endpointOf b' j))))"
    if j: "ep_reconnectScheduled (bd_endpointOf b' j)" for j
  proof -
    have "j \<noteq> i" using j self by auto
    then show ?thesis using inv(4,5) [of j] j kept e [of j] unfolding flags by (metis wk_keyD)
  qed
  show ?thesis unfolding work_ok_def using w s dist inv(6) flags by auto
qed

lemma bind_inv_cancel:
  assumes "bind_inv b"
  shows "bind_inv (cancelReconnectLocked i b)"
proof -
  have "reg_ok b" "sess_ok b" using assms by (simp_all add: bind_inv_def)
  note ok = this
  have "reg_ok (cancelReconnectLocked i b)" "sess_ok (cancelReconnectLocked i b)"
    by (rule reg_sess_cong [of _ b]; use reg_okD(2) [OF ok(1)] in \<open>auto simp: cancel_endpointOf ok\<close>)+
  moreover have ok: "work_ok b" using assms by (simp add: bind_inv_def)
  have "work_ok (cancelReconnectLocked i b)"
  proof (rule work_quiet [OF ok, of _ i])
    show "distinct (map wk_key (bd_workers (cancelReconnectLocked i b)))"
      using work_okD(1) [OF ok] by (simp add: cancel_workers comp_def)
    fix w' assume "w' \<in> set (bd_workers (cancelReconnectLocked i b))"
    then obtain w where w: "w \<in> set (bd_workers b)" "w' = cancel_worker i (ep_reconnectCancel (bd_endpointOf b i)) w"
      by (auto simp: cancel_workers)
    then show "\<exists>w \<in> set (bd_workers b). wk_key w' = wk_key w \<and> (armed w' \<longrightarrow> armed w \<and> wk_endpoint w \<noteq> i)"
      using work_okD(3) [OF ok w(1)] work_okD(4) [OF ok, of i] by (intro bexI [of _ w]) auto
  next
    fix w assume "w \<in> set (bd_workers b)" "armed w" "wk_endpoint w \<noteq> i"
    then show "w \<in> set (bd_workers (cancelReconnectLocked i b))"
      using cancel_worker_other [of w i] by (auto simp: cancel_workers intro: image_eqI [of _ _ w])
  qed (simp_all add: cancel_endpointOf isConfigured_def)
  ultimately show ?thesis by (simp add: bind_inv_def)
qed

text \<open>A new timer is armed for an endpoint without one.\<close>

lemma bind_inv_arm:
  assumes inv: "bind_inv b" and i: "isConfigured (bd_endpointOf b i)" "ep_session (bd_endpointOf b i) = None"
      "\<not> ep_reconnectScheduled (bd_endpointOf b i)"
    and flags: "bd_ctxDone b' = bd_ctxDone b" "bd_closing b' = bd_closing b" "bd_endpoints b' = bd_endpoints b"
      "bd_nextEndpoint b' = bd_nextEndpoint b" "bd_sessionOf b' = bd_sessionOf b"
    and E: "bd_endpointOf b' = (bd_endpointOf b)(i := e)" "ep_addr e = ep_addr (bd_endpointOf b i)" "ep_session e = None"
      "ep_route e = ep_route (bd_endpointOf b i)" "ep_retired e = ep_retired (bd_endpointOf b i)" "ep_reconnectScheduled e"
      "ep_reconnectCancel e = Some (ep_reconnectGeneration e)" "ep_reconnectGeneration (bd_endpointOf b i) < ep_reconnectGeneration e"
    and W: "bd_workers b' = bd_workers b @ [w]" "armed w" "wk_key w = (i, ep_reconnectGeneration e)"
  shows "bind_inv b'"
proof -
  have ok: "reg_ok b" "sess_ok b" "work_ok b" using inv by (simp_all add: bind_inv_def)
  have c: "isConfigured e = isConfigured (bd_endpointOf b i)" "currentRoute e = currentRoute (bd_endpointOf b i)"
    by (simp_all add: isConfigured_def currentRoute_def E)
  have w: "wk_endpoint w = i" "wk_generation w = ep_reconnectGeneration e" using W(3) by (simp_all add: wk_key_def)
  have n: "i < bd_nextEndpoint b" using reg_okD(2) [OF ok(1), of i] i(1) by (meson not_le)
  have r: "reg_ok b'" and s: "sess_ok b'"
    by (rule reg_sess_cong [of b' b]; use reg_okD(2) [OF ok(1)] n i(2) in \<open>auto simp: flags E ok(1,2)\<close>)+
  have old: "wk_endpoint v = i \<Longrightarrow> wk_generation v < ep_reconnectGeneration e \<and> \<not> armed v" if "v \<in> set (bd_workers b)" for v
    using work_okD(2,3) [OF ok(3) that] i(3) E(8) by (auto intro: le_less_trans)
  have "wk_key w \<notin> wk_key ` set (bd_workers b)" using old by (force simp: wk_key_def w)
  then have "distinct (map wk_key (bd_workers b'))" using work_okD(1) [OF ok(3)] by (simp add: W(1))
  moreover have "isConfigured (bd_endpointOf b' (wk_endpoint v)) \<and> wk_generation v \<le> ep_reconnectGeneration (bd_endpointOf b' (wk_endpoint v))
      \<and> (armed v \<longrightarrow> ep_reconnectScheduled (bd_endpointOf b' (wk_endpoint v))
          \<and> wk_generation v = ep_reconnectGeneration (bd_endpointOf b' (wk_endpoint v)))" if "v \<in> set (bd_workers b')" for v
  proof (cases "v = w")
    case False
    then have v: "v \<in> set (bd_workers b)" using that W(1) by auto
    show ?thesis using work_okD(2,3) [OF ok(3) v] old [OF v] i(1) by (auto simp: E(1,6) c)
  qed (simp add: w E(1,6) c i(1))
  moreover have "ep_session (bd_endpointOf b' j) = None
      \<and> ep_reconnectCancel (bd_endpointOf b' j) = Some (ep_reconnectGeneration (bd_endpointOf b' j))
      \<and> (\<not> bd_ctxDone b' \<longrightarrow> (\<exists>w \<in> set (bd_workers b'). armed w \<and> wk_key w = (j, ep_reconnectGeneration (bd_endpointOf b' j))))"
    if "ep_reconnectScheduled (bd_endpointOf b' j)" for j
    using that work_okD(4,5) [OF ok(3), of j] W by (cases "j = i") (auto simp: E flags)
  ultimately have "work_ok b'" using work_okD(6) [OF ok(3)] unfolding work_ok_def flags by auto
  then show ?thesis using r s by (simp add: bind_inv_def)
qed

definition settled :: "Bind \<Rightarrow> nat \<Rightarrow> bool" where
  "settled b i \<longleftrightarrow> bd_closing b \<or> (isConfigured (bd_endpointOf b i) \<and> ep_activated (bd_endpointOf b i) \<and> \<not> ep_retired (bd_endpointOf b i)
     \<longrightarrow> ep_session (bd_endpointOf b i) \<noteq> None \<or> ep_reconnectScheduled (bd_endpointOf b i))"

text \<open>What \<open>scheduleEndpointReconnect\<close> does: nothing, a refusal because the bind is closing, or a new timer.\<close>

lemma schedule_cases:
  obtains (skip) "scheduleEndpointReconnect i im b = b"
      "\<not> (isConfigured (bd_endpointOf b i) \<and> ep_activated (bd_endpointOf b i) \<and> \<not> ep_retired (bd_endpointOf b i))
       \<or> ep_session (bd_endpointOf b i) \<noteq> None \<or> bd_ctxDone b \<or> ep_reconnectScheduled (bd_endpointOf b i)"
  | (attempt) b1 g d where "isConfigured (bd_endpointOf b i)" "ep_session (bd_endpointOf b i) = None" "\<not> bd_ctxDone b"
      "b1 = (if ep_reconnectScheduled (bd_endpointOf b i) then cancelReconnectLocked i b else b)"
      "g = ep_reconnectGeneration (bd_endpointOf b1 i) + 1"
      "scheduleEndpointReconnect i im b =
         (let b2 = set_endpoint i ((bd_endpointOf b1 i)\<lparr>ep_reconnectGeneration := g, ep_reconnectScheduled := True,
                     ep_reconnectCancel := Some g, ep_nextReconnect := (if d > 0 then Some (bd_now b1 + d) else None)\<rparr>) b1
          in if bd_closing b then cancelReconnectLocked i b2
             else b2\<lparr>bd_workers := bd_workers b1 @ [\<lparr>wk_endpoint = i, wk_generation = g, wk_cancelled = False,
                        wk_due = bd_now b1 + d, wk_pc = Waiting_Timer\<rparr>]\<rparr>)"
proof (cases "\<not> (isConfigured (bd_endpointOf b i) \<and> ep_activated (bd_endpointOf b i) \<and> \<not> ep_retired (bd_endpointOf b i))
       \<or> ep_session (bd_endpointOf b i) \<noteq> None \<or> bd_ctxDone b \<or> ep_reconnectScheduled (bd_endpointOf b i) \<and> \<not> im")
  case True
  then have "scheduleEndpointReconnect i im b = b" unfolding scheduleEndpointReconnect_def Let_def by (elim disjE conjE) simp_all
  then show thesis using skip True by blast
next
  case False
  define b1 where "b1 = (if ep_reconnectScheduled (bd_endpointOf b i) then cancelReconnectLocked i b else b)"
  define d where "d = reconnect_delay b1 (bd_endpointOf b1 i) im"
  have g: "isConfigured (bd_endpointOf b i)" "ep_session (bd_endpointOf b i) = None" "\<not> bd_ctxDone b"
    and h: "ep_activated (bd_endpointOf b i)" "\<not> ep_retired (bd_endpointOf b i)" "\<not> (ep_reconnectScheduled (bd_endpointOf b i) \<and> \<not> im)"
    using False by blast+
  have [simp]: "bd_ctxDone b1 = bd_ctxDone b" "bd_closing b1 = bd_closing b" by (simp_all add: b1_def)
  show thesis
    by (rule attempt [OF g b1_def refl, of d])
      (use g h in \<open>cases im; simp add: scheduleEndpointReconnect_def b1_def [symmetric] d_def Let_def; simp add: b1_def\<close>)
qed

lemma bind_inv_quiet_endpoint:
  assumes inv: "bind_inv b" and i: "\<not> ep_reconnectScheduled (bd_endpointOf b i)"
    and flags: "bd_ctxDone b' = bd_ctxDone b" "bd_closing b' = bd_closing b" "bd_endpoints b' = bd_endpoints b"
      "bd_nextEndpoint b' = bd_nextEndpoint b" "bd_sessionOf b' = bd_sessionOf b"
    and E: "bd_endpointOf b' = (bd_endpointOf b)(i := e)" "ep_addr e = ep_addr (bd_endpointOf b i)" "ep_session e = ep_session (bd_endpointOf b i)"
      "ep_route e = ep_route (bd_endpointOf b i)" "ep_retired e = ep_retired (bd_endpointOf b i)" "\<not> ep_reconnectScheduled e"
      "ep_reconnectGeneration (bd_endpointOf b i) \<le> ep_reconnectGeneration e"
    and W: "bd_workers b' = map (cancel_worker i g) (bd_workers b)"
  shows "bind_inv b'"
proof -
  have ok: "reg_ok b" "sess_ok b" "work_ok b" using inv by (simp_all add: bind_inv_def)
  have c: "isConfigured e = isConfigured (bd_endpointOf b i)" "currentRoute e = currentRoute (bd_endpointOf b i)"
    by (simp_all add: isConfigured_def currentRoute_def E)
  have r: "reg_ok b'" and s: "sess_ok b'"
    by (rule reg_sess_cong [of b' b]; use reg_okD(2) [OF ok(1)] in \<open>auto simp: flags E ok(1,2)\<close>)+
  have "work_ok b'"
  proof (rule work_quiet [OF ok(3), of _ i])
    show "distinct (map wk_key (bd_workers b'))" using work_okD(1) [OF ok(3)] by (simp add: W comp_def)
    fix w' assume "w' \<in> set (bd_workers b')"
    then obtain w where w: "w \<in> set (bd_workers b)" "w' = cancel_worker i g w" by (auto simp: W)
    then show "\<exists>w \<in> set (bd_workers b). wk_key w' = wk_key w \<and> (armed w' \<longrightarrow> armed w \<and> wk_endpoint w \<noteq> i)"
      using work_okD(3) [OF ok(3) w(1)] i by (intro bexI [of _ w]) auto
  next
    fix w assume "w \<in> set (bd_workers b)" "armed w" "wk_endpoint w \<noteq> i"
    then show "w \<in> set (bd_workers b')" using cancel_worker_other [of w i] by (auto simp: W intro: image_eqI [of _ _ w])
  qed (simp_all add: E c flags)
  then show ?thesis using r s by (simp add: bind_inv_def)
qed

lemma bind_inv_schedule:
  assumes inv: "bind_inv b"
  shows "bind_inv (scheduleEndpointReconnect i im b)"
proof (cases rule: schedule_cases [of i im b])
  case skip
  then show ?thesis using inv by simp
next
  case (attempt b1 g d)
  define b' where "b' = scheduleEndpointReconnect i im b"
  define w where "w = \<lparr>wk_endpoint = i, wk_generation = g, wk_cancelled = False, wk_due = bd_now b1 + d, wk_pc = Waiting_Timer\<rparr>"
  have b1: "bind_inv b1" "\<not> ep_reconnectScheduled (bd_endpointOf b1 i)" "isConfigured (bd_endpointOf b1 i)" "ep_session (bd_endpointOf b1 i) = None"
    using attempt(1,2) inv bind_inv_cancel [OF inv, of i] by (simp_all add: attempt(4) cancel_endpointOf isConfigured_def)
  have s: "b' = (let b2 = set_endpoint i ((bd_endpointOf b1 i)\<lparr>ep_reconnectGeneration := g, ep_reconnectScheduled := True,
                     ep_reconnectCancel := Some g, ep_nextReconnect := (if d > 0 then Some (bd_now b1 + d) else None)\<rparr>) b1
          in if bd_closing b then cancelReconnectLocked i b2 else b2\<lparr>bd_workers := bd_workers b1 @ [w]\<rparr>)"
    unfolding b'_def w_def by (rule attempt(6))
  show ?thesis unfolding b'_def [symmetric]
  proof (cases "bd_closing b")
    case True
    show "bind_inv b'"
      by (rule bind_inv_quiet_endpoint [OF b1(1,2), of _ "bd_endpointOf b' i" "Some g"])
        (use True in \<open>simp_all add: s Let_def cancel_endpointOf cancel_workers attempt(5)\<close>)
  next
    case False
    show "bind_inv b'"
      by (rule bind_inv_arm [OF b1(1,3,4,2), of _ "bd_endpointOf b' i" w])
        (use False b1(4) in \<open>simp_all add: s Let_def attempt(5) w_def wk_key_def armed_def\<close>)
  qed
qed

lemma schedule_settled:
  assumes "bind_inv b"
  shows "settled (scheduleEndpointReconnect i im b) i"
proof (cases rule: schedule_cases [of i im b])
  case skip
  then show ?thesis using work_okD(6) [of b] assms by (auto simp: settled_def bind_inv_def)
next
  case (attempt b1 g d)
  have "bd_closing b1 = bd_closing b" by (simp add: attempt(4))
  then show ?thesis unfolding attempt(6) Let_def settled_def by simp
qed

section \<open>Maintenance through the operations\<close>

lemma busy_cancel [simp]: "busy (cancelReconnectLocked i b) j = busy b j"
  by (auto simp: busy_def cancel_workers)

lemma cancel_scheduled: "ep_reconnectScheduled (bd_endpointOf (cancelReconnectLocked i b) j)
   \<longleftrightarrow> j \<noteq> i \<and> ep_reconnectScheduled (bd_endpointOf b j)"
  by (simp add: cancel_endpointOf)

lemma schedule_keeps:
  "ep_addr (bd_endpointOf (scheduleEndpointReconnect i im b) j) = ep_addr (bd_endpointOf b j)"
  "ep_session (bd_endpointOf (scheduleEndpointReconnect i im b) j) = ep_session (bd_endpointOf b j)"
  "ep_route (bd_endpointOf (scheduleEndpointReconnect i im b) j) = ep_route (bd_endpointOf b j)"
  "ep_activated (bd_endpointOf (scheduleEndpointReconnect i im b) j) = ep_activated (bd_endpointOf b j)"
  "ep_retired (bd_endpointOf (scheduleEndpointReconnect i im b) j) = ep_retired (bd_endpointOf b j)"
  "j \<noteq> i \<Longrightarrow> ep_reconnectScheduled (bd_endpointOf (scheduleEndpointReconnect i im b) j) = ep_reconnectScheduled (bd_endpointOf b j)"
  "busy (scheduleEndpointReconnect i im b) j = busy b j"
proof -
  define b' where "b' = scheduleEndpointReconnect i im b"
  have "ep_addr (bd_endpointOf b' j) = ep_addr (bd_endpointOf b j) \<and> ep_session (bd_endpointOf b' j) = ep_session (bd_endpointOf b j)
      \<and> ep_route (bd_endpointOf b' j) = ep_route (bd_endpointOf b j) \<and> ep_activated (bd_endpointOf b' j) = ep_activated (bd_endpointOf b j)
      \<and> ep_retired (bd_endpointOf b' j) = ep_retired (bd_endpointOf b j)
      \<and> (j \<noteq> i \<longrightarrow> ep_reconnectScheduled (bd_endpointOf b' j) = ep_reconnectScheduled (bd_endpointOf b j)) \<and> busy b' j = busy b j"
  proof (cases rule: schedule_cases [of i im b])
    case skip
    then show ?thesis by (simp add: b'_def)
  next
    case (attempt b1 g d)
    have "busy b1 j = busy b j" by (simp add: attempt(4))
    then have "busy b' j = busy b j" unfolding b'_def attempt(6) Let_def by (auto simp: busy_def cancel_workers)
    then show ?thesis unfolding b'_def attempt(6) Let_def by (simp add: cancel_endpointOf attempt(4))
  qed
  then show "ep_addr (bd_endpointOf (scheduleEndpointReconnect i im b) j) = ep_addr (bd_endpointOf b j)"
    "ep_session (bd_endpointOf (scheduleEndpointReconnect i im b) j) = ep_session (bd_endpointOf b j)"
    "ep_route (bd_endpointOf (scheduleEndpointReconnect i im b) j) = ep_route (bd_endpointOf b j)"
    "ep_activated (bd_endpointOf (scheduleEndpointReconnect i im b) j) = ep_activated (bd_endpointOf b j)"
    "ep_retired (bd_endpointOf (scheduleEndpointReconnect i im b) j) = ep_retired (bd_endpointOf b j)"
    "j \<noteq> i \<Longrightarrow> ep_reconnectScheduled (bd_endpointOf (scheduleEndpointReconnect i im b) j) = ep_reconnectScheduled (bd_endpointOf b j)"
    "busy (scheduleEndpointReconnect i im b) j = busy b j"
    unfolding b'_def by blast+
qed

lemma schedule_configured: "isConfigured (bd_endpointOf (scheduleEndpointReconnect i im b) j) = isConfigured (bd_endpointOf b j)"
  by (simp add: isConfigured_def schedule_keeps)

lemma eligible_cong:
  assumes "bd_endpoints b' = bd_endpoints b" "bd_nextEndpoint b' = bd_nextEndpoint b"
    "\<And>j. ep_addr (bd_endpointOf b' j) = ep_addr (bd_endpointOf b j)" "\<And>j. isConfigured (bd_endpointOf b' j) = isConfigured (bd_endpointOf b j)"
    "\<And>j. ep_activated (bd_endpointOf b' j) = ep_activated (bd_endpointOf b j)" "\<And>j. ep_retired (bd_endpointOf b' j) = ep_retired (bd_endpointOf b j)"
  shows "eligible b' i = eligible b i"
  using assms by (simp add: eligible_def unshared_def)

lemma maint_mono:
  assumes "maint_but X b" "bd_closing b \<Longrightarrow> bd_closing b'"
    "\<And>i. i \<notin> X' \<Longrightarrow> \<not> bd_closing b' \<Longrightarrow> eligible b' i \<Longrightarrow> i \<notin> X \<and> eligible b i \<and> (maintained b i \<longrightarrow> maintained b' i) \<or> maintained b' i"
  shows "maint_but X' b'"
  using assms unfolding maint_but_def by blast

lemma maint_cancel:
  assumes "maint_but X b"
  shows "maint_but (insert i X) (cancelReconnectLocked i b)"
proof (rule maint_mono [OF assms])
  fix j assume j: "j \<notin> insert i X" "eligible (cancelReconnectLocked i b) j"
  have "eligible b j" using j(2) by (subst (asm) eligible_cong [of _ b]) simp_all
  then show "j \<notin> X \<and> eligible b j \<and> (maintained b j \<longrightarrow> maintained (cancelReconnectLocked i b) j) \<or> maintained (cancelReconnectLocked i b) j"
    using j(1) by (auto simp: maintained_def will_resume_def cancel_scheduled)
qed simp

lemma settled_maintained: "reg_ok b \<Longrightarrow> settled b i \<Longrightarrow> eligible b i \<Longrightarrow> \<not> bd_closing b \<Longrightarrow> maintained b i"
  using reg_okD(1) [of b "ep_addr (bd_endpointOf b i)" i] by (auto simp: settled_def eligible_def maintained_def)

lemma maint_schedule:
  assumes inv: "bind_inv b" and m: "maint_but (insert i X) b"
  shows "maint_but X (scheduleEndpointReconnect i im b)"
proof (rule maint_mono [OF m])
  define b' where "b' = scheduleEndpointReconnect i im b"
  fix j assume j: "j \<notin> X" "eligible (scheduleEndpointReconnect i im b) j" "\<not> bd_closing (scheduleEndpointReconnect i im b)"
  have e: "eligible b j" using j(2) by (subst (asm) eligible_cong [of _ b]) (simp_all add: schedule_keeps schedule_configured)
  show "j \<notin> insert i X \<and> eligible b j \<and> (maintained b j \<longrightarrow> maintained b' j) \<or> maintained b' j"
  proof (cases "j = i")
    case True
    have "reg_ok b'" using bind_inv_schedule [OF inv] by (simp add: b'_def bind_inv_def)
    then show ?thesis using settled_maintained [of b' i] schedule_settled [OF inv, of i im] j True by (simp add: b'_def)
  next
    case False
    then show ?thesis using j(1) e by (auto simp: b'_def maintained_def will_resume_def schedule_keeps)
  qed
qed simp

text \<open>A session goes on, before it is detached from its endpoint.\<close>

lemma move_session:
  assumes inv: "bind_inv b" and fr: "bd_endpoints b' = bd_endpoints b" "bd_nextEndpoint b' = bd_nextEndpoint b" "bd_workers b' = bd_workers b"
      "bd_todo b' = bd_todo b" "bd_ctxDone b' = bd_ctxDone b" "bd_closing b' = bd_closing b"
    and E: "\<And>i. ep_view (bd_endpointOf b' i) = ep_view (bd_endpointOf b i)"
    and S: "bd_sessionOf b' = (bd_sessionOf b)(sid := s)"
    and s: "s_role s = s_role (bd_sessionOf b sid)" "s_endpoint s = s_endpoint (bd_sessionOf b sid)"
      "s_pc (bd_sessionOf b sid) \<notin> {Rescheduling, Ended}" "s_pc s \<notin> {Rescheduling, Ended, Suspending}"
      "open_pc (s_pc s) \<Longrightarrow> open_pc (s_pc (bd_sessionOf b sid))" "s_ctxDone (bd_sessionOf b sid) \<Longrightarrow> s_ctxDone s"
  shows "bind_inv b'" "maint_but X b \<Longrightarrow> maint_but X b'"
proof -
  have ok: "reg_ok b" "sess_ok b" "work_ok b" using inv by (simp_all add: bind_inv_def)
  note e = ep_viewD [OF E]
  have "reg_ok b'" using ok(1) by (simp add: reg_ok_def fr e)
  moreover have "work_ok b'" using ok(3) by (simp add: work_ok_def fr e)
  moreover have "sess_ok b'"
    unfolding sess_ok_def e fr S
  proof (intro conjI allI impI)
    fix x assume "s_pc (((bd_sessionOf b)(sid := s)) x) \<noteq> Ended"
    then show "s_endpoint (((bd_sessionOf b)(sid := s)) x) < bd_nextEndpoint b"
      "(s_role (((bd_sessionOf b)(sid := s)) x) = Outbound) = isConfigured (bd_endpointOf b (s_endpoint (((bd_sessionOf b)(sid := s)) x)))"
      using sess_okD(1) [OF ok(2), of x] s by (auto split: if_splits)
  next
    fix i x assume "ep_session (bd_endpointOf b i) = Some x"
    then show "s_endpoint (((bd_sessionOf b)(sid := s)) x) = i" "s_pc (((bd_sessionOf b)(sid := s)) x) \<notin> {Rescheduling, Ended}"
      using sess_okD(2) [OF ok(2), of i x] s by auto
  next
    fix x assume "s_pc (((bd_sessionOf b)(sid := s)) x) = Suspending"
    then show "s_role (((bd_sessionOf b)(sid := s)) x) = Inbound" using sess_okD(3) [OF ok(2), of x] s by (auto split: if_splits)
  next
    fix x assume "s_role (((bd_sessionOf b)(sid := s)) x) = Outbound \<and> open_pc (s_pc (((bd_sessionOf b)(sid := s)) x))
      \<and> \<not> s_ctxDone (((bd_sessionOf b)(sid := s)) x)"
    then show "ep_session (bd_endpointOf b (s_endpoint (((bd_sessionOf b)(sid := s)) x))) = Some x"
      using sess_okD(4) [OF ok(2), of x] s by (auto split: if_splits)
  qed
  ultimately show "bind_inv b'" by (simp add: bind_inv_def)
  have "will_resume b x i \<Longrightarrow> will_resume b' x i" for x i
    using s by (auto simp: will_resume_def S e)
  then have "maintained b i \<Longrightarrow> maintained b' i" for i unfolding maintained_def busy_def fr e by blast
  then show "maint_but X b'" if "maint_but X b"
    by (intro maint_mono [OF that]) (auto simp: eligible_def unshared_def fr e)
qed

lemma ep_view_upd [simp]:
  "ep_view (e\<lparr>ep_consecutiveFailures := n\<rparr>) = ep_view e" "ep_view (e\<lparr>ep_reconnectFailures := m\<rparr>) = ep_view e"
  "ep_view (e\<lparr>ep_nextReconnect := t\<rparr>) = ep_view e" "ep_view (e\<lparr>ep_pendingReplacement := r\<rparr>) = ep_view e"
  by (simp_all add: ep_view_def)

lemma s_view_cause [simp]: "s_view (setCloseCause r s) = s_view s" "s_view (s\<lparr>s_ctxDone := c\<rparr>) = s_view s"
  "s_view (s\<lparr>s_authentication := a\<rparr>) = s_view s" "s_view (s\<lparr>s_authenticatedPeers := p\<rparr>) = s_view s"
  "s_view (s\<lparr>s_conn := k\<rparr>) = s_view s" "s_view (s\<lparr>s_establishedAt := t\<rparr>) = s_view s"
  by (simp_all add: s_view_def)

lemma associate_fields [simp]:
  "bd_endpointOf (snd (AssociateSessionPeer sid k g b)) = bd_endpointOf b" "bd_endpoints (snd (AssociateSessionPeer sid k g b)) = bd_endpoints b"
  "bd_workers (snd (AssociateSessionPeer sid k g b)) = bd_workers b" "bd_todo (snd (AssociateSessionPeer sid k g b)) = bd_todo b"
  "bd_closing (snd (AssociateSessionPeer sid k g b)) = bd_closing b" "bd_ctxDone (snd (AssociateSessionPeer sid k g b)) = bd_ctxDone b"
  "bd_nextEndpoint (snd (AssociateSessionPeer sid k g b)) = bd_nextEndpoint b"
  "s_view (bd_sessionOf (snd (AssociateSessionPeer sid k g b)) x) = s_view (bd_sessionOf b x)"
  "s_ctxDone (bd_sessionOf (snd (AssociateSessionPeer sid k g b)) x) = s_ctxDone (bd_sessionOf b x)"
  by (auto simp: AssociateSessionPeer_def Let_def s_view_def)

definition good :: "Bind \<Rightarrow> bool" where
  "good b \<longleftrightarrow> bind_inv b \<and> maint_but {} b"

lemma goodI: "bind_inv b \<Longrightarrow> maint_but {} b \<Longrightarrow> good b"
  by (simp add: good_def)

lemma goodD: "good b \<Longrightarrow> bind_inv b" "good b \<Longrightarrow> maint_but {} b" "good b \<Longrightarrow> reg_ok b" "good b \<Longrightarrow> sess_ok b" "good b \<Longrightarrow> work_ok b"
  by (simp_all add: good_def bind_inv_def)

lemma good_frame_steps:
  assumes "good b"
  shows "good (b\<lparr>bd_now := t\<rparr>)" "good (set_session sid (setCloseCause reason (bd_sessionOf b sid)) b)" "good (cancel_session sid b)"
    "good (snd (AssociateSessionPeer sid k g b))" "good (expireAuthentication sid b)" "good (bind_close b)"
  using goodD(1,2) [OF assms]
  by (intro goodI; elim frame [rotated -1]; auto simp: cancel_session_def expireAuthentication_def bind_close_def Let_def)+

lemma wk_key_cancelled [simp]: "wk_key (w\<lparr>wk_cancelled := c\<rparr>) = wk_key w" "wk_key (w\<lparr>wk_pc := pc\<rparr>) = wk_key w"
  by (simp_all add: wk_key_def)

lemma good_bind_cancel:
  assumes "good b" "bd_closing b"
  shows "good (bind_cancel b)"
proof -
  have ok: "reg_ok b" "sess_ok b" "work_ok b" using goodD [OF assms(1)] by blast+
  have r: "reg_ok (bind_cancel b)" using ok(1) by (simp add: reg_ok_def bind_cancel_def)
  have s: "sess_ok (bind_cancel b)" using ok(2) by (simp add: sess_ok_def bind_cancel_def)
  have "work_ok (bind_cancel b)"
    using ok(3) assms(2) by (auto simp: work_ok_def bind_cancel_def armed_def comp_def)
  then show ?thesis using r s assms(2) by (simp add: good_def bind_inv_def maint_but_def bind_cancel_def)
qed

lemma good_move:
  assumes "good b" "bd_endpoints b' = bd_endpoints b" "bd_nextEndpoint b' = bd_nextEndpoint b" "bd_workers b' = bd_workers b"
    "bd_todo b' = bd_todo b" "bd_ctxDone b' = bd_ctxDone b" "bd_closing b' = bd_closing b"
    "\<And>i. ep_view (bd_endpointOf b' i) = ep_view (bd_endpointOf b i)"
    "\<And>x. x \<noteq> sid \<Longrightarrow> bd_sessionOf b' x = bd_sessionOf b x"
    "s_role (bd_sessionOf b' sid) = s_role (bd_sessionOf b sid)" "s_endpoint (bd_sessionOf b' sid) = s_endpoint (bd_sessionOf b sid)"
    "s_pc (bd_sessionOf b sid) \<notin> {Rescheduling, Ended}" "s_pc (bd_sessionOf b' sid) \<notin> {Rescheduling, Ended, Suspending}"
    "open_pc (s_pc (bd_sessionOf b' sid)) \<Longrightarrow> open_pc (s_pc (bd_sessionOf b sid))"
    "s_ctxDone (bd_sessionOf b sid) \<Longrightarrow> s_ctxDone (bd_sessionOf b' sid)"
  shows "good b'"
proof -
  have S: "bd_sessionOf b' = (bd_sessionOf b)(sid := bd_sessionOf b' sid)" using assms(9) by auto
  show ?thesis
    using move_session [OF goodD(1) [OF assms(1)] assms(2-8) S assms(10-15)] goodD(2) [OF assms(1)] by (simp add: good_def)
qed

lemma good_moves:
  assumes "good b"
  shows "s_pc (bd_sessionOf b sid) = Running \<Longrightarrow> good (close_begin sid b)"
    "s_pc (bd_sessionOf b sid) = Dialing \<Longrightarrow> good (dial_failed sid reason b)"
    "s_pc (bd_sessionOf b sid) = Dialing \<Longrightarrow> good (dial_succeeded sid b)"
    "s_pc (bd_sessionOf b sid) = Unregistering \<Longrightarrow> good (close_unregister sid b)"
  by (rule good_move [OF assms, of _ sid];
      simp add: close_begin_def dial_failed_def dial_succeeded_def set_pc_def setConn_def close_unregister_def Let_def open_pc_def)+

lemma close_detach_fields:
  "bd_endpoints (close_detach sid b) = bd_endpoints b" "bd_nextEndpoint (close_detach sid b) = bd_nextEndpoint b"
  "bd_workers (close_detach sid b) = bd_workers b" "bd_todo (close_detach sid b) = bd_todo b"
  "bd_ctxDone (close_detach sid b) = bd_ctxDone b" "bd_closing (close_detach sid b) = bd_closing b"
  "bd_sessionOf (close_detach sid b) = (bd_sessionOf b)(sid := (bd_sessionOf b sid)\<lparr>s_pc := Rescheduling\<rparr>)"
  by (simp_all add: close_detach_def set_pc_def Let_def)

lemma close_detach_endpoint:
  fixes b :: Bind and sid :: nat
  defines "i \<equiv> s_endpoint (bd_sessionOf b sid)"
  shows "j \<noteq> i \<Longrightarrow> bd_endpointOf (close_detach sid b) j = bd_endpointOf b j"
    "ep_view (bd_endpointOf (close_detach sid b) i) =
       ep_view ((bd_endpointOf b i)\<lparr>ep_session := (if ep_session (bd_endpointOf b i) = Some sid then None else ep_session (bd_endpointOf b i))\<rparr>)"
  by (simp_all add: i_def close_detach_def set_pc_def Let_def ep_view_def split: option.splits)

lemma close_detach_view:
  "ep_addr (bd_endpointOf (close_detach sid b) j) = ep_addr (bd_endpointOf b j)"
  "ep_route (bd_endpointOf (close_detach sid b) j) = ep_route (bd_endpointOf b j)"
  "ep_activated (bd_endpointOf (close_detach sid b) j) = ep_activated (bd_endpointOf b j)"
  "ep_retired (bd_endpointOf (close_detach sid b) j) = ep_retired (bd_endpointOf b j)"
  "ep_reconnectScheduled (bd_endpointOf (close_detach sid b) j) = ep_reconnectScheduled (bd_endpointOf b j)"
  "ep_reconnectCancel (bd_endpointOf (close_detach sid b) j) = ep_reconnectCancel (bd_endpointOf b j)"
  "ep_reconnectGeneration (bd_endpointOf (close_detach sid b) j) = ep_reconnectGeneration (bd_endpointOf b j)"
  "isConfigured (bd_endpointOf (close_detach sid b) j) = isConfigured (bd_endpointOf b j)"
  "currentRoute (bd_endpointOf (close_detach sid b) j) = currentRoute (bd_endpointOf b j)"
  "ep_session (bd_endpointOf (close_detach sid b) j) =
     (if j = s_endpoint (bd_sessionOf b sid) \<and> ep_session (bd_endpointOf b j) = Some sid then None else ep_session (bd_endpointOf b j))"
  using close_detach_endpoint(1) [where b = b and sid = sid and j = j] close_detach_endpoint(2) [where b = b and sid = sid]
  by (cases "j = s_endpoint (bd_sessionOf b sid)"; simp add: ep_view_def isConfigured_def currentRoute_def)+

lemma good_detach:
  assumes ok: "good b" and pc: "s_pc (bd_sessionOf b sid) = Detaching"
  shows "good (close_detach sid b)"
proof -
  note reg = reg_okD [OF goodD(3) [OF ok]] and sess = sess_okD [OF goodD(4) [OF ok]]
  note f = close_detach_fields [of sid b] and e = close_detach_view [of sid b]
  have r: "reg_ok (close_detach sid b)" using goodD(3) [OF ok] unfolding reg_ok_def f e by simp
  have w: "work_ok (close_detach sid b)" using goodD(5) [OF ok] unfolding work_ok_def f e by simp
  have s: "sess_ok (close_detach sid b)"
    unfolding sess_ok_def f e
  proof (intro conjI allI impI)
    fix j x assume j: "(if j = s_endpoint (bd_sessionOf b sid) \<and> ep_session (bd_endpointOf b j) = Some sid then None
      else ep_session (bd_endpointOf b j)) = Some x"
    then have "x \<noteq> sid" using sess(2) [of j sid] by (auto split: if_splits)
    then show "s_endpoint (((bd_sessionOf b)(sid := (bd_sessionOf b sid)\<lparr>s_pc := Rescheduling\<rparr>)) x) = j"
      "s_pc (((bd_sessionOf b)(sid := (bd_sessionOf b sid)\<lparr>s_pc := Rescheduling\<rparr>)) x) \<notin> {Rescheduling, Ended}"
      using sess(2) [of j x] j by (auto split: if_splits)
  next
    fix x assume x: "s_role (((bd_sessionOf b)(sid := (bd_sessionOf b sid)\<lparr>s_pc := Rescheduling\<rparr>)) x) = Outbound
      \<and> open_pc (s_pc (((bd_sessionOf b)(sid := (bd_sessionOf b sid)\<lparr>s_pc := Rescheduling\<rparr>)) x))
      \<and> \<not> s_ctxDone (((bd_sessionOf b)(sid := (bd_sessionOf b sid)\<lparr>s_pc := Rescheduling\<rparr>)) x)"
    then have n: "x \<noteq> sid" by (auto simp: open_pc_def)
    then have "ep_session (bd_endpointOf b (s_endpoint (bd_sessionOf b x))) = Some x" using sess(4) [of x] x by simp
    then show "(if s_endpoint (((bd_sessionOf b)(sid := (bd_sessionOf b sid)\<lparr>s_pc := Rescheduling\<rparr>)) x) = s_endpoint (bd_sessionOf b sid)
        \<and> ep_session (bd_endpointOf b (s_endpoint (((bd_sessionOf b)(sid := (bd_sessionOf b sid)\<lparr>s_pc := Rescheduling\<rparr>)) x))) = Some sid then None
        else ep_session (bd_endpointOf b (s_endpoint (((bd_sessionOf b)(sid := (bd_sessionOf b sid)\<lparr>s_pc := Rescheduling\<rparr>)) x)))) = Some x"
      using n by simp
  qed (use sess(1) [of sid] sess(1,3) pc in \<open>auto split: if_splits\<close>)
  have m: "maintained (close_detach sid b) j" if "maintained b j" for j
  proof -
    have "will_resume (close_detach sid b) sid j" if "j = s_endpoint (bd_sessionOf b sid)" using that by (simp add: will_resume_def f)
    moreover have "will_resume b x j \<Longrightarrow> will_resume (close_detach sid b) x j" for x
      using pc by (auto simp: will_resume_def f e)
    ultimately show ?thesis using that unfolding maintained_def busy_def f e by (auto split: if_splits)
  qed
  have "maint_but {} (close_detach sid b)"
    by (rule maint_mono [OF goodD(2) [OF ok]]) (use m in \<open>auto simp: f e eligible_def unshared_def\<close>)
  then show ?thesis using r w s by (simp add: good_def bind_inv_def)
qed

text \<open>The last section of a close: the session ends after its endpoint is settled.\<close>

lemma good_end:
  assumes ok: "good b" and pc: "s_pc (bd_sessionOf b sid) = Rescheduling"
    and settled: "\<And>j. will_resume b sid j \<Longrightarrow> eligible b j \<Longrightarrow> settled b j"
  shows "good (set_pc sid Ended b)"
proof -
  define s where "s = (bd_sessionOf b sid)\<lparr>s_pc := Ended\<rparr>"
  have b': "set_pc sid Ended b = set_session sid s b" by (simp add: set_pc_def s_def)
  note reg = reg_okD [OF goodD(3) [OF ok]] and sess = sess_okD [OF goodD(4) [OF ok]]
  have r: "reg_ok (set_session sid s b)" using goodD(3) [OF ok] by (simp add: reg_ok_def)
  have w: "work_ok (set_session sid s b)" using goodD(5) [OF ok] by (simp add: work_ok_def)
  have "sess_ok (set_session sid s b)"
    unfolding sess_ok_def
    using sess(1,3,4) sess(2) pc by (auto simp: s_def open_pc_def split: if_splits)
  moreover have "maint_but {} (set_session sid s b)"
  proof (rule maint_mono [OF goodD(2) [OF ok]])
    fix j assume e: "eligible (set_session sid s b) j" and c: "\<not> bd_closing (set_session sid s b)"
    then have e': "eligible b j" by (simp add: eligible_def unshared_def)
    have other: "will_resume b x j \<Longrightarrow> x \<noteq> sid \<Longrightarrow> will_resume (set_session sid s b) x j" for x by (simp add: will_resume_def)
    have "maintained b j \<Longrightarrow> maintained (set_session sid s b) j"
      using settled [OF _ e'] other reg(1) e' c unfolding maintained_def busy_def settled_def eligible_def by (metis set_fields)
    then show "j \<notin> {} \<and> eligible b j \<and> (maintained b j \<longrightarrow> maintained (set_session sid s b) j) \<or> maintained (set_session sid s b) j"
      using e' by blast
  qed simp
  ultimately show ?thesis unfolding b' using r w by (simp add: good_def bind_inv_def)
qed

lemma maint_weaken: "maint_but X b \<Longrightarrow> X \<subseteq> Y \<Longrightarrow> maint_but Y b"
  by (auto simp: maint_but_def)

lemma good_schedule: "good b \<Longrightarrow> good (scheduleEndpointReconnect i im b)"
  using bind_inv_schedule maint_schedule [of b i "{}"] maint_weaken [of "{}" b "{i}"] by (simp add: good_def)

lemma good_resume: "good b \<Longrightarrow> good (resumeConfiguredReconnect a b)"
  by (simp add: resumeConfiguredReconnect_def good_schedule split: option.splits)

lemma resume_keeps:
  "ep_addr (bd_endpointOf (resumeConfiguredReconnect a b) j) = ep_addr (bd_endpointOf b j)"
  "isConfigured (bd_endpointOf (resumeConfiguredReconnect a b) j) = isConfigured (bd_endpointOf b j)"
  "bd_endpoints (resumeConfiguredReconnect a b) = bd_endpoints b"
  by (simp_all add: resumeConfiguredReconnect_def schedule_keeps schedule_configured split: option.splits)

lemma good_reschedule:
  assumes ok: "good b" and pc: "s_pc (bd_sessionOf b sid) = Rescheduling"
  shows "good (close_reschedule sid b)"
proof -
  define i where "i = s_endpoint (bd_sessionOf b sid)"
  define b1 where "b1 = (if isConfigured (bd_endpointOf b i) then scheduleEndpointReconnect i False b
    else resumeConfiguredReconnect (ep_addr (bd_endpointOf b i)) b)"
  have c: "close_reschedule sid b = set_pc sid Ended b1" by (simp add: close_reschedule_def i_def b1_def Let_def)
  have g: "good b1" by (simp add: b1_def ok good_schedule good_resume)
  have [simp]: "bd_sessionOf b1 = bd_sessionOf b" "bd_endpoints b1 = bd_endpoints b" "ep_addr (bd_endpointOf b1 j) = ep_addr (bd_endpointOf b j)"
    "isConfigured (bd_endpointOf b1 j) = isConfigured (bd_endpointOf b j)" for j
    by (simp_all add: b1_def resume_keeps schedule_keeps schedule_configured)
  show ?thesis unfolding c
  proof (rule good_end [OF g])
    fix j assume w: "will_resume b1 sid j" and e: "eligible b1 j"
    have reg: "map_of (bd_endpoints b) (ep_addr (bd_endpointOf b j)) = Some j" using e by (simp add: eligible_def)
    then have conf: "isConfigured (bd_endpointOf b j)" using reg_okD(1) [OF goodD(3) [OF ok]] by blast
    show "settled b1 j"
    proof (cases "isConfigured (bd_endpointOf b i)")
      case True
      then have "s_role (bd_sessionOf b sid) = Outbound" using sess_okD(1) [OF goodD(4) [OF ok], of sid] pc by (simp add: i_def)
      then have "j = i" using w by (simp add: will_resume_def i_def)
      then show ?thesis using True schedule_settled [OF goodD(1) [OF ok]] by (simp add: b1_def)
    next
      case False
      then have "ep_addr (bd_endpointOf b i) = ep_addr (bd_endpointOf b j)" using w conf by (auto simp: will_resume_def i_def)
      then show ?thesis
        using False reg schedule_settled [OF goodD(1) [OF ok], of j True] by (simp add: b1_def resumeConfiguredReconnect_def)
    qed
  qed (simp add: pc)
qed

lemma good_suspend:
  assumes ok: "good b" and pc: "s_pc (bd_sessionOf b sid) = Suspending"
  shows "good (acceptSuspend sid b)"
proof -
  define a where "a = ep_addr (bd_endpointOf b (s_endpoint (bd_sessionOf b sid)))"
  have "good (suspendConfiguredReconnect a b)"
  proof (cases "map_of (bd_endpoints b) a")
    case (Some k)
    define b0 where "b0 = set_endpoint k ((bd_endpointOf b k)\<lparr>ep_consecutiveFailures := 0\<rparr>) b"
    have b0: "good b0" using goodD(1,2) [OF ok] unfolding b0_def by (intro goodI; elim frame [rotated -1]; simp)
    have "ep_addr (bd_endpointOf b k) = a" using reg_okD(1) [OF goodD(3) [OF ok] Some] by simp
    then have "ep_addr (bd_endpointOf b0 k) = a" by (simp add: b0_def)
    moreover have "ep_addr (bd_endpointOf b0 (s_endpoint (bd_sessionOf b sid))) = a" by (simp add: b0_def a_def)
    moreover have "bd_sessionOf b0 = bd_sessionOf b" by (simp add: b0_def)
    ultimately have "will_resume (cancelReconnectLocked k b0) sid k"
      using pc sess_okD(3) [OF goodD(4) [OF ok] pc] by (simp add: will_resume_def)
    then have "maintained (cancelReconnectLocked k b0) k" by (auto simp: maintained_def)
    moreover have "maint_but {k} (cancelReconnectLocked k b0)" using maint_cancel [OF goodD(2) [OF b0]] by simp
    ultimately have "maint_but {} (cancelReconnectLocked k b0)" by (auto simp: maint_but_def)
    then show ?thesis using bind_inv_cancel [OF goodD(1) [OF b0], of k] by (simp add: suspendConfiguredReconnect_def Some b0_def good_def)
  qed (use ok in \<open>simp add: suspendConfiguredReconnect_def\<close>)
  then show ?thesis unfolding acceptSuspend_def a_def [symmetric]
    by (rule good_move [where sid = sid]) (use pc in \<open>simp_all add: set_pc_def open_pc_def\<close>)
qed

lemma good_todo:
  assumes ok: "good b"
  shows "good (todo_reconnect i b)"
proof -
  define b0 where "b0 = b\<lparr>bd_todo := remove1 i (bd_todo b)\<rparr>"
  have inv: "bind_inv b0" using goodD(1) [OF ok] by (simp add: b0_def bind_inv_def reg_ok_def sess_ok_def work_ok_def)
  have "maint_but {i} b0"
    by (rule maint_mono [OF goodD(2) [OF ok]])
      (auto simp: b0_def eligible_def unshared_def maintained_def busy_def will_resume_def)
  then have "maint_but {} (scheduleEndpointReconnect i True b0)" using maint_schedule [OF inv] by blast
  then show ?thesis using bind_inv_schedule [OF inv] by (simp add: todo_reconnect_def b0_def good_def)
qed

text \<open>An endpoint gives up its session, which is cancelled.\<close>

lemma drop_session:
  assumes inv: "bind_inv b" and fr: "bd_nextEndpoint b' = bd_nextEndpoint b" "bd_workers b' = bd_workers b" "bd_ctxDone b' = bd_ctxDone b"
      "bd_closing b' = bd_closing b"
    and E: "bd_endpointOf b' = (bd_endpointOf b)(i := e)" "ep_session e = None" "isConfigured e = isConfigured (bd_endpointOf b i)"
      "ep_reconnectScheduled e = ep_reconnectScheduled (bd_endpointOf b i)" "ep_reconnectCancel e = ep_reconnectCancel (bd_endpointOf b i)"
      "ep_reconnectGeneration e = ep_reconnectGeneration (bd_endpointOf b i)"
    and S: "\<And>x. s_view (bd_sessionOf b' x) = s_view (bd_sessionOf b x)" "\<And>x. s_ctxDone (bd_sessionOf b x) \<Longrightarrow> s_ctxDone (bd_sessionOf b' x)"
      "\<And>x. ep_session (bd_endpointOf b i) = Some x \<Longrightarrow> s_ctxDone (bd_sessionOf b' x)"
  shows "sess_ok b'" "work_ok b'"
proof -
  have ok: "sess_ok b" "work_ok b" using inv by (simp_all add: bind_inv_def)
  note s = s_viewD [OF S(1)]
  show "sess_ok b'"
    unfolding sess_ok_def s fr
  proof (intro conjI allI impI)
    fix x assume x: "s_role (bd_sessionOf b x) = Outbound \<and> open_pc (s_pc (bd_sessionOf b x)) \<and> \<not> s_ctxDone (bd_sessionOf b' x)"
    then have "ep_session (bd_endpointOf b (s_endpoint (bd_sessionOf b x))) = Some x" using sess_okD(4) [OF ok(1), of x] S(2) [of x] by blast
    moreover from this have "s_endpoint (bd_sessionOf b x) \<noteq> i" using S(3) [of x] x by auto
    ultimately show "ep_session (bd_endpointOf b' (s_endpoint (bd_sessionOf b x))) = Some x" by (simp add: E)
  qed (use sess_okD(1-3) [OF ok(1)] in \<open>auto simp: E split: if_splits\<close>)
  show "work_ok b'" using ok(2) unfolding work_ok_def fr E(1) by (auto simp: E)
qed

lemma end_session_views:
  "s_view (bd_sessionOf (end_session r o' b) x) = s_view (bd_sessionOf b x)"
  "s_ctxDone (bd_sessionOf b x) \<Longrightarrow> s_ctxDone (bd_sessionOf (end_session r o' b) x)"
  "o' = Some x \<Longrightarrow> s_ctxDone (bd_sessionOf (end_session r o' b) x)"
  by (auto simp: end_session_def split: option.splits)

lemma good_redial:
  assumes ok: "good b"
  shows "good (RedialEndpoint addr b)"
proof (cases "map_of (bd_endpoints b) addr")
  case (Some i)
  define b1 where "b1 = cancelReconnectLocked i b"
  define e where "e = (bd_endpointOf b1 i)\<lparr>ep_session := None, ep_pendingReplacement :=
    (case ep_session (bd_endpointOf b1 i) of None \<Rightarrow> ep_pendingReplacement (bd_endpointOf b1 i) | Some sid \<Rightarrow> sid)\<rparr>"
  define b' where "b' = RedialEndpoint addr b"
  have b': "b' = (end_session ''endpoint_replaced'' (ep_session (bd_endpointOf b1 i)) (set_endpoint i e b1))\<lparr>bd_todo := i # bd_todo b\<rparr>"
    unfolding b'_def RedialEndpoint_def Some e_def b1_def Let_def by simp
  have inv: "bind_inv b1" unfolding b1_def by (rule bind_inv_cancel [OF goodD(1) [OF ok]])
  have f: "bd_nextEndpoint b' = bd_nextEndpoint b1" "bd_endpoints b' = bd_endpoints b1" "bd_workers b' = bd_workers b1"
    "bd_ctxDone b' = bd_ctxDone b1" "bd_closing b' = bd_closing b1" "bd_endpointOf b' = (bd_endpointOf b1)(i := e)" "bd_todo b' = i # bd_todo b1"
    by (simp_all add: b' b1_def)
  have e: "ep_session e = None" "ep_addr e = ep_addr (bd_endpointOf b1 i)" "isConfigured e = isConfigured (bd_endpointOf b1 i)"
    "currentRoute e = currentRoute (bd_endpointOf b1 i)" "ep_retired e = ep_retired (bd_endpointOf b1 i)"
    "ep_reconnectScheduled e = ep_reconnectScheduled (bd_endpointOf b1 i)" "ep_activated e = ep_activated (bd_endpointOf b1 i)"
    "ep_reconnectCancel e = ep_reconnectCancel (bd_endpointOf b1 i)" "ep_reconnectGeneration e = ep_reconnectGeneration (bd_endpointOf b1 i)"
    by (simp_all add: e_def isConfigured_def currentRoute_def)
  have s: "sess_ok b'" "work_ok b'"
    by (rule drop_session [OF inv f(1,3,4,5,6)]; simp add: e b' end_session_views)+
  have "reg_ok b1" using inv by (simp add: bind_inv_def)
  then have r: "reg_ok b'" unfolding reg_ok_def f by (auto simp: e)
  have v: "s_view (bd_sessionOf b' x) = s_view (bd_sessionOf b1 x)" for x by (simp add: b' end_session_views)
  have "maint_but {i} b1" using maint_cancel [OF goodD(2) [OF ok]] by (simp add: b1_def)
  then have "maint_but {} b'"
  proof (rule maint_mono)
    fix j assume j: "eligible b' j"
    have "eligible b1 j" using j by (subst (asm) eligible_cong [of _ b1]) (simp_all add: f e)
    moreover have "j \<noteq> i \<Longrightarrow> maintained b1 j \<Longrightarrow> maintained b' j"
      by (auto simp: maintained_def busy_def will_resume_def f s_viewD [OF v] e)
    moreover have "maintained b' i" by (simp add: maintained_def f)
    ultimately show "j \<notin> {i} \<and> eligible b1 j \<and> (maintained b1 j \<longrightarrow> maintained b' j) \<or> maintained b' j" by blast
  qed (simp add: f)
  then show ?thesis using r s by (simp add: b'_def good_def bind_inv_def)
qed (use ok in \<open>simp add: RedialEndpoint_def\<close>)

lemma good_retire:
  assumes ok: "good b"
  shows "good (RetireEndpoint addr b)"
proof (cases "map_of (bd_endpoints b) addr")
  case (Some i)
  define b1 where "b1 = cancelReconnectLocked i b"
  define e where "e = (bd_endpointOf b i)\<lparr>ep_retired := True, ep_activated := False,
    ep_reconnectGeneration := ep_reconnectGeneration (bd_endpointOf b i) + 1, ep_reconnectScheduled := False, ep_reconnectCancel := None,
    ep_nextReconnect := None, ep_session := None\<rparr>"
  define b' where "b' = RetireEndpoint addr b"
  have inv: "bind_inv b1" unfolding b1_def by (rule bind_inv_cancel [OF goodD(1) [OF ok]])
  have f: "bd_nextEndpoint b' = bd_nextEndpoint b1" "bd_endpoints b' = AList.delete addr (bd_endpoints b1)" "bd_workers b' = bd_workers b1"
    "bd_ctxDone b' = bd_ctxDone b1" "bd_closing b' = bd_closing b1" "bd_endpointOf b' = (bd_endpointOf b1)(i := e)" "bd_todo b' = bd_todo b1"
    by (simp_all add: b'_def RetireEndpoint_def Some b1_def cancel_workers cancel_endpointOf e_def Let_def)
  have v: "s_view (bd_sessionOf b' x) = s_view (bd_sessionOf b1 x)" "s_ctxDone (bd_sessionOf b1 x) \<Longrightarrow> s_ctxDone (bd_sessionOf b' x)"
    "ep_session (bd_endpointOf b1 i) = Some x \<Longrightarrow> s_ctxDone (bd_sessionOf b' x)" for x
    by (simp_all add: b'_def RetireEndpoint_def Some b1_def Let_def end_session_views)
  have e: "ep_session e = None" "ep_addr e = ep_addr (bd_endpointOf b1 i)" "isConfigured e = isConfigured (bd_endpointOf b1 i)"
    "currentRoute e = currentRoute (bd_endpointOf b1 i)" "ep_retired e" "\<not> ep_activated e"
    "ep_reconnectScheduled e = ep_reconnectScheduled (bd_endpointOf b1 i)"
    "ep_reconnectCancel e = ep_reconnectCancel (bd_endpointOf b1 i)" "ep_reconnectGeneration e = ep_reconnectGeneration (bd_endpointOf b1 i)"
    by (simp_all add: e_def b1_def cancel_endpointOf isConfigured_def currentRoute_def)
  have s: "sess_ok b'" "work_ok b'"
    by (rule drop_session [OF inv f(1,3,4,5,6)]; simp add: e v)+
  have r1: "reg_ok b1" using inv by (simp add: bind_inv_def)
  have i: "ep_addr (bd_endpointOf b1 i) = addr" using reg_okD(1) [OF r1, of addr i] Some by (simp add: b1_def)
  have m: "map_of (bd_endpoints b') a = Some j \<longleftrightarrow> a \<noteq> addr \<and> map_of (bd_endpoints b1) a = Some j" for a j
    by (simp add: f(2) delete_conv')
  have "map_of (bd_endpoints b1) a = Some i \<Longrightarrow> a = addr" for a using reg_okD(1) [OF r1, of a i] i by simp
  then have r: "reg_ok b'" using r1 unfolding reg_ok_def m f(1,6) by (auto simp: e)
  have "maint_but {i} b1" using maint_cancel [OF goodD(2) [OF ok]] by (simp add: b1_def)
  then have "maint_but {} b'"
  proof (rule maint_mono)
    fix j assume j: "eligible b' j"
    have n: "j \<noteq> i" "ep_addr (bd_endpointOf b1 j) \<noteq> addr" using j by (auto simp: eligible_def m f(6) e split: if_splits)
    then have "eligible b1 j" using j i by (auto simp: eligible_def unshared_def m f(1,6) e split: if_splits)
    moreover have "maintained b1 j \<Longrightarrow> maintained b' j"
      using n(1) by (auto simp: maintained_def busy_def will_resume_def f(3,6,7) s_viewD [OF v(1)] e)
    ultimately show "j \<notin> {i} \<and> eligible b1 j \<and> (maintained b1 j \<longrightarrow> maintained b' j) \<or> maintained b' j" using n by blast
  qed (simp add: f)
  then show ?thesis using r s by (simp add: b'_def good_def bind_inv_def)
qed (use ok in \<open>simp add: RetireEndpoint_def\<close>)

text \<open>A new endpoint object.\<close>

lemma add_endpoint:
  assumes ok: "good b" and i: "i = bd_nextEndpoint b"
    and E: "bd_endpointOf b' = (bd_endpointOf b)(i := newEndpoint addr r)"
    and fr: "bd_nextEndpoint b' = i + 1" "bd_workers b' = bd_workers b" "bd_ctxDone b' = bd_ctxDone b" "bd_closing b' = bd_closing b"
      "bd_todo b' = bd_todo b" "bd_sessionOf b' = bd_sessionOf b"
    and eps: "bd_endpoints b' = bd_endpoints b
      \<or> snd r \<and> map_of (bd_endpoints b) addr = None \<and> bd_endpoints b' = AList.update addr i (bd_endpoints b)"
    and route: "\<And>f. fst r = Some f \<Longrightarrow> isConfigured (bd_endpointOf b f)"
  shows "good b'"
proof -
  note reg = reg_okD [OF goodD(3) [OF ok]] and sess = sess_okD [OF goodD(4) [OF ok]] and work = work_okD [OF goodD(5) [OF ok]]
  have e: "ep_addr (newEndpoint addr r) = addr" "ep_session (newEndpoint addr r) = None" "isConfigured (newEndpoint addr r) = snd r"
    "fst (currentRoute (newEndpoint addr r)) = fst r" "\<not> ep_retired (newEndpoint addr r)" "\<not> ep_activated (newEndpoint addr r)"
    "\<not> ep_reconnectScheduled (newEndpoint addr r)"
    by (simp_all add: newEndpoint_def isConfigured_def currentRoute_def)
  have conf: "isConfigured (bd_endpointOf b j) \<Longrightarrow> j \<noteq> i" for j using reg(2) [of j] i by blast
  have m: "map_of (bd_endpoints b') a = Some j \<Longrightarrow> map_of (bd_endpoints b) a = Some j \<or> a = addr \<and> j = i \<and> snd r" for a j
    using eps by (auto simp: update_conv' split: if_splits)
  have "reg_ok b'"
    unfolding reg_ok_def E fr
  proof (intro conjI allI impI)
    fix a j assume "map_of (bd_endpoints b') a = Some j"
    then have "map_of (bd_endpoints b) a = Some j \<or> a = addr \<and> j = i \<and> snd r" by (rule m)
    then show "j < i + 1" "ep_addr (((bd_endpointOf b)(i := newEndpoint addr r)) j) = a"
      "isConfigured (((bd_endpointOf b)(i := newEndpoint addr r)) j)" "\<not> ep_retired (((bd_endpointOf b)(i := newEndpoint addr r)) j)"
      using reg(1) [of a j] conf [of j] i by (auto simp: e)
  next
    fix j f assume j: "fst (currentRoute (((bd_endpointOf b)(i := newEndpoint addr r)) j)) = Some f"
    then have "isConfigured (bd_endpointOf b f)" using route [of f] reg(4) [of j f] by (auto simp: e split: if_splits)
    then show "isConfigured (((bd_endpointOf b)(i := newEndpoint addr r)) f)" using conf [of f] by simp
  qed (use reg(2,3) i in \<open>auto simp: e split: if_splits\<close>)
  moreover have old: "s_pc (bd_sessionOf b x) \<noteq> Ended \<Longrightarrow> s_endpoint (bd_sessionOf b x) \<noteq> i" for x using sess(1) [of x] i by auto
  have "sess_ok b'"
    unfolding sess_ok_def E fr
  proof (intro conjI allI impI)
    fix x assume "s_pc (bd_sessionOf b x) \<noteq> Ended"
    then show "s_endpoint (bd_sessionOf b x) < i + 1" using sess(1) [of x] i by simp
  next
    fix x assume x: "s_role (bd_sessionOf b x) = Outbound \<and> open_pc (s_pc (bd_sessionOf b x)) \<and> \<not> s_ctxDone (bd_sessionOf b x)"
    then have "s_pc (bd_sessionOf b x) \<noteq> Ended" by (auto simp: open_pc_def)
    then show "ep_session (((bd_endpointOf b)(i := newEndpoint addr r)) (s_endpoint (bd_sessionOf b x))) = Some x"
      using old [of x] sess(4) [of x] x by simp
  qed (use sess(1-3) old i in \<open>auto simp: e split: if_splits\<close>)
  moreover have "work_ok b'"
  proof -
    have "wk_endpoint w \<noteq> i" if "w \<in> set (bd_workers b)" for w using work(2) [OF that] conf by blast
    then show ?thesis using work unfolding work_ok_def E fr by (auto simp: e)
  qed
  moreover have "maint_but {} b'"
  proof (rule maint_mono [OF goodD(2) [OF ok]])
    fix j assume j: "eligible b' j"
    then have n: "j \<noteq> i" by (auto simp: eligible_def E e)
    have "map_of (bd_endpoints b) (ep_addr (bd_endpointOf b j)) = Some j"
      using j n m [of "ep_addr (bd_endpointOf b j)" j] by (simp add: eligible_def E)
    moreover have "unshared b j" using j n i by (auto simp: eligible_def unshared_def E fr less_Suc_eq)
    ultimately have "eligible b j" using j n by (simp add: eligible_def E)
    moreover have "will_resume b x j \<Longrightarrow> will_resume b' x j" for x
      using n old [of x] by (auto simp: will_resume_def E fr)
    then have "maintained b j \<longrightarrow> maintained b' j" using n by (auto simp: maintained_def busy_def E fr)
    ultimately show "j \<notin> {} \<and> eligible b j \<and> (maintained b j \<longrightarrow> maintained b' j) \<or> maintained b' j" by blast
  qed (simp add: fr)
  ultimately show ?thesis by (simp add: good_def bind_inv_def)
qed

lemma good_parse:
  assumes ok: "good b"
  shows "good (snd (ParseEndpoint opened addr b))"
proof (cases "if opened then map_of (bd_endpoints b) addr else None")
  case None
  then show ?thesis
    by (intro add_endpoint [OF ok refl, of _ addr "(None, True)"])
      (auto simp: ParseEndpoint_def Let_def simp del: if_split split: if_splits)
next
  case (Some i)
  then have i: "map_of (bd_endpoints b) addr = Some i" by (simp split: if_splits)
  define e where "e = (bd_endpointOf b i)\<lparr>ep_retired := False, ep_route := Some (None, True)\<rparr>"
  have b': "snd (ParseEndpoint opened addr b) = set_endpoint i e b" by (simp add: ParseEndpoint_def Some e_def Let_def)
  note reg = reg_okD(1) [OF goodD(3) [OF ok] i]
  have e: "ep_addr e = ep_addr (bd_endpointOf b i)" "ep_session e = ep_session (bd_endpointOf b i)" "isConfigured e = isConfigured (bd_endpointOf b i)"
    "ep_retired e = ep_retired (bd_endpointOf b i)" "ep_activated e = ep_activated (bd_endpointOf b i)"
    "ep_reconnectScheduled e = ep_reconnectScheduled (bd_endpointOf b i)" "ep_reconnectCancel e = ep_reconnectCancel (bd_endpointOf b i)"
    "ep_reconnectGeneration e = ep_reconnectGeneration (bd_endpointOf b i)" "fst (currentRoute e) = None"
    using reg by (simp_all add: e_def isConfigured_def currentRoute_def)
  have upd: "F (((bd_endpointOf b)(i := e)) j) = F (bd_endpointOf b j)" if "F e = F (bd_endpointOf b i)" for F :: "Endpoint \<Rightarrow> 'a" and j
    using that by simp
  note E = upd [of ep_addr, OF e(1)] upd [of ep_session, OF e(2)] upd [of isConfigured, OF e(3)] upd [of ep_retired, OF e(4)]
    upd [of ep_activated, OF e(5)] upd [of ep_reconnectScheduled, OF e(6)] upd [of ep_reconnectCancel, OF e(7)]
    upd [of ep_reconnectGeneration, OF e(8)]
  have "reg_ok (set_endpoint i e b)" using goodD(3) [OF ok] unfolding reg_ok_def set_fields E by (simp add: e(9))
  moreover have "sess_ok (set_endpoint i e b)" "work_ok (set_endpoint i e b)"
    using goodD(4,5) [OF ok] unfolding sess_ok_def work_ok_def set_fields E by blast+
  moreover have "maint_but {} (set_endpoint i e b)"
    using goodD(2) [OF ok] unfolding maint_but_def eligible_def unshared_def maintained_def busy_def will_resume_def set_fields E .
  ultimately show ?thesis unfolding b' by (simp add: good_def bind_inv_def)
qed

text \<open>A new session takes the place of one that is closed, or of none.\<close>

lemma newSession_fields:
  fixes i ra pc b
  defines "b' \<equiv> snd (newSessionLocked i ra pc b)"
  shows "bd_endpoints b' = bd_endpoints b" "bd_nextEndpoint b' = bd_nextEndpoint b" "bd_workers b' = bd_workers b"
    "bd_todo b' = bd_todo b" "bd_ctxDone b' = bd_ctxDone b" "bd_closing b' = bd_closing b"
    "j \<noteq> i \<Longrightarrow> bd_endpointOf b' j = bd_endpointOf b j" "x \<noteq> bd_nextSession b + 1 \<Longrightarrow> bd_sessionOf b' x = bd_sessionOf b x"
    "ep_view (bd_endpointOf b' i) = ep_view ((bd_endpointOf b i)\<lparr>ep_session := Some (bd_nextSession b + 1)\<rparr>)"
    "s_view (bd_sessionOf b' (bd_nextSession b + 1)) = (if isConfigured (bd_endpointOf b i) then Outbound else Inbound, i, pc)"
  by (simp_all add: b'_def newSessionLocked_def Let_def ep_view_def s_view_def)

lemma good_new_session:
  assumes inv: "bind_inv b" and adm: "adm_inv b" and m: "maint_but {i} b" and i: "i < bd_nextEndpoint b"
    and e: "\<not> ep_reconnectScheduled (bd_endpointOf b i)" "\<not> ep_retired (bd_endpointOf b i)"
      "\<And>x. ep_session (bd_endpointOf b i) = Some x \<Longrightarrow> \<not> open_pc (s_pc (bd_sessionOf b x))"
    and pc: "open_pc pc" "pc = Suspending \<Longrightarrow> \<not> isConfigured (bd_endpointOf b i)"
  shows "good (snd (newSessionLocked i ra pc b))"
proof -
  define b' where "b' = snd (newSessionLocked i ra pc b)"
  define sid where "sid = bd_nextSession b + 1"
  have ok: "reg_ok b" "sess_ok b" "work_ok b" using inv by (simp_all add: bind_inv_def)
  have fresh: "s_pc (bd_sessionOf b sid) = Ended" using adm_invD(4) [OF adm, of sid] by (auto simp: sid_def)
  note f = newSession_fields [where i = i and ra = ra and pc = pc and b = b, folded b'_def sid_def]
  have E: "ep_addr (bd_endpointOf b' j) = ep_addr (bd_endpointOf b j)" "ep_route (bd_endpointOf b' j) = ep_route (bd_endpointOf b j)"
    "ep_activated (bd_endpointOf b' j) = ep_activated (bd_endpointOf b j)" "ep_retired (bd_endpointOf b' j) = ep_retired (bd_endpointOf b j)"
    "ep_reconnectScheduled (bd_endpointOf b' j) = ep_reconnectScheduled (bd_endpointOf b j)"
    "ep_reconnectCancel (bd_endpointOf b' j) = ep_reconnectCancel (bd_endpointOf b j)"
    "ep_reconnectGeneration (bd_endpointOf b' j) = ep_reconnectGeneration (bd_endpointOf b j)"
    "ep_session (bd_endpointOf b' j) = (if j = i then Some sid else ep_session (bd_endpointOf b j))" for j
    using f(7) [of j] f(9) by (cases "j = i"; simp add: ep_view_def)+
  have C: "isConfigured (bd_endpointOf b' j) = isConfigured (bd_endpointOf b j)" "currentRoute (bd_endpointOf b' j) = currentRoute (bd_endpointOf b j)" for j
    by (simp_all add: isConfigured_def currentRoute_def E)
  have s: "s_role (bd_sessionOf b' sid) = (if isConfigured (bd_endpointOf b i) then Outbound else Inbound)" "s_endpoint (bd_sessionOf b' sid) = i"
    "s_pc (bd_sessionOf b' sid) = pc" using f(10) by (simp_all add: s_view_def)
  have "reg_ok b'" using ok(1) e(2) i unfolding reg_ok_def f(1,2) E C by auto
  moreover have "work_ok b'" using ok(3) e(1) unfolding work_ok_def f(3,5,6) E C by auto
  moreover have "sess_ok b'"
    unfolding sess_ok_def f(2) E(8) C
  proof (intro conjI allI impI)
    fix j x assume j: "(if j = i then Some sid else ep_session (bd_endpointOf b j)) = Some x"
    show "s_endpoint (bd_sessionOf b' x) = j" "s_pc (bd_sessionOf b' x) \<notin> {Rescheduling, Ended}"
      using j f(8) [of x] s pc(1) fresh sess_okD(2) [OF ok(2), of j x] by (cases "x = sid"; auto simp: open_pc_def split: if_splits)+
  next
    fix x assume x: "s_role (bd_sessionOf b' x) = Outbound \<and> open_pc (s_pc (bd_sessionOf b' x)) \<and> \<not> s_ctxDone (bd_sessionOf b' x)"
    show "(if s_endpoint (bd_sessionOf b' x) = i then Some sid else ep_session (bd_endpointOf b (s_endpoint (bd_sessionOf b' x)))) = Some x"
    proof (cases "x = sid")
      case False
      then have "ep_session (bd_endpointOf b (s_endpoint (bd_sessionOf b x))) = Some x" "open_pc (s_pc (bd_sessionOf b x))"
        using sess_okD(4) [OF ok(2), of x] x f(8) [of x] by simp_all
      then show ?thesis using e(3) [of x] f(8) [OF False] by auto
    qed (simp add: s)
  next
    fix x assume x: "s_pc (bd_sessionOf b' x) \<noteq> Ended"
    show "s_endpoint (bd_sessionOf b' x) < bd_nextEndpoint b"
      "(s_role (bd_sessionOf b' x) = Outbound) = isConfigured (bd_endpointOf b (s_endpoint (bd_sessionOf b' x)))"
      using x f(8) [of x] s i sess_okD(1) [OF ok(2), of x] by (cases "x = sid"; simp)+
  next
    fix x assume "s_pc (bd_sessionOf b' x) = Suspending"
    then show "s_role (bd_sessionOf b' x) = Inbound"
      using f(8) [of x] s pc(2) sess_okD(3) [OF ok(2), of x] by (cases "x = sid") simp_all
  qed
  moreover have "maint_but {} b'"
  proof (rule maint_mono [OF m])
    fix j assume j: "eligible b' j"
    have "eligible b j" using j by (subst (asm) eligible_cong [of _ b]) (simp_all add: f(1,2) E C)
    moreover have "will_resume b x j \<Longrightarrow> will_resume b' x j" for x
      using f(8) [of x] fresh by (cases "x = sid") (auto simp: will_resume_def E)
    then have "maintained b j \<longrightarrow> maintained b' j" unfolding maintained_def busy_def f(3,4) E by auto
    moreover have "maintained b' i" by (simp add: maintained_def E)
    ultimately show "j \<notin> {i} \<and> eligible b j \<and> (maintained b j \<longrightarrow> maintained b' j) \<or> maintained b' j" by auto
  qed (simp add: f)
  ultimately show ?thesis by (simp add: b'_def good_def bind_inv_def)
qed

lemma good_accept:
  assumes ok: "good b" and adm: "adm_inv b"
  shows "good (acceptSession remote b)"
proof -
  define i where "i = bd_nextEndpoint b"
  define b1 where "b1 = (set_endpoint i (newEndpoint remote (map_of (bd_endpoints b) remote, False)) b)\<lparr>bd_nextEndpoint := i + 1\<rparr>"
  define b2 where "b2 = snd (newSessionLocked i False Suspending b1)"
  have a: "acceptSession remote b = (if bd_closing b \<or> bd_ctxDone b then b
      else if \<not> admitSessionLocked True b then b\<lparr>bd_admissionRejected := bd_admissionRejected b + 1\<rparr>
      else setConn (fst (newSessionLocked i False Suspending b1)) b2)"
    unfolding acceptSession_def Let_def i_def b1_def b2_def by (simp add: split_beta)
  have b1: "good b1"
    by (rule add_endpoint [OF ok i_def, of _ remote "(map_of (bd_endpoints b) remote, False)"])
      (use reg_okD(1) [OF goodD(3) [OF ok], of remote] in \<open>simp_all add: b1_def\<close>)
  have "adm_inv b1" by (rule adm_inv_cong [OF adm]) (simp_all add: b1_def)
  then have b2: "good b2"
    unfolding b2_def
    by (intro good_new_session goodD(1) [OF b1] maint_weaken [OF goodD(2) [OF b1]])
      (simp_all add: b1_def newEndpoint_def isConfigured_def open_pc_def)
  have "good (b\<lparr>bd_admissionRejected := n\<rparr>)" for n using goodD(1,2) [OF ok] by (intro goodI; elim frame [rotated -1]; simp)
  moreover have "good (setConn sid b2)" for sid
    using goodD(1,2) [OF b2] by (intro goodI; elim frame [rotated -1]; auto simp: setConn_def Let_def)
  ultimately show ?thesis using ok by (simp add: a)
qed

lemma register_endpoint:
  assumes ok: "good b" and i: "isConfigured (bd_endpointOf b i)" "\<not> ep_retired (bd_endpointOf b i)"
    and fr: "bd_nextEndpoint b' = bd_nextEndpoint b" "bd_workers b' = bd_workers b" "bd_ctxDone b' = bd_ctxDone b" "bd_closing b' = bd_closing b"
      "bd_todo b' = bd_todo b" "bd_sessionOf b' = bd_sessionOf b"
    and E: "bd_endpointOf b' = (bd_endpointOf b)(i := (bd_endpointOf b i)\<lparr>ep_activated := True, ep_reconnectAttempts := n\<rparr>)"
    and eps: "bd_endpoints b' = (if map_of (bd_endpoints b) (ep_addr (bd_endpointOf b i)) = None
        then AList.update (ep_addr (bd_endpointOf b i)) i (bd_endpoints b) else bd_endpoints b)"
  shows "bind_inv b'" "maint_but {i} b'"
proof -
  have view: "ep_addr (bd_endpointOf b' j) = ep_addr (bd_endpointOf b j)" "ep_session (bd_endpointOf b' j) = ep_session (bd_endpointOf b j)"
    "ep_retired (bd_endpointOf b' j) = ep_retired (bd_endpointOf b j)" "isConfigured (bd_endpointOf b' j) = isConfigured (bd_endpointOf b j)"
    "currentRoute (bd_endpointOf b' j) = currentRoute (bd_endpointOf b j)"
    "ep_reconnectScheduled (bd_endpointOf b' j) = ep_reconnectScheduled (bd_endpointOf b j)"
    "ep_reconnectCancel (bd_endpointOf b' j) = ep_reconnectCancel (bd_endpointOf b j)"
    "ep_reconnectGeneration (bd_endpointOf b' j) = ep_reconnectGeneration (bd_endpointOf b j)"
    "j \<noteq> i \<Longrightarrow> ep_activated (bd_endpointOf b' j) = ep_activated (bd_endpointOf b j)" for j
    by (simp_all add: E isConfigured_def currentRoute_def)
  have n: "i < bd_nextEndpoint b" using reg_okD(2) [OF goodD(3) [OF ok], of i] i(1) by (meson not_le)
  have m: "map_of (bd_endpoints b') a = Some j \<Longrightarrow> map_of (bd_endpoints b) a = Some j \<or> a = ep_addr (bd_endpointOf b i) \<and> j = i" for a j
    by (simp add: eps update_conv' split: if_splits)
  have "reg_ok b'"
    unfolding reg_ok_def fr view
  proof (intro conjI allI impI)
    fix a j assume "map_of (bd_endpoints b') a = Some j"
    then show "j < bd_nextEndpoint b" "ep_addr (bd_endpointOf b j) = a" "isConfigured (bd_endpointOf b j)" "\<not> ep_retired (bd_endpointOf b j)"
      using m [of a j] reg_okD(1) [OF goodD(3) [OF ok], of a j] i n by auto
  qed (use reg_okD(2-4) [OF goodD(3) [OF ok]] in auto)
  moreover have "sess_ok b'" "work_ok b'" using goodD(4,5) [OF ok] unfolding sess_ok_def work_ok_def fr view by blast+
  ultimately show "bind_inv b'" by (simp add: bind_inv_def)
  show "maint_but {i} b'"
  proof (rule maint_mono [OF goodD(2) [OF ok]])
    fix j assume "j \<notin> {i}" and j: "eligible b' j"
    then have "eligible b j" using m [of "ep_addr (bd_endpointOf b j)" j] by (auto simp: eligible_def unshared_def fr view)
    then show "j \<notin> {} \<and> eligible b j \<and> (maintained b j \<longrightarrow> maintained b' j) \<or> maintained b' j"
      by (auto simp: maintained_def busy_def will_resume_def fr view)
  qed (simp add: fr)
qed

lemma good_dial:
  assumes ok: "good b" and adm: "adm_inv b" and i: "isConfigured (bd_endpointOf b i)"
    and free: "\<And>sid. ep_session (bd_endpointOf b i) = Some sid \<Longrightarrow> s_closed (bd_sessionOf b sid)"
    and d: "dialEndpoint i ra b = (r, b')"
  shows "good b'"
  using d
proof (cases rule: dialEndpoint_cases)
  case rejected
  then show ?thesis using goodD(1,2) [OF ok] by (intro goodI; elim frame [rotated -1]; simp)
next
  case (dialed b1)
  define b0 where "b0 = set_endpoint i ((bd_endpointOf b i)\<lparr>ep_activated := True,
      ep_reconnectAttempts := ep_reconnectAttempts (bd_endpointOf b i) + (if ra then 1 else 0)\<rparr>)
      (if map_of (bd_endpoints b) (ep_addr (bd_endpointOf b i)) = None
       then b\<lparr>bd_endpoints := AList.update (ep_addr (bd_endpointOf b i)) i (bd_endpoints b)\<rparr> else b)"
  have b1: "b1 = cancelReconnectLocked i b0" unfolding b0_def by (rule dialed(3))
  have f: "bd_sessionOf b0 = bd_sessionOf b" "bd_sessions b0 = bd_sessions b" "bd_nextSession b0 = bd_nextSession b" "bd_cfg b0 = bd_cfg b"
    "bd_inboundSessions b0 = bd_inboundSessions b" "bd_pendingInbound b0 = bd_pendingInbound b" "bd_nextEndpoint b0 = bd_nextEndpoint b"
    "ep_session (bd_endpointOf b0 i) = ep_session (bd_endpointOf b i)" "ep_retired (bd_endpointOf b0 i) = ep_retired (bd_endpointOf b i)"
    "isConfigured (bd_endpointOf b0 i) = isConfigured (bd_endpointOf b i)"
    by (simp_all add: b0_def isConfigured_def)
  have b0: "bind_inv b0" "maint_but {i} b0"
    by (rule register_endpoint [OF ok i dialed(1), where n = "ep_reconnectAttempts (bd_endpointOf b i) + (if ra then 1 else 0)"]; simp add: b0_def)+
  have "maint_but {i} b1" using maint_cancel [OF b0(2), of i] by (simp add: b1)
  moreover have "adm_inv b1" by (rule adm_inv_cong [OF adm]) (simp_all add: b1 f)
  moreover have "i < bd_nextEndpoint b" using reg_okD(2) [OF goodD(3) [OF ok], of i] i by (meson not_le)
  moreover have "\<not> open_pc (s_pc (bd_sessionOf b x))" if "ep_session (bd_endpointOf b i) = Some x" for x
    using free [OF that] adm_invD(3) [OF adm, of x] by simp
  ultimately show ?thesis unfolding dialed(4)
    by (intro good_new_session) (use dialed(1) i bind_inv_cancel [OF b0(1), of i] in \<open>simp_all add: b1 f cancel_scheduled open_pc_def\<close>)
qed

lemma good_session_for:
  assumes ok: "good b" and adm: "adm_inv b" and s: "sessionForEndpoint fuel i ra b = Some (r, b')"
  shows "good b'"
  using sessionForEndpoint_result [OF s] ok good_dial [OF ok adm] by blast

section \<open>Workers\<close>

lemma distinct_key_drop:
  assumes "distinct (map f xs)" "k < length xs"
  shows "set (take k xs @ drop (Suc k) xs) = {x \<in> set xs. f x \<noteq> f (xs ! k)}" "distinct (map f (take k xs @ drop (Suc k) xs))"
proof -
  have xs: "xs = take k xs @ xs ! k # drop (Suc k) xs" by (rule id_take_nth_drop [OF assms(2)])
  then have d: "distinct (map f (take k xs @ xs ! k # drop (Suc k) xs))" using assms(1) by simp
  then show "distinct (map f (take k xs @ drop (Suc k) xs))" by auto
  have "set xs = set (take k xs @ xs ! k # drop (Suc k) xs)" using xs by simp
  moreover have "f (xs ! k) \<notin> f ` set (take k xs @ drop (Suc k) xs)" using d by auto
  then have "f x \<noteq> f (xs ! k)" if "x \<in> set (take k xs @ drop (Suc k) xs)" for x using that by (metis imageI)
  ultimately show "set (take k xs @ drop (Suc k) xs) = {x \<in> set xs. f x \<noteq> f (xs ! k)}" by auto
qed

lemma distinct_key_update:
  assumes "distinct (map f xs)" "k < length xs" "f y = f (xs ! k)"
  shows "set (xs[k := y]) = insert y {x \<in> set xs. f x \<noteq> f (xs ! k)}" "distinct (map f (xs[k := y]))"
proof -
  have "map f (xs[k := y]) = map f xs" using assms(2,3) by (metis list_update_id map_update nth_map)
  then show "distinct (map f (xs[k := y]))" using assms(1) by simp
  have "xs[k := y] = take k xs @ y # drop (Suc k) xs" by (rule upd_conv_take_nth_drop [OF assms(2)])
  then show "set (xs[k := y]) = insert y {x \<in> set xs. f x \<noteq> f (xs ! k)}" using distinct_key_drop(1) [OF assms(1,2)] by auto
qed

text \<open>A worker goes away or moves on; it was not armed, or the timer of its endpoint is taken away at the same time.\<close>

lemma worker_moves:
  assumes inv: "bind_inv b" and k: "k < length (bd_workers b)" and w: "w = bd_workers b ! k" "i = wk_endpoint w"
    and off: "\<not> armed w \<or> \<not> ep_reconnectScheduled e"
    and e: "ep_view (e\<lparr>ep_reconnectScheduled := s, ep_reconnectCancel := c\<rparr>)
        = ep_view ((bd_endpointOf b i)\<lparr>ep_reconnectScheduled := s, ep_reconnectCancel := c\<rparr>)"
      "e = bd_endpointOf b i \<or> \<not> ep_reconnectScheduled e \<and> wk_generation w = ep_reconnectGeneration (bd_endpointOf b i)"
    and pc: "pc \<noteq> Waiting_Timer"
  shows "bind_inv (drop_worker k (set_endpoint i e b))" "bind_inv (worker_at k pc (set_endpoint i e b))"
proof -
  have ok: "reg_ok b" "sess_ok b" "work_ok b" using inv by (simp_all add: bind_inv_def)
  note d = work_okD(1) [OF ok(3)]
  have e': "ep_addr e = ep_addr (bd_endpointOf b i)" "ep_session e = ep_session (bd_endpointOf b i)" "ep_route e = ep_route (bd_endpointOf b i)"
    "ep_retired e = ep_retired (bd_endpointOf b i)" "ep_reconnectGeneration e = ep_reconnectGeneration (bd_endpointOf b i)"
    using e(1) by (simp_all add: ep_view_def)
  have c: "isConfigured e = isConfigured (bd_endpointOf b i)" by (simp add: isConfigured_def e')
  have sched: "ep_reconnectScheduled e \<Longrightarrow> ep_reconnectScheduled (bd_endpointOf b i)" using e(2) by auto
  have rs: "reg_ok b'" "sess_ok b'" if "bd_endpointOf b' = (bd_endpointOf b)(i := e)" "bd_endpoints b' = bd_endpoints b"
      "bd_nextEndpoint b' = bd_nextEndpoint b" "bd_sessionOf b' = bd_sessionOf b" for b'
    by (rule reg_sess_cong [of b' b]; use reg_okD(2) [OF ok(1)] ok(1,2) sched in \<open>auto simp: that e'\<close>)+
  have only: "x \<in> set (bd_workers b) \<Longrightarrow> armed x \<Longrightarrow> wk_key x \<noteq> wk_key w \<Longrightarrow> \<not> ep_reconnectScheduled e \<Longrightarrow> wk_endpoint x \<noteq> i" for x
    using work_okD(3) [OF ok(3), of x] e(2) w by (auto simp: wk_key_def)
  have work: "work_ok b'" if b': "bd_endpointOf b' = (bd_endpointOf b)(i := e)" "bd_ctxDone b' = bd_ctxDone b" "bd_closing b' = bd_closing b"
      and ws: "distinct (map wk_key (bd_workers b'))" "{x \<in> set (bd_workers b). wk_key x \<noteq> wk_key w} \<subseteq> set (bd_workers b')"
        "\<And>x. x \<in> set (bd_workers b') \<Longrightarrow> x \<in> set (bd_workers b) \<and> wk_key x \<noteq> wk_key w \<or> \<not> armed x \<and> wk_key x = wk_key w" for b'
  proof (cases "ep_reconnectScheduled e")
    case False
    have mem: "w \<in> set (bd_workers b)" using k w by simp
    show ?thesis
    proof (rule work_quiet [OF ok(3), of b' i])
      show "\<exists>x \<in> set (bd_workers b). wk_key x' = wk_key x \<and> (armed x' \<longrightarrow> armed x \<and> wk_endpoint x \<noteq> i)" if "x' \<in> set (bd_workers b')" for x'
        using ws(3) [OF that] only [of x'] False mem by blast
      show "x \<in> set (bd_workers b')" if "x \<in> set (bd_workers b)" "armed x" "wk_endpoint x \<noteq> i" for x
        using ws(2) that w(2) by (auto simp: wk_key_def)
    qed (use False ws(1) in \<open>simp_all add: b' e' c\<close>)
  next
    case True
    then have [simp]: "e = bd_endpointOf b i" and na: "\<not> armed w" using e(2) off by auto
    have mem: "w \<in> set (bd_workers b)" using k w by simp
    have E: "bd_endpointOf b' = bd_endpointOf b" by (simp add: b')
    have "wk_key x = wk_key w \<Longrightarrow> x \<in> set (bd_workers b) \<Longrightarrow> x = w" for x
      using d mem by (auto simp: distinct_map inj_on_def)
    then have keep: "x \<in> set (bd_workers b) \<Longrightarrow> armed x \<Longrightarrow> x \<in> set (bd_workers b')" for x using ws(2) na by blast
    have old: "\<exists>v \<in> set (bd_workers b). wk_key v = wk_key x \<and> (armed x \<longrightarrow> armed v)" if "x \<in> set (bd_workers b')" for x
      using ws(3) [OF that] mem by metis
    have wk: "isConfigured (bd_endpointOf b (wk_endpoint x)) \<and> wk_generation x \<le> ep_reconnectGeneration (bd_endpointOf b (wk_endpoint x))
        \<and> (armed x \<longrightarrow> ep_reconnectScheduled (bd_endpointOf b (wk_endpoint x))
             \<and> wk_generation x = ep_reconnectGeneration (bd_endpointOf b (wk_endpoint x)))" if x: "x \<in> set (bd_workers b')" for x
      using old [OF x] work_okD(2,3) [OF ok(3)] unfolding wk_key_def by (metis prod.inject)
    show ?thesis unfolding work_ok_def E b'(2,3) using ws(1) wk work_okD(4-6) [OF ok(3)] keep by blast
  qed
  show "bind_inv (drop_worker k (set_endpoint i e b))"
    using rs [of "drop_worker k (set_endpoint i e b)"] work [of "drop_worker k (set_endpoint i e b)"] distinct_key_drop [OF d k]
    by (auto simp: bind_inv_def drop_worker_def w)
  have "work_ok (worker_at k pc (set_endpoint i e b))"
    by (rule work; use distinct_key_update [OF d k, of "(bd_workers b ! k)\<lparr>wk_pc := pc\<rparr>"] pc in \<open>auto simp: worker_at_def w armed_def\<close>)
  then show "bind_inv (worker_at k pc (set_endpoint i e b))" using rs [of "worker_at k pc (set_endpoint i e b)"] by (simp add: bind_inv_def)
qed

lemma worker_quiet:
  assumes "bind_inv b" "k < length (bd_workers b)" "\<not> armed (bd_workers b ! k)" "pc \<noteq> Waiting_Timer"
  shows "bind_inv (drop_worker k b)" "bind_inv (worker_at k pc b)"
proof -
  have [simp]: "set_endpoint i (bd_endpointOf b i) b = b" for i by (simp add: set_endpoint_def)
  show "bind_inv (drop_worker k b)" "bind_inv (worker_at k pc b)"
    using worker_moves [OF assms(1,2) refl refl, of "bd_endpointOf b (wk_endpoint (bd_workers b ! k))", OF _ refl _ assms(4)] assms(3)
    by simp_all
qed

lemma busy_drop:
  assumes d: "distinct (map wk_key (bd_workers b))" and k: "k < length (bd_workers b)"
  shows "wk_pc (bd_workers b ! k) = Waiting_Timer \<or> j \<noteq> wk_endpoint (bd_workers b ! k) \<Longrightarrow> busy (drop_worker k b) j = busy b j"
    "pc \<noteq> Waiting_Timer \<Longrightarrow> busy (worker_at k pc b) j \<longleftrightarrow> j = wk_endpoint (bd_workers b ! k) \<or> busy b j"
proof -
  have same: "wk_key x = wk_key (bd_workers b ! k) \<Longrightarrow> x \<in> set (bd_workers b) \<Longrightarrow> x = bd_workers b ! k" for x
    using d k by (auto simp: distinct_map inj_on_def)
  have ws: "set (bd_workers (drop_worker k b)) = {x \<in> set (bd_workers b). wk_key x \<noteq> wk_key (bd_workers b ! k)}"
    using distinct_key_drop(1) [OF d k] by (simp add: drop_worker_def)
  show "busy (drop_worker k b) j = busy b j" if "wk_pc (bd_workers b ! k) = Waiting_Timer \<or> j \<noteq> wk_endpoint (bd_workers b ! k)"
    unfolding busy_def ws using same that by auto
  show "busy (worker_at k pc b) j \<longleftrightarrow> j = wk_endpoint (bd_workers b ! k) \<or> busy b j" if "pc \<noteq> Waiting_Timer"
    using distinct_key_update(1) [OF d k, of "(bd_workers b ! k)\<lparr>wk_pc := pc\<rparr>"] same that
    by (auto simp: busy_def worker_at_def)
qed

lemma maint_drop:
  assumes d: "distinct (map wk_key (bd_workers b))" and k: "k < length (bd_workers b)" and m: "maint_but X b"
  shows "wk_pc (bd_workers b ! k) = Waiting_Timer \<Longrightarrow> maint_but X (drop_worker k b)"
    "maint_but (insert (wk_endpoint (bd_workers b ! k)) X) (drop_worker k b)"
    "pc \<noteq> Waiting_Timer \<Longrightarrow> maint_but (X - {wk_endpoint (bd_workers b ! k)}) (worker_at k pc b)"
proof -
  note busy = busy_drop [OF d k]
  have e: "eligible (drop_worker k b) j = eligible b j" "eligible (worker_at k pc b) j = eligible b j" for j
    by (simp_all add: eligible_def unshared_def)
  have r: "will_resume (drop_worker k b) x j = will_resume b x j" "will_resume (worker_at k pc b) x j = will_resume b x j" for x j
    by (simp_all add: will_resume_def)
  show "maint_but X (drop_worker k b)" if "wk_pc (bd_workers b ! k) = Waiting_Timer"
    using m busy(1) that by (simp add: maint_but_def maintained_def e r)
  show "maint_but (insert (wk_endpoint (bd_workers b ! k)) X) (drop_worker k b)"
    using m busy(1) unfolding maint_but_def maintained_def e r by auto
  show "maint_but (X - {wk_endpoint (bd_workers b ! k)}) (worker_at k pc b)" if "pc \<noteq> Waiting_Timer"
    using m busy(2) [OF that] unfolding maint_but_def maintained_def e r by auto
qed

lemma maint_fill: "maint_but {i} b \<Longrightarrow> (\<not> bd_closing b \<Longrightarrow> eligible b i \<Longrightarrow> maintained b i) \<Longrightarrow> maint_but {} b"
  unfolding maint_but_def by (metis empty_iff insert_iff)

lemma good_worker_end:
  assumes "good b" "worker_is k Waiting_Timer b" "wk_cancelled (bd_workers b ! k)"
  shows "good (drop_worker k b)"
  using assms worker_quiet(1) [OF goodD(1) [OF assms(1)], of k Fired] maint_drop(1) [OF work_okD(1) [OF goodD(5) [OF assms(1)]] _ goodD(2) [OF assms(1)], of k]
  by (simp add: good_def worker_is_def armed_def)

lemma good_worker_fire:
  assumes ok: "good b" and k: "worker_is k Waiting_Timer b"
  shows "good (worker_fire k b)"
proof -
  define w where "w = bd_workers b ! k"
  define i where "i = wk_endpoint w"
  define e where "e = (bd_endpointOf b i)\<lparr>ep_reconnectScheduled := False, ep_reconnectCancel := None, ep_nextReconnect := None\<rparr>"
  define b1 where "b1 = set_endpoint i e b"
  have k': "k < length (bd_workers b)" "wk_pc w = Waiting_Timer" using k by (simp_all add: worker_is_def w_def)
  have f: "worker_fire k b = (if ep_reconnectGeneration (bd_endpointOf b i) \<noteq> wk_generation w \<or> \<not> ep_reconnectScheduled (bd_endpointOf b i)
      then drop_worker k b
      else if \<not> (isConfigured (bd_endpointOf b i) \<and> ep_activated (bd_endpointOf b i) \<and> \<not> ep_retired (bd_endpointOf b i)
        \<and> ep_session (bd_endpointOf b i) = None) \<or> bd_ctxDone b then drop_worker k b1 else worker_at k Fired b1)"
    unfolding worker_fire_def b1_def e_def i_def w_def Let_def by simp
  show ?thesis
  proof (cases "ep_reconnectGeneration (bd_endpointOf b i) \<noteq> wk_generation w \<or> \<not> ep_reconnectScheduled (bd_endpointOf b i)")
    case True
    have "\<not> armed w" using work_okD(3) [OF goodD(5) [OF ok], of w] True k' by (auto simp: w_def i_def)
    then have "good (drop_worker k b)"
      using worker_quiet(1) [OF goodD(1) [OF ok] k'(1), of Fired] maint_drop(1) [OF work_okD(1) [OF goodD(5) [OF ok]] k'(1) goodD(2) [OF ok]] k'(2)
      by (simp add: good_def w_def)
    then show ?thesis using True by (simp add: f)
  next
    case False
    have inv: "bind_inv (drop_worker k b1)" "bind_inv (worker_at k Fired b1)"
      unfolding b1_def
      by (rule worker_moves [OF goodD(1) [OF ok] k'(1) w_def i_def, where pc = Fired]; use False in \<open>simp add: e_def ep_view_def\<close>)+
    have b1: "ep_addr (bd_endpointOf b1 j) = ep_addr (bd_endpointOf b j)" "isConfigured (bd_endpointOf b1 j) = isConfigured (bd_endpointOf b j)"
      "ep_activated (bd_endpointOf b1 j) = ep_activated (bd_endpointOf b j)" "ep_retired (bd_endpointOf b1 j) = ep_retired (bd_endpointOf b j)"
      "ep_session (bd_endpointOf b1 j) = ep_session (bd_endpointOf b j)"
      "ep_reconnectScheduled (bd_endpointOf b1 j) = (j \<noteq> i \<and> ep_reconnectScheduled (bd_endpointOf b j))" for j
      by (simp_all add: b1_def e_def isConfigured_def)
    have w1: "bd_workers b1 = bd_workers b" "bd_ctxDone b1 = bd_ctxDone b" "bd_closing b1 = bd_closing b" "bd_todo b1 = bd_todo b"
      "bd_sessionOf b1 = bd_sessionOf b" "bd_endpoints b1 = bd_endpoints b" "bd_nextEndpoint b1 = bd_nextEndpoint b"
      by (simp_all add: b1_def)
    have e1: "eligible b1 j = eligible b j" for j by (rule eligible_cong) (simp_all add: b1 w1)
    have "maintained b1 j = maintained b j" if "j \<noteq> i" for j
      using that by (simp add: maintained_def busy_def will_resume_def b1 w1)
    then have m1: "maint_but {i} b1" by (intro maint_mono [OF goodD(2) [OF ok]]) (simp_all add: e1 w1)
    have d: "distinct (map wk_key (bd_workers b1))" "k < length (bd_workers b1)" using work_okD(1) [OF goodD(5) [OF ok]] k' by (simp_all add: w1)
    have fired: "good (worker_at k Fired b1)"
      using maint_drop(3) [OF d m1, of Fired] inv(2) by (simp add: w1 w_def [symmetric] i_def [symmetric] good_def)
    have "maint_but {i} (drop_worker k b1)" using maint_drop(1) [OF d m1] k'(2) by (simp add: w1 w_def)
    then have "maint_but {} (drop_worker k b1)"
      if "\<not> (isConfigured (bd_endpointOf b i) \<and> ep_activated (bd_endpointOf b i) \<and> \<not> ep_retired (bd_endpointOf b i)
        \<and> ep_session (bd_endpointOf b i) = None) \<or> bd_ctxDone b"
      by (rule maint_fill)
        (use that work_okD(6) [OF goodD(5) [OF ok]] reg_okD(1) [OF goodD(3) [OF ok], of "ep_addr (bd_endpointOf b i)" i] w1
          in \<open>auto simp: eligible_def maintained_def b1 w1\<close>)
    then show ?thesis using False fired inv(1) by (simp add: f good_def)
  qed
qed

lemma established_maintained:
  assumes ok: "good b" and adm: "adm_inv b" and est: "hasEstablishedSession (ep_addr (bd_endpointOf b i)) b" and i: "eligible b i"
  shows "ep_session (bd_endpointOf b i) \<noteq> None \<or> (\<exists>sid. will_resume b sid i)"
proof -
  obtain sid where s: "sid \<in> set (bd_sessions b)" "ep_addr (bd_endpointOf b (s_endpoint (bd_sessionOf b sid))) = ep_addr (bd_endpointOf b i)"
    "\<not> s_closed (bd_sessionOf b sid)" "\<not> s_ctxDone (bd_sessionOf b sid)"
    using est by (auto simp: hasEstablishedSession_def list_ex_iff Let_def)
  define j where "j = s_endpoint (bd_sessionOf b sid)"
  have op: "open_pc (s_pc (bd_sessionOf b sid))" using adm_invD(3) [OF adm, of sid] s(3) by simp
  then have ne: "s_pc (bd_sessionOf b sid) \<noteq> Ended" by (auto simp: open_pc_def)
  show ?thesis
  proof (cases "s_role (bd_sessionOf b sid)")
    case Inbound
    then show ?thesis using ne s(2) by (auto simp: will_resume_def)
  next
    case Outbound
    have j: "j < bd_nextEndpoint b" "isConfigured (bd_endpointOf b j)" "ep_session (bd_endpointOf b j) = Some sid"
      using sess_okD(1) [OF goodD(4) [OF ok] ne] sess_okD(4) [OF goodD(4) [OF ok] Outbound op s(4)] Outbound by (simp_all add: j_def)
    have "\<not> ep_retired (bd_endpointOf b j)" using reg_okD(3) [OF goodD(3) [OF ok], of j] j(3) by auto
    then have "j = i" using i j(1,2) s(2) by (auto simp: eligible_def unshared_def j_def)
    then show ?thesis using j(3) by simp
  qed
qed

lemma good_worker_check:
  assumes ok: "good b" and adm: "adm_inv b" and k: "worker_is k Fired b"
  shows "good (worker_check k b)"
proof -
  define i where "i = wk_endpoint (bd_workers b ! k)"
  have k': "k < length (bd_workers b)" "\<not> armed (bd_workers b ! k)" using k by (simp_all add: worker_is_def armed_def)
  note d = work_okD(1) [OF goodD(5) [OF ok]]
  note inv = worker_quiet [OF goodD(1) [OF ok] k', of Checked]
  have m: "maint_but {i} (drop_worker k b)" using maint_drop(2) [OF d k'(1) goodD(2) [OF ok]] by (simp add: i_def)
  have "maint_but {} (drop_worker k b)" if "hasEstablishedSession (ep_addr (bd_endpointOf b i)) b"
  proof (rule maint_fill [OF m])
    assume "eligible (drop_worker k b) i"
    then have "eligible b i" by (simp add: eligible_def unshared_def)
    then show "maintained (drop_worker k b) i" using established_maintained [OF ok adm that] by (auto simp: maintained_def will_resume_def)
  qed
  moreover have "maint_but {} (worker_at k Checked b)" using maint_drop(3) [OF d k'(1) goodD(2) [OF ok], of Checked] by simp
  ultimately show ?thesis using inv by (simp add: worker_check_def i_def good_def)
qed

lemma sessionForEndpoint_configured:
  "isConfigured (bd_endpointOf b i) \<Longrightarrow> sessionForEndpoint (Suc n) i ra b =
     Some (if bd_closing b \<or> bd_ctxDone b then (Inl ErrNetClosed, b)
           else case ep_session (bd_endpointOf b i) of
                  None \<Rightarrow> dialEndpoint i ra b
                | Some sid \<Rightarrow> if s_closed (bd_sessionOf b sid) then dialEndpoint i ra b else (Inr sid, b))"
  by (simp add: Let_def split: option.splits)

lemma session_for_workers:
  assumes "sessionForEndpoint fuel i ra b = Some (r, b')" "k < length (bd_workers b)"
  shows "k < length (bd_workers b')" "wk_pc (bd_workers b' ! k) = wk_pc (bd_workers b ! k)"
    "wk_endpoint (bd_workers b' ! k) = wk_endpoint (bd_workers b ! k)"
proof -
  have "\<exists>c. bd_workers b' = bd_workers b \<or> bd_workers b' = map (cancel_worker j c) (bd_workers b)"
    if "dialEndpoint j ra b = (r, b')" for j
    using that
  proof (cases rule: dialEndpoint_cases)
    case (dialed b1)
    then have "bd_workers b' = map (cancel_worker j (ep_reconnectCancel (bd_endpointOf b j))) (bd_workers b)"
      by (simp add: newSession_fields cancel_workers)
    then show ?thesis by blast
  qed simp
  then have "\<exists>j c. bd_workers b' = bd_workers b \<or> bd_workers b' = map (cancel_worker j c) (bd_workers b)"
    using sessionForEndpoint_result [OF assms(1)] by blast
  then show "k < length (bd_workers b')" "wk_pc (bd_workers b' ! k) = wk_pc (bd_workers b ! k)"
    "wk_endpoint (bd_workers b' ! k) = wk_endpoint (bd_workers b ! k)"
    using assms(2) by auto
qed

text \<open>A dial on behalf of a worker leaves nothing to maintain, except when admission is refused.\<close>

lemma dial_outcome:
  assumes ok: "good b" and conf: "isConfigured (bd_endpointOf b i)" and s: "sessionForEndpoint 2 i True b = Some (r, b')" and g: "good b'"
    and e: "eligible b' i"
  shows "bd_closing b' \<or> ep_session (bd_endpointOf b' i) \<noteq> None \<or> r = Inl AdmissionLimit"
proof -
  have "(r, b') = (if bd_closing b \<or> bd_ctxDone b then (Inl ErrNetClosed, b)
           else case ep_session (bd_endpointOf b i) of
                  None \<Rightarrow> dialEndpoint i True b
                | Some sid \<Rightarrow> if s_closed (bd_sessionOf b sid) then dialEndpoint i True b else (Inr sid, b))"
    using s sessionForEndpoint_configured [OF conf, of 1 True]
    by (simp add: numeral_2_eq_2 del: sessionForEndpoint.simps split del: if_split)
  then consider "bd_closing b" "b' = b" | "ep_session (bd_endpointOf b i) \<noteq> None" "b' = b" | "dialEndpoint i True b = (r, b')"
    using work_okD(6) [OF goodD(5) [OF ok]] by (auto split: if_splits option.splits)
  then show ?thesis
  proof cases
    case 3
    then show ?thesis
    proof (cases rule: dialEndpoint_cases)
      case rejected
      then show ?thesis using e reg_okD(1) [OF goodD(3) [OF g], of "ep_addr (bd_endpointOf b' i)" i] by (auto simp: eligible_def)
    next
      case (dialed b1)
      have "ep_session (bd_endpointOf b' i) = Some (bd_nextSession b1 + 1)"
        using newSession_fields(9) [where i = i and ra = True and pc = Dialing and b = b1] by (simp add: dialed(4) ep_view_def)
      then show ?thesis by simp
    qed
  qed simp_all
qed

lemma good_worker_dial:
  assumes ok: "good b" and adm: "adm_inv b" and k: "worker_is k Checked b"
  shows "good (worker_dial k b)"
proof (cases "worker_dial k b = b")
  case False
  define i where "i = wk_endpoint (bd_workers b ! k)"
  have k': "k < length (bd_workers b)" "wk_pc (bd_workers b ! k) = Checked" using k by (simp_all add: worker_is_def)
  have conf: "isConfigured (bd_endpointOf b i)" using work_okD(2) [OF goodD(5) [OF ok], of "bd_workers b ! k"] k' by (simp add: i_def)
  obtain r b1 where s: "sessionForEndpoint 2 i True b = Some (r, b1)"
    and d: "worker_dial k b = drop_worker k b1 \<and> (r \<noteq> Inl AdmissionLimit \<or> bd_ctxDone b1)
      \<or> worker_dial k b = worker_at k Retrying (set_endpoint i ((bd_endpointOf b1 i)\<lparr>ep_consecutiveFailures :=
            ep_consecutiveFailures (bd_endpointOf b1 i) + 1\<rparr>) b1)"
    using False unfolding i_def by (rule worker_dial_cases) blast
  define b2 where "b2 = set_endpoint i ((bd_endpointOf b1 i)\<lparr>ep_consecutiveFailures := ep_consecutiveFailures (bd_endpointOf b1 i) + 1\<rparr>) b1"
  have g1: "good b1" by (rule good_session_for [OF ok adm s])
  have g2: "good b2" using goodD(1,2) [OF g1] unfolding b2_def by (intro goodI; elim frame [rotated -1]; simp)
  note w = session_for_workers [OF s k'(1)]
  have na: "\<not> armed (bd_workers b1 ! k)" "wk_endpoint (bd_workers b1 ! k) = i" using w k' by (simp_all add: armed_def i_def)
  have b2: "bd_workers b2 = bd_workers b1" by (simp add: b2_def)
  have "good (worker_at k Retrying b2)"
    using worker_quiet(2) [OF goodD(1) [OF g2], of k Retrying] maint_drop(3) [OF work_okD(1) [OF goodD(5) [OF g2]] _ goodD(2) [OF g2], of k Retrying] w na
    by (simp add: b2 good_def)
  moreover have "good (drop_worker k b1)" if "r \<noteq> Inl AdmissionLimit \<or> bd_ctxDone b1"
  proof (rule goodI)
    show "bind_inv (drop_worker k b1)" using worker_quiet(1) [OF goodD(1) [OF g1], of k Fired] w na by simp
    have "maint_but {i} (drop_worker k b1)" using maint_drop(2) [OF work_okD(1) [OF goodD(5) [OF g1]] w(1) goodD(2) [OF g1]] na by simp
    then show "maint_but {} (drop_worker k b1)"
    proof (rule maint_fill)
      assume c: "\<not> bd_closing (drop_worker k b1)" and "eligible (drop_worker k b1) i"
      then have "eligible b1 i" by (simp add: eligible_def unshared_def)
      then show "maintained (drop_worker k b1) i"
        using dial_outcome [OF ok conf s g1] c that work_okD(6) [OF goodD(5) [OF g1]] by (auto simp: maintained_def)
    qed
  qed
  ultimately show ?thesis using d unfolding b2_def [symmetric] by auto
qed (use ok in simp)

lemma good_worker_retry:
  assumes ok: "good b" and k: "worker_is k Retrying b"
  shows "good (worker_retry k b)"
proof -
  have k': "k < length (bd_workers b)" "\<not> armed (bd_workers b ! k)" using k by (simp_all add: worker_is_def armed_def)
  have inv: "bind_inv (drop_worker k b)" using worker_quiet(1) [OF goodD(1) [OF ok] k', of Fired] by simp
  have "maint_but {wk_endpoint (bd_workers b ! k)} (drop_worker k b)"
    using maint_drop(2) [OF work_okD(1) [OF goodD(5) [OF ok]] k'(1) goodD(2) [OF ok]] by simp
  then show ?thesis using maint_schedule [OF inv] bind_inv_schedule [OF inv] by (simp add: worker_retry_def good_def)
qed

section \<open>Reachable states\<close>

lemma good_step: "bind_step b b' \<Longrightarrow> adm_inv b \<Longrightarrow> good b \<Longrightarrow> good b'"
proof (induction rule: bind_step.induct)
  case (st_send i b r b')
  then show ?case using good_session_for by blast
next
  case (st_bind_cancel b)
  then show ?case using good_bind_cancel by blast
next
  case (st_worker_end k b)
  then show ?case using good_worker_end by blast
qed (simp_all add: at_pc_def good_frame_steps good_parse good_accept good_suspend good_moves good_detach good_reschedule good_retire
    good_redial good_todo good_worker_fire good_worker_check good_worker_dial good_worker_retry)

lemma good_open: "good (openBind cfg now)"
  by (simp add: good_def bind_inv_def reg_ok_def sess_ok_def work_ok_def maint_but_def eligible_def openBind_def newEndpoint_def
      isConfigured_def currentRoute_def open_pc_def)

lemma good_reach: "bind_reach cfg b \<Longrightarrow> good b"
proof (induction rule: bind_reach.induct)
  case (reach_step b b')
  then show ?case using good_step adm_inv_reach by blast
qed (rule good_open)



text \<open>A configured endpoint is dialed, the dial fails, and its closing session arms the timer.\<close>

definition sample_dialed :: Bind where
  "sample_dialed = snd (the (sessionForEndpoint 2 0 False (snd (ParseEndpoint True sample_remote (openBind sample_bindConfig 0)))))"

definition sample_waiting :: Bind where
  "sample_waiting = close_reschedule 1 (close_detach 1 (close_unregister 1 (dial_failed 1 ''timeout'' sample_dialed)))"

lemma sample_bind_reach: "bind_reach sample_bindConfig sample_dialed" "bind_reach sample_bindConfig sample_waiting"
proof -
  define b where "b = snd (ParseEndpoint True sample_remote (openBind sample_bindConfig 0))"
  have "bind_reach sample_bindConfig b" unfolding b_def by (rule reach_step [OF reach_open st_parse])
  moreover have "0 < bd_nextEndpoint b" unfolding b_def by code_simp
  moreover have "sessionForEndpoint 2 0 False b \<noteq> None" unfolding b_def by code_simp
  then have "sessionForEndpoint 2 0 False b = Some (fst (the (sessionForEndpoint 2 0 False b)), sample_dialed)"
    by (auto simp: sample_dialed_def b_def [symmetric])
  ultimately show d: "bind_reach sample_bindConfig sample_dialed" using reach_step [OF _ st_send] by blast
  have pc: "at_pc 1 Dialing sample_dialed" "at_pc 1 Unregistering (dial_failed 1 ''timeout'' sample_dialed)"
    "at_pc 1 Detaching (close_unregister 1 (dial_failed 1 ''timeout'' sample_dialed))"
    "at_pc 1 Rescheduling (close_detach 1 (close_unregister 1 (dial_failed 1 ''timeout'' sample_dialed)))"
    by code_simp+
  show "bind_reach sample_bindConfig sample_waiting"
    unfolding sample_waiting_def
    by (rule reach_step [OF reach_step [OF reach_step [OF reach_step [OF d st_dial_failed [OF pc(1)]] st_unregister [OF pc(2)]]
            st_detach [OF pc(3)]] st_reschedule [OF pc(4)]])
qed



end
