(* ===== verification/Spec2Isabelle.thy ===== *)
theory Spec2Isabelle
  imports Framing Fec_Recovery Salamander Config Desired_State Reconcile_Diff Coordinator Event_Log Send_Budget Leases Sessions Maintenance
begin

text \<open>
  wg-quic carries WireGuard datagrams over QUIC.
\<close>

end
